(* ===== verification/Prelude.thy ===== *)
theory Prelude
  imports Main "HOL-Library.Word" "HOL-Library.Monad_Syntax"
begin

text \<open>
  Shared vocabulary of the development: the machine-integer types of the C++ sources, the
  option monad that carries failed assertions, and the generic lemmas the component theories
  use.

  A failed \<open>assert\<close>, \<open>assert_msg\<close> or \<open>panic\<close> of zsim (src/src/log.h) ends the simulation; in the
  model it is the value \<open>None\<close>. A computation that may fail therefore has an option type and is
  written in \<open>do\<close> notation; \<open>assert_that\<close> is the assertion.

  Integers. Where the bits of a value matter (addresses, masks, hashes, request flags) a
  \<open>uint32_t\<close> or \<open>uint64_t\<close> is a \<open>32 word\<close> or \<open>64 word\<close>. Counters and cycle numbers are natural
  numbers; where a width can be exceeded or a counter can go below zero the wrap-around is
  written out with \<open>trunc32\<close>, \<open>trunc64\<close>, \<open>inc32\<close> and \<open>dec32\<close>.
\<close>

unbundle bit_operations_syntax

type_synonym u32 = "32 word"
type_synonym u64 = "64 word"

named_theorems monad_simps \<open>unfolding of the option monad and of assertions\<close>
named_theorems inv_intros \<open>an operation keeps the invariant of its component\<close>

section \<open>Assertions and the option monad\<close>

definition assert_that :: "bool \<Rightarrow> unit option" where
  "assert_that b = (if b then Some () else None)"

lemma assert_that_True [simp]: "assert_that True = Some ()"
  by (simp add: assert_that_def)

lemma assert_that_False [simp]: "assert_that False = None"
  by (simp add: assert_that_def)

lemma assert_that_Some [simp]: "assert_that b = Some u \<longleftrightarrow> b"
  by (simp add: assert_that_def)

lemma assert_that_None [simp]: "assert_that b = None \<longleftrightarrow> \<not> b"
  by (simp add: assert_that_def)

lemma bind_assert_Some [simp]:
  "Option.bind (assert_that b) f = Some r \<longleftrightarrow> b \<and> f () = Some r"
  by (simp add: assert_that_def)

lemma bind_assert_None [simp]:
  "Option.bind (assert_that b) f = None \<longleftrightarrow> \<not> b \<or> f () = None"
  by (simp add: assert_that_def)

lemma bind_assert_if: "Option.bind (assert_that b) f = (if b then f () else None)"
  by (simp add: assert_that_def)

lemma bind_SomeE:
  assumes "Option.bind m f = Some r"
  obtains x where "m = Some x" "f x = Some r"
  using assms by (cases m) auto

declare bind_assert_if [monad_simps] Option.bind_eq_Some_conv [monad_simps]

section \<open>Fixed-width counters\<close>

definition trunc32 :: "nat \<Rightarrow> nat" where
  "trunc32 n = n mod 2 ^ 32"

definition trunc64 :: "nat \<Rightarrow> nat" where
  "trunc64 n = n mod 2 ^ 64"

definition inc32 :: "nat \<Rightarrow> nat" where
  "inc32 n = (n + 1) mod 2 ^ 32"

definition dec32 :: "nat \<Rightarrow> nat" where
  "dec32 n = (n + (2 ^ 32 - 1)) mod 2 ^ 32"

lemma trunc32_less [simp]: "trunc32 n < 2 ^ 32"
  by (simp add: trunc32_def)

lemma trunc32_id [simp]: "n < 2 ^ 32 \<Longrightarrow> trunc32 n = n"
  by (simp add: trunc32_def)

lemma trunc32_le: "trunc32 n \<le> n"
  by (simp add: trunc32_def)

lemma trunc64_id [simp]: "n < 2 ^ 64 \<Longrightarrow> trunc64 n = n"
  by (simp add: trunc64_def)

lemma inc32_small: "n + 1 < 2 ^ 32 \<Longrightarrow> inc32 n = n + 1"
  by (simp add: inc32_def)

lemma dec32_pos:
  assumes "0 < n" and "n < 2 ^ 32"
  shows "dec32 n = n - 1"
proof -
  obtain k where k: "n = Suc k" using assms(1) by (cases n) auto
  have "dec32 n = (k + 2 ^ 32) mod 2 ^ 32" by (simp add: dec32_def k)
  then show ?thesis using assms(2) k by simp
qed

lemma dec32_zero: "dec32 0 = 2 ^ 32 - 1"
  by (simp add: dec32_def)

section \<open>Generic lemmas\<close>

lemma fold_invariant:
  assumes "P a" and "\<And>x a. x \<in> set xs \<Longrightarrow> P a \<Longrightarrow> P (f x a)"
  shows "P (fold f xs a)"
  using assms by (induction xs arbitrary: a) auto

lemma sum_list_update_nat:
  fixes xs :: "nat list"
  assumes "i < length xs"
  shows "sum_list (xs[i := xs ! i + k]) = sum_list xs + k"
  using assms
proof (induction xs arbitrary: i)
  case Nil
  then show ?case by simp
next
  case (Cons x xs)
  then show ?case by (cases i) auto
qed

end
