(* ===== verification/Config.thy ===== *)
theory Config
  imports Prelude
begin

text \<open>
  The configuration layer of src/src/config.h and src/src/config.cpp: typed access to settings and
  the parsers of masks and lists. The settings file itself belongs to libconfig; its two operations
  on a key, \<open>exists\<close> and the overloads of \<open>lookupValue\<close> (which fail on a setting of another type),
  are the parameter \<open>libconfig\<close>. The copy of all values that \<open>Config\<close> keeps for the output file is
  not modelled. String positions are natural numbers, \<open>None\<close> stands for \<open>npos\<close>.
\<close>

section \<open>Typed access\<close>

record libconfig =
  lc_exists :: "string \<Rightarrow> bool"
  lc_int :: "string \<Rightarrow> int option"
  lc_bool :: "string \<Rightarrow> bool option"
  lc_string :: "string \<Rightarrow> string option"
  lc_groups :: "string \<Rightarrow> string list"

definition genericGet :: "(string \<Rightarrow> bool) \<Rightarrow> (string \<Rightarrow> 'v option) \<Rightarrow> string \<Rightarrow> 'v \<Rightarrow> 'v option" where
  "genericGet exists lookupValue key def = (if exists key then lookupValue key else Some def)"

definition genericGet_mandatory :: "(string \<Rightarrow> bool) \<Rightarrow> (string \<Rightarrow> 'v option) \<Rightarrow> string \<Rightarrow> 'v option" where
  "genericGet_mandatory exists lookupValue key = (if exists key then lookupValue key else None)"

definition to_int32 :: "nat \<Rightarrow> int" where
  "to_int32 n = (if trunc32 n < 2 ^ 31 then int (trunc32 n) else int (trunc32 n) - 2 ^ 32)"

definition get_u32 :: "libconfig \<Rightarrow> string \<Rightarrow> nat \<Rightarrow> nat option" where
  "get_u32 cfg key def = map_option (\<lambda>v. nat (v mod 2 ^ 32)) (genericGet (lc_exists cfg) (lc_int cfg) key (to_int32 def))"

definition get_bool :: "libconfig \<Rightarrow> string \<Rightarrow> bool \<Rightarrow> bool option" where
  "get_bool cfg key def = genericGet (lc_exists cfg) (lc_bool cfg) key def"

definition get_str :: "libconfig \<Rightarrow> string \<Rightarrow> string \<Rightarrow> string option" where
  "get_str cfg key def = genericGet (lc_exists cfg) (lc_string cfg) key def"

definition get_str_mandatory :: "libconfig \<Rightarrow> string \<Rightarrow> string option" where
  "get_str_mandatory cfg key = genericGet_mandatory (lc_exists cfg) (lc_string cfg) key"

text \<open>\<open>lc_groups\<close> are the names of the members of a setting that are groups.\<close>

definition subgroups :: "libconfig \<Rightarrow> string \<Rightarrow> string list" where
  "subgroups cfg key = (if lc_exists cfg key then lc_groups cfg key else [])"

section \<open>Tokens\<close>

definition find_first_of :: "string \<Rightarrow> string \<Rightarrow> nat option \<Rightarrow> nat option" where
  "find_first_of str delimiters pos = (case pos of
     None \<Rightarrow> None
   | Some p \<Rightarrow> List.find (\<lambda>i. str ! i \<in> set delimiters) [p..<length str])"

definition find_first_not_of :: "string \<Rightarrow> string \<Rightarrow> nat option \<Rightarrow> nat option" where
  "find_first_not_of str delimiters pos = (case pos of
     None \<Rightarrow> None
   | Some p \<Rightarrow> List.find (\<lambda>i. str ! i \<notin> set delimiters) [p..<length str])"

definition substr :: "string \<Rightarrow> nat option \<Rightarrow> nat option \<Rightarrow> string" where
  "substr str lastPos pos = (case lastPos of
     None \<Rightarrow> []
   | Some l \<Rightarrow> (case pos of None \<Rightarrow> drop l str | Some p \<Rightarrow> take (p - l) (drop l str)))"

fun Tokenize_loop :: "nat \<Rightarrow> string \<Rightarrow> string \<Rightarrow> nat option \<Rightarrow> nat option \<Rightarrow> string list option" where
  "Tokenize_loop 0 str delimiters lastPos pos = None"
| "Tokenize_loop (Suc fuel) str delimiters lastPos pos =
     (if pos \<noteq> None \<or> lastPos \<noteq> None then
        (let token = substr str lastPos pos;
             lastPos' = find_first_not_of str delimiters pos;
             pos' = find_first_of str delimiters lastPos'
         in map_option (Cons token) (Tokenize_loop fuel str delimiters lastPos' pos'))
      else Some [])"

definition Tokenize :: "string \<Rightarrow> string \<Rightarrow> string list option" where
  "Tokenize str delimiters =
     Tokenize_loop (length str + 2) str delimiters (Some 0) (find_first_of str delimiters (Some 0))"

section \<open>Reading numbers and words from a string stream\<close>

definition is_space :: "char \<Rightarrow> bool" where
  "is_space c \<longleftrightarrow> c \<in> set [CHR '' '', CHR 0x09, CHR 0x0A, CHR 0x0B, CHR 0x0C, CHR 0x0D]"

definition is_digit :: "char \<Rightarrow> bool" where
  "is_digit c \<longleftrightarrow> c \<in> set ''0123456789''"

definition digit_val :: "char \<Rightarrow> nat" where
  "digit_val c = of_char c - 48"

text \<open>
  Extraction of a \<open>uint32_t\<close>: white space is skipped, a sign is accepted, digits are read up to the
  first other character. It fails without digits or if the number does not fit; a negated number
  wraps around.
\<close>

definition digits_val :: "string \<Rightarrow> nat" where
  "digits_val ds = foldl (\<lambda>n c. 10 * n + digit_val c) 0 ds"

definition read_u32 :: "string \<Rightarrow> nat option" where
  "read_u32 str =
     (let s = dropWhile is_space str;
          neg = (s \<noteq> [] \<and> hd s = CHR ''-'');
          s1 = (if s \<noteq> [] \<and> (hd s = CHR ''-'' \<or> hd s = CHR ''+'') then tl s else s);
          ds = takeWhile is_digit s1;
          n = digits_val ds
      in if ds = [] \<or> n \<ge> 2 ^ 32 then None
         else Some (if neg then (2 ^ 32 - n) mod 2 ^ 32 else n))"

definition read_word :: "string \<Rightarrow> string option" where
  "read_word str =
     (let w = takeWhile (\<lambda>c. \<not> is_space c) (dropWhile is_space str) in if w = [] then None else Some w)"

section \<open>Lists and masks\<close>

fun mapM :: "('a \<Rightarrow> 'b option) \<Rightarrow> 'a list \<Rightarrow> 'b list option" where
  "mapM f [] = Some []"
| "mapM f (x # xs) = do { y \<leftarrow> f x; ys \<leftarrow> mapM f xs; Some (y # ys) }"

definition ParseList :: "(string \<Rightarrow> 'v option) \<Rightarrow> string \<Rightarrow> string \<Rightarrow> 'v list option" where
  "ParseList read listStr delimiters = do {
     nums \<leftarrow> Tokenize listStr delimiters;
     mapM read (filter (\<lambda>n. length n \<noteq> 0) nums)
   }"

definition ParseList_fill :: "string \<Rightarrow> nat \<Rightarrow> nat \<Rightarrow> nat list option" where
  "ParseList_fill listStr maxSize fillValue = do {
     res \<leftarrow> ParseList read_u32 listStr '' '';
     assert_that (length res \<le> maxSize);
     Some (res @ replicate (maxSize - length res) fillValue)
   }"

record Range =
  rg_min :: int
  rg_sup :: int
  rg_step :: int

text \<open>The members are \<open>int32_t\<close>: the numbers read wrap, and so does \<open>min + 1\<close>.\<close>

definition Range_of :: "string \<Rightarrow> Range option" where
  "Range_of r = do {
     t \<leftarrow> Tokenize r '':'';
     n \<leftarrow> mapM read_u32 t;
     rg \<leftarrow> (case n of
        [a] \<Rightarrow> Some \<lparr>rg_min = to_int32 a, rg_sup = to_int32 (a + 1), rg_step = 1\<rparr>
      | [a, b] \<Rightarrow> Some \<lparr>rg_min = to_int32 a, rg_sup = to_int32 b, rg_step = 1\<rparr>
      | [a, b, c] \<Rightarrow> Some \<lparr>rg_min = to_int32 a, rg_sup = to_int32 b, rg_step = to_int32 c\<rparr>
      | _ \<Rightarrow> None);
     assert_that (\<not> (rg_min rg < 0 \<or> rg_step rg < 0 \<or> rg_sup rg < 0));
     assert_that (rg_step rg \<noteq> 0);
     assert_that (\<not> rg_min rg \<ge> rg_sup rg);
     Some rg
   }"

text \<open>
  The loop of \<open>Range::fill\<close>. A step of 0 is excluded by the constructor, an addition beyond the
  range of \<open>int32_t\<close> is undefined in the source; both are \<open>None\<close> here.
\<close>

function Range_fill :: "Range \<Rightarrow> int \<Rightarrow> bool list \<Rightarrow> bool list option" where
  "Range_fill rg i bits =
     (if i < rg_sup rg then
        if i \<ge> int (length bits) \<or> i < 0 then None
        else if rg_step rg \<le> 0 \<or> i + rg_step rg \<ge> 2 ^ 31 then None
        else Range_fill rg (i + rg_step rg) (bits[nat i := True])
      else Some bits)"
  by pat_completeness auto
termination
  by (relation "measure (\<lambda>(rg, i, bits). nat (rg_sup rg - i))") auto

declare Range_fill.simps [simp del]

fun fill_ranges :: "string list \<Rightarrow> bool list \<Rightarrow> bool list option" where
  "fill_ranges [] bits = Some bits"
| "fill_ranges (r # ranges) bits =
     (if length r = 0 then fill_ranges ranges bits
      else do {
        range \<leftarrow> Range_of r;
        bits1 \<leftarrow> Range_fill range (rg_min range) bits;
        fill_ranges ranges bits1
      })"

definition ParseMask :: "string \<Rightarrow> nat \<Rightarrow> bool list option" where
  "ParseMask maskStr maskSize = do {
     ranges \<leftarrow> Tokenize maskStr '' '';
     fill_ranges ranges (replicate maskSize False)
   }"

section \<open>Printing numbers\<close>

text \<open>What \<open>ss << n\<close> writes for an unsigned number.\<close>

definition digit_char :: "nat \<Rightarrow> char" where
  "digit_char d = ''0123456789'' ! d"

fun show_nat :: "nat \<Rightarrow> string" where
  "show_nat n = (if n < 10 then [digit_char n] else show_nat (n div 10) @ [digit_char (n mod 10)])"

declare show_nat.simps [simp del]

section \<open>Tokens: the reference\<close>

text \<open>
  The positions of \<open>Tokenize\<close> walk over the string once: the first token is what precedes the first
  delimiter (possibly nothing), every further one a maximal run without delimiters.
\<close>

lemma skip_run_shorter:
  assumes "dropWhile P s \<noteq> []"
  shows "length (dropWhile (\<lambda>c. \<not> P c) (dropWhile P s)) < length s"
proof -
  obtain c u where t: "dropWhile P s = c # u" using assms by (cases "dropWhile P s") auto
  then have "\<not> P c" using hd_dropWhile [OF assms] by simp
  then show ?thesis
    using length_dropWhile_le [of "\<lambda>c. \<not> P c" u] length_dropWhile_le [of P s] t by simp
qed

function fields :: "string \<Rightarrow> string \<Rightarrow> string list" where
  "fields ds s =
     (let t = dropWhile (\<lambda>c. c \<in> set ds) s in
      if t = [] then [] else takeWhile (\<lambda>c. c \<notin> set ds) t # fields ds (dropWhile (\<lambda>c. c \<notin> set ds) t))"
  by pat_completeness auto
termination
proof (relation "measure (\<lambda>(ds, s). length s)")
  fix ds s and x :: string assume "x = dropWhile (\<lambda>c. c \<in> set ds) s" "x \<noteq> []"
  then show "((ds, dropWhile (\<lambda>c. c \<notin> set ds) x), ds, s) \<in> measure (\<lambda>(ds, s). length s)"
    using skip_run_shorter [of "\<lambda>c. c \<in> set ds" s] by simp
qed simp

declare fields.simps [simp del]

lemma fields_Nil [simp]: "fields ds [] = []"
  by (simp add: fields.simps)

lemma first_of_None [simp]: "find_first_of s ds None = None" "find_first_not_of s ds None = None"
  by (simp_all add: find_first_of_def find_first_not_of_def)

definition tokens_ref :: "string \<Rightarrow> string \<Rightarrow> string list" where
  "tokens_ref str ds = takeWhile (\<lambda>c. c \<notin> set ds) str # fields ds (dropWhile (\<lambda>c. c \<notin> set ds) str)"

lemma find_upt:
  "l \<le> length s \<Longrightarrow> List.find (\<lambda>i. P (s ! i)) [l..<length s] =
     (let n = l + length (takeWhile (\<lambda>c. \<not> P c) (drop l s)) in if n < length s then Some n else None)"
proof (induction "length s - l" arbitrary: l)
  case (Suc k)
  then have l: "l < length s" by simp
  have d: "drop l s = s ! l # drop (Suc l) s" using Cons_nth_drop_Suc [OF l] by simp
  have "[l..<length s] = l # [Suc l..<length s]" using l by (rule upt_conv_Cons)
  then show ?case using Suc(1) [of "Suc l"] Suc(2) l d by (simp add: Let_def)
qed simp

lemma drop_run: "l \<le> length s \<Longrightarrow> drop (l + length (takeWhile P (drop l s))) s = dropWhile P (drop l s)"
  by (simp add: dropWhile_eq_drop add.commute)

lemma run_end: "l \<le> length s \<Longrightarrow> l + length (takeWhile P (drop l s)) < length s \<longleftrightarrow> dropWhile P (drop l s) \<noteq> []"
  using drop_run [of l s P] by (metis drop_eq_Nil not_less)

lemma first_of_pos:
  assumes "l \<le> length s"
  shows "find_first_of s ds (Some l) =
    (if dropWhile (\<lambda>c. c \<notin> set ds) (drop l s) = [] then None
     else Some (l + length (takeWhile (\<lambda>c. c \<notin> set ds) (drop l s))))"
  unfolding find_first_of_def option.case find_upt [OF assms, of "\<lambda>c. c \<in> set ds"] Let_def
  unfolding run_end [OF assms, of "\<lambda>c. c \<notin> set ds"] by (simp only: if_not_P if_P split: if_splits) simp

lemma first_not_of_pos:
  assumes "l \<le> length s"
  shows "find_first_not_of s ds (Some l) =
    (if dropWhile (\<lambda>c. c \<in> set ds) (drop l s) = [] then None
     else Some (l + length (takeWhile (\<lambda>c. c \<in> set ds) (drop l s))))"
  unfolding find_first_not_of_def option.case find_upt [OF assms, of "\<lambda>c. c \<notin> set ds"] Let_def not_not
  unfolding run_end [OF assms, of "\<lambda>c. c \<in> set ds"] by (simp only: if_not_P if_P split: if_splits) simp

lemma Tokenize_loop_ref:
  assumes "l \<le> length s" "length s - l + 2 \<le> fuel"
  shows "Tokenize_loop fuel s ds (Some l) (find_first_of s ds (Some l)) =
    Some (takeWhile (\<lambda>c. c \<notin> set ds) (drop l s) # fields ds (dropWhile (\<lambda>c. c \<notin> set ds) (drop l s)))"
  using assms
proof (induction fuel arbitrary: l)
  case (Suc fuel)
  define tok where "tok = takeWhile (\<lambda>c. c \<notin> set ds) (drop l s)"
  define rest where "rest = dropWhile (\<lambda>c. c \<notin> set ds) (drop l s)"
  have d: "drop l s = tok @ rest" by (simp add: tok_def rest_def)
  have pos: "find_first_of s ds (Some l) = (if rest = [] then None else Some (l + length tok))"
    using first_of_pos [OF Suc.prems(1), of ds] by (simp only: tok_def rest_def)
  obtain f where f: "fuel = Suc f" using Suc.prems by (cases fuel) auto
  have "Tokenize_loop (Suc fuel) s ds (Some l) (find_first_of s ds (Some l)) = Some (tok # fields ds rest)"
  proof (cases "rest = []")
    case True
    have none: "find_first_of s ds (Some l) = None" using pos True by simp
    show ?thesis unfolding none True by (simp add: f d True substr_def)
  next
    case False
    let ?p = "l + length tok"
    have p: "?p < length s" "drop ?p s = rest"
      using run_end [OF Suc.prems(1)] drop_run [OF Suc.prems(1)] False unfolding tok_def rest_def by blast+
    have tok: "substr s (Some l) (Some ?p) = tok" by (simp add: substr_def d)
    define skip where "skip = takeWhile (\<lambda>c. c \<in> set ds) rest"
    define t where "t = dropWhile (\<lambda>c. c \<in> set ds) rest"
    have lp: "find_first_not_of s ds (Some ?p) = (if t = [] then None else Some (?p + length skip))"
      using first_not_of_pos [of ?p s ds] p by (simp only: skip_def t_def less_imp_le)
    have fr: "fields ds rest = (if t = [] then [] else takeWhile (\<lambda>c. c \<notin> set ds) t # fields ds (dropWhile (\<lambda>c. c \<notin> set ds) t))"
      by (subst fields.simps) (simp only: t_def Let_def)
    show ?thesis
    proof (cases "t = []")
      case True
      then show ?thesis using pos False lp tok fr by (simp add: f)
    next
      case t: False
      let ?q = "?p + length skip"
      have q: "?q < length s" "drop ?q s = t"
        using run_end [OF less_imp_le [OF p(1)], of "\<lambda>c. c \<in> set ds"]
          drop_run [OF less_imp_le [OF p(1)], of "\<lambda>c. c \<in> set ds"] t
        unfolding p(2) skip_def t_def by blast+
      have "rest = skip @ t" by (simp add: skip_def t_def)
      moreover have "hd rest \<in> set ds" using hd_dropWhile [of "\<lambda>c. c \<notin> set ds" "drop l s"] False
        unfolding rest_def by blast
      moreover have "hd t \<notin> set ds" using hd_dropWhile [of "\<lambda>c. c \<in> set ds" rest] t unfolding t_def by blast
      ultimately have "skip \<noteq> []" by (metis append_Nil)
      then have "0 < length skip" by simp
      then have fu: "length s - ?q + 2 \<le> fuel" using q(1) Suc.prems(2) by linarith
      have "Tokenize_loop fuel s ds (Some ?q) (find_first_of s ds (Some ?q)) =
          Some (takeWhile (\<lambda>c. c \<notin> set ds) t # fields ds (dropWhile (\<lambda>c. c \<notin> set ds) t))"
        using Suc.IH [OF less_imp_le [OF q(1)] fu] q(2) by (simp only:)
      then show ?thesis using pos False lp tok t fr by (simp add: Let_def)
    qed
  qed
  then show ?case by (simp only: tok_def rest_def)
qed simp

lemma Tokenize_ref: "Tokenize str ds = Some (tokens_ref str ds)"
  using Tokenize_loop_ref [of 0 str "length str + 2" ds] by (simp add: Tokenize_def tokens_ref_def)

text \<open>Joining tokens with a delimiter.\<close>

fun join :: "char \<Rightarrow> string list \<Rightarrow> string" where
  "join d [] = []"
| "join d [t] = t"
| "join d (t # ts) = t @ d # join d ts"

lemma run_append:
  "d \<notin> set t \<Longrightarrow> takeWhile (\<lambda>c. c \<noteq> d) (t @ d # x) = t"
  "d \<notin> set t \<Longrightarrow> dropWhile (\<lambda>c. c \<noteq> d) (t @ d # x) = d # x"
  "d \<notin> set t \<Longrightarrow> t \<noteq> [] \<Longrightarrow> dropWhile (\<lambda>c. c = d) (t @ y) = t @ y"
  by (induction t) auto

lemma fields_join:
  assumes "\<forall>t\<in>set ts. t \<noteq> [] \<and> d \<notin> set t" "ts \<noteq> []"
  shows "fields [d] (d # join d ts) = ts"
  using assms
proof (induction d ts rule: join.induct)
  case (2 d t)
  then have t: "dropWhile (\<lambda>c. c = d) t = t" "takeWhile (\<lambda>c. c \<noteq> d) t = t" and n: "dropWhile (\<lambda>c. c \<noteq> d) t = []"
    by (cases t; auto)+
  have "fields [d] (dropWhile (\<lambda>c. c \<noteq> d) t) = []" unfolding n by simp
  then show ?case using 2 t by (simp add: fields.simps [of "[d]" "d # t"])
next
  case (3 d t u ts)
  have t: "dropWhile (\<lambda>c. c = d) (t @ x) = t @ x" "takeWhile (\<lambda>c. c \<noteq> d) (t @ d # x) = t"
    "dropWhile (\<lambda>c. c \<noteq> d) (t @ d # x) = d # x" for x
    using 3(2) run_append [of d t] by simp_all
  have "fields [d] (d # t @ d # join d (u # ts)) = t # fields [d] (d # join d (u # ts))"
    using 3(2) by (subst fields.simps) (simp add: t)
  then show ?case using 3 by simp
qed simp

lemma Tokenize_join:
  assumes "\<forall>t\<in>set ts. t \<noteq> [] \<and> d \<notin> set t" "ts \<noteq> []"
  shows "Tokenize (join d ts) [d] = Some ts"
proof -
  obtain t us where ts: "ts = t # us" using assms(2) by (cases ts) auto
  have t: "d \<notin> set t" using assms(1) ts by simp
  have "tokens_ref (join d ts) [d] = ts"
  proof (cases us)
    case Nil
    have n: "dropWhile (\<lambda>c. c \<noteq> d) t = []" "takeWhile (\<lambda>c. c \<noteq> d) t = t" using t by auto
    have "fields [d] (dropWhile (\<lambda>c. c \<noteq> d) t) = []" unfolding n(1) by simp
    then show ?thesis using n(2) ts Nil by (simp add: tokens_ref_def)
  next
    case (Cons u vs)
    have "takeWhile (\<lambda>c. c \<noteq> d) (t @ d # x) = t" "dropWhile (\<lambda>c. c \<noteq> d) (t @ d # x) = d # x" for x
      using run_append [OF t] by simp_all
    then show ?thesis using fields_join [of "u # vs" d] assms ts Cons by (simp add: tokens_ref_def)
  qed
  then show ?thesis by (simp add: Tokenize_ref)
qed

section \<open>Numbers: printing and reading\<close>

lemma digit_char_props:
  assumes "d < 10"
  shows "is_digit (digit_char d)" "digit_val (digit_char d) = d" "\<not> is_space (digit_char d)"
    "digit_char d \<noteq> CHR ''-''" "digit_char d \<noteq> CHR ''+''" "digit_char d \<noteq> CHR '':''" "digit_char d \<noteq> CHR '' ''"
proof -
  have "d \<in> {0, 1, 2, 3, 4, 5, 6, 7, 8, 9}" using assms by auto
  then show "is_digit (digit_char d)" "digit_val (digit_char d) = d" "\<not> is_space (digit_char d)"
    "digit_char d \<noteq> CHR ''-''" "digit_char d \<noteq> CHR ''+''" "digit_char d \<noteq> CHR '':''" "digit_char d \<noteq> CHR '' ''"
    by (auto simp: digit_char_def is_digit_def digit_val_def is_space_def)
qed

lemma show_nat_digits: "show_nat n \<noteq> [] \<and> (\<forall>c\<in>set (show_nat n). \<exists>d<10. c = digit_char d)"
proof (induction n rule: show_nat.induct)
  case (1 n)
  have "\<exists>d<10. digit_char (n mod 10) = digit_char d" by (rule exI [of _ "n mod 10"]) simp
  then show ?case using 1 by (subst (1 2) show_nat.simps) auto
qed

lemma digits_val_show: "digits_val (show_nat n) = n"
proof (induction n rule: show_nat.induct)
  case (1 n)
  then show ?case by (subst show_nat.simps) (auto simp: digits_val_def digit_char_props)
qed

lemma show_nat_chars:
  "show_nat n \<noteq> []" "c \<in> set (show_nat n) \<Longrightarrow> is_digit c" "c \<in> set (show_nat n) \<Longrightarrow> \<not> is_space c"
  "CHR '':'' \<notin> set (show_nat n)" "CHR '' '' \<notin> set (show_nat n)"
  "hd (show_nat n) \<noteq> CHR ''-''" "hd (show_nat n) \<noteq> CHR ''+''"
  using show_nat_digits [of n] digit_char_props hd_in_set [of "show_nat n"] by metis+

lemma read_show_nat: "n < 2 ^ 32 \<Longrightarrow> read_u32 (show_nat n) = Some n"
proof -
  assume n: "n < 2 ^ 32"
  have e: "dropWhile is_space (show_nat n) = show_nat n" "takeWhile is_digit (show_nat n) = show_nat n"
    using show_nat_chars [where n = n] by (cases "show_nat n"; auto)+
  have h: "(show_nat n \<noteq> [] \<and> hd (show_nat n) = CHR ''-'') = False"
    "(show_nat n \<noteq> [] \<and> (hd (show_nat n) = CHR ''-'' \<or> hd (show_nat n) = CHR ''+'')) = False"
    using show_nat_chars [where n = n] by simp_all
  show ?thesis unfolding read_u32_def Let_def e(1) h if_False e(2) digits_val_show using n show_nat_chars(1) [of n] by simp
qed

lemma to_int32_small [simp]: "n < 2 ^ 31 \<Longrightarrow> to_int32 n = int n"
  by (simp add: to_int32_def)

section \<open>Masks\<close>

text \<open>The text of a range \<open>min:sup:step\<close>.\<close>

definition range_str :: "nat \<times> nat \<times> nat \<Rightarrow> string" where
  "range_str r = (case r of (a, b, c) \<Rightarrow> join (CHR '':'') [show_nat a, show_nat b, show_nat c])"

definition range_valid :: "nat \<Rightarrow> nat \<times> nat \<times> nat \<Rightarrow> bool" where
  "range_valid n r = (case r of (a, b, c) \<Rightarrow> a < b \<and> b \<le> n \<and> 0 < c \<and> b + c < 2 ^ 31)"

definition in_range :: "nat \<Rightarrow> nat \<times> nat \<times> nat \<Rightarrow> bool" where
  "in_range i r = (case r of (a, b, c) \<Rightarrow> a \<le> i \<and> i < b \<and> (i - a) mod c = 0)"

lemma Range_of_str:
  assumes "a < b" "0 < c" "b + c < 2 ^ 31"
  shows "Range_of (range_str (a, b, c)) = Some \<lparr>rg_min = int a, rg_sup = int b, rg_step = int c\<rparr>"
proof -
  have "Tokenize (range_str (a, b, c)) '':'' = Some [show_nat a, show_nat b, show_nat c]"
    unfolding range_str_def prod.case by (rule Tokenize_join) (auto simp: show_nat_chars)
  then show ?thesis using assms by (simp add: Range_of_def read_show_nat)
qed

lemma Range_fill_spec:
  assumes "0 < c" "b \<le> length bits" "b + c < 2 ^ 31"
  shows "Range_fill \<lparr>rg_min = m, rg_sup = int b, rg_step = int c\<rparr> (int i) bits =
    Some (map (\<lambda>j. bits ! j \<or> in_range j (i, b, c)) [0..<length bits])"
  using assms(2)
proof (induction "b - i" arbitrary: i bits rule: less_induct)
  case less
  show ?case
  proof (cases "i < b")
    case False
    then have "map (\<lambda>j. bits ! j \<or> in_range j (i, b, c)) [0..<length bits] = map ((!) bits) [0..<length bits]"
      by (auto simp: in_range_def)
    then show ?thesis using False by (simp add: Range_fill.simps map_nth)
  next
    case True
    let ?bits = "bits[i := True]"
    have "Range_fill \<lparr>rg_min = m, rg_sup = int b, rg_step = int c\<rparr> (int i) bits =
        Range_fill \<lparr>rg_min = m, rg_sup = int b, rg_step = int c\<rparr> (int (i + c)) ?bits"
      using True assms less.prems by (subst Range_fill.simps) simp
    also have "\<dots> = Some (map (\<lambda>j. ?bits ! j \<or> in_range j (i + c, b, c)) [0..<length ?bits])"
      using less.hyps [of "i + c" ?bits] True less.prems assms(1) by simp
    also have "map (\<lambda>j. ?bits ! j \<or> in_range j (i + c, b, c)) [0..<length ?bits] =
        map (\<lambda>j. bits ! j \<or> in_range j (i, b, c)) [0..<length bits]"
    proof -
      have step: "in_range j (i, b, c) \<longleftrightarrow> j = i \<and> i < b \<or> in_range j (i + c, b, c)" for j
      proof (cases "i + c \<le> j")
        case True
        then have "(j - i) mod c = (j - (i + c)) mod c" using le_mod_geq [of c "j - i"] by simp
        then show ?thesis using True assms(1) by (auto simp: in_range_def)
      next
        case False
        then have "j - i < c" using assms(1) by linarith
        then have "i < j \<Longrightarrow> \<not> c dvd j - i" using nat_dvd_not_less [of "j - i" c] by simp
        then show ?thesis using False by (cases "i < j"; cases "i = j") (simp_all add: in_range_def)
      qed
      have "(?bits ! j \<or> in_range j (i + c, b, c)) = (bits ! j \<or> in_range j (i, b, c))" if "j < length bits" for j
        using step [of j] that True by (cases "j = i") simp_all
      then show ?thesis by simp
    qed
    finally show ?thesis .
  qed
qed

lemma fill_ranges_spec:
  assumes "\<forall>r\<in>set rs. range_valid (length bits) r"
  shows "fill_ranges (map range_str rs) bits =
    Some (map (\<lambda>j. bits ! j \<or> (\<exists>r\<in>set rs. in_range j r)) [0..<length bits])"
  using assms
proof (induction rs arbitrary: bits)
  case (Cons r rs)
  obtain a b c where r: "r = (a, b, c)" by (cases r) auto
  have v: "a < b" "b \<le> length bits" "0 < c" "b + c < 2 ^ 31" using Cons.prems r by (simp_all add: range_valid_def)
  let ?bits = "map (\<lambda>j. bits ! j \<or> in_range j (a, b, c)) [0..<length bits]"
  have "range_str r \<noteq> []" by (simp add: r range_str_def show_nat_chars)
  then have "fill_ranges (map range_str (r # rs)) bits = fill_ranges (map range_str rs) ?bits"
    using Range_of_str [OF v(1,3,4)] Range_fill_spec [OF v(3,2,4)] by (simp add: r)
  then show ?case using Cons.IH [of ?bits] Cons.prems by (auto simp: r)
qed (simp add: map_nth)

section \<open>Properties\<close>

text \<open>
  C24: the position arithmetic of the tokenizer ends on every string and yields what precedes the first
  delimiter followed by the maximal delimiter-free runs of the rest; so it gives back the tokens of
  any list of non-empty delimiter-free tokens that are joined with a delimiter.
\<close>

theorem Tokenize_inverts_join:
  assumes "ts \<noteq> []" "\<forall>t\<in>set ts. t \<noteq> [] \<and> d \<notin> set t"
  shows "Tokenize (join d ts) [d] = Some ts \<and> Tokenize str ds = Some (tokens_ref str ds)"
  using Tokenize_join [OF assms(2,1)] Tokenize_ref by blast

theorem Tokenize_inverts_join_witness:
  "Tokenize (join (CHR ''|'') [''l1i'', ''l1d'']) ''|'' = Some [''l1i'', ''l1d''] \<and>
   Tokenize '' l2  l1d '' '' '' = Some (tokens_ref '' l2  l1d '' '' '')"
  by (rule Tokenize_inverts_join) simp_all



end
