(* ===== verification/Network.thy ===== *)
theory Network
  imports Config
begin

text \<open>
  The network of src/src/network.h and src/src/network.cpp: the delays between pairs of components
  are read from a text file and looked up by the concatenation of the two names. The file is its
  text; the input stream is the text that is left with the flags \<open>eof\<close> and \<open>fail\<close>, and an extraction
  sets \<open>eof\<close> as soon as it looks past the last character, as the standard library does.
\<close>

section \<open>Input streams\<close>

record istream =
  is_rest :: string
  is_eof :: bool
  is_fail :: bool

definition is_good :: "istream \<Rightarrow> bool" where
  "is_good st \<longleftrightarrow> \<not> is_eof st \<and> \<not> is_fail st"

definition extract_word :: "istream \<Rightarrow> string \<times> istream" where
  "extract_word st =
     (if \<not> is_good st then ([], st\<lparr>is_fail := True\<rparr>)
      else
        (let r = dropWhile is_space (is_rest st); w = takeWhile (\<lambda>c. \<not> is_space c) r;
             rest = dropWhile (\<lambda>c. \<not> is_space c) r
         in (w, \<lparr>is_rest = rest, is_eof = (rest = []), is_fail = (w = [])\<rparr>)))"

definition extract_u32 :: "istream \<Rightarrow> nat \<times> istream" where
  "extract_u32 st =
     (if \<not> is_good st then (0, st\<lparr>is_fail := True\<rparr>)
      else
        (let r = dropWhile is_space (is_rest st);
             neg = (r \<noteq> [] \<and> hd r = CHR ''-'');
             r1 = (if r \<noteq> [] \<and> (hd r = CHR ''-'' \<or> hd r = CHR ''+'') then tl r else r);
             ds = takeWhile is_digit r1; rest = dropWhile is_digit r1; n = digits_val ds;
             v = (if ds = [] then 0 else if n \<ge> 2 ^ 32 then 2 ^ 32 - 1
                  else if neg then (2 ^ 32 - n) mod 2 ^ 32 else n)
         in (v, \<lparr>is_rest = rest, is_eof = (rest = []), is_fail = (ds = [] \<or> n \<ge> 2 ^ 32)\<rparr>)))"

section \<open>The network\<close>

record Network =
  delayMap :: "string \<rightharpoonup> nat"

definition net_key :: "string \<Rightarrow> string \<Rightarrow> string" where
  "net_key src dst = src @ '' '' @ dst"

text \<open>One round of the loop: \<open>Inl\<close> for the \<open>break\<close>.\<close>

definition net_round :: "istream \<Rightarrow> Network \<Rightarrow> (Network + istream \<times> Network) option" where
  "net_round f n =
     (let (src, f1) = extract_word f; (dst, f2) = extract_word f1; (delay, f3) = extract_u32 f2
      in if is_eof f3 then Some (Inl n)
         else do {
           let s1 = net_key src dst;
           let s2 = net_key dst src;
           assert_that (delayMap n s1 = None);
           assert_that (delayMap n s2 = None);
           Some (Inr (f3, n\<lparr>delayMap := (delayMap n)(s1 \<mapsto> delay, s2 \<mapsto> delay)\<rparr>))
         })"

fun net_read :: "nat \<Rightarrow> istream \<Rightarrow> Network \<Rightarrow> Network option" where
  "net_read 0 f n = None"
| "net_read (Suc fuel) f n =
     (if is_good f then do {
        r \<leftarrow> net_round f n;
        (case r of Inl n' \<Rightarrow> Some n' | Inr (f', n') \<Rightarrow> net_read fuel f' n')
      } else Some n)"

text \<open>A file that cannot be opened is \<open>None\<close>. Every round but the last reads at least a character.\<close>

definition net_new :: "string option \<Rightarrow> Network option" where
  "net_new file = do {
     txt \<leftarrow> file;
     net_read (length txt + 2) \<lparr>is_rest = txt, is_eof = False, is_fail = False\<rparr> \<lparr>delayMap = Map.empty\<rparr>
   }"

definition getRTT :: "Network \<Rightarrow> string \<Rightarrow> string \<Rightarrow> nat" where
  "getRTT n src dst = (case delayMap n (net_key src dst) of Some d \<Rightarrow> trunc32 (2 * d) | None \<Rightarrow> 0)"

section \<open>The file format\<close>

text \<open>The text of an entry, without the end of the line.\<close>

definition net_line :: "string \<times> string \<times> nat \<Rightarrow> string" where
  "net_line e = (case e of (src, dst, delay) \<Rightarrow> src @ '' '' @ dst @ '' '' @ show_nat delay)"

definition name_ok :: "string \<Rightarrow> bool" where
  "name_ok s \<longleftrightarrow> s \<noteq> [] \<and> (\<forall>c\<in>set s. \<not> is_space c)"

definition entry_valid :: "string \<times> string \<times> nat \<Rightarrow> bool" where
  "entry_valid e = (case e of (src, dst, delay) \<Rightarrow> name_ok src \<and> name_ok dst \<and> delay < 2 ^ 32)"

definition pair_of :: "string \<times> string \<times> nat \<Rightarrow> string set" where
  "pair_of e = (case e of (src, dst, delay) \<Rightarrow> {src, dst})"

lemma space_chars [simp]: "is_space (CHR '' '')" "is_space (CHR 0x0A)" "\<not> is_digit (CHR 0x0A)"
  by (simp_all add: is_space_def is_digit_def)

lemma name_run:
  assumes "name_ok w" "is_space c"
  shows "dropWhile is_space (w @ x) = w @ x" "takeWhile (\<lambda>c. \<not> is_space c) (w @ c # x) = w"
    "dropWhile (\<lambda>c. \<not> is_space c) (w @ c # x) = c # x"
proof -
  obtain a v where "w = a # v" using assms(1) by (cases w) (auto simp: name_ok_def)
  then show "dropWhile is_space (w @ x) = w @ x" using assms by (simp add: name_ok_def)
  show "takeWhile (\<lambda>c. \<not> is_space c) (w @ c # x) = w" "dropWhile (\<lambda>c. \<not> is_space c) (w @ c # x) = c # x"
    using assms by (induction w) (auto simp: name_ok_def takeWhile_append dropWhile_append)
qed

lemma extract_word_name:
  assumes "name_ok w" "is_space c" "\<forall>b\<in>set pre. is_space b"
  shows "extract_word \<lparr>is_rest = pre @ w @ c # x, is_eof = False, is_fail = False\<rparr> =
    (w, \<lparr>is_rest = c # x, is_eof = False, is_fail = False\<rparr>)"
proof -
  have e: "dropWhile is_space (pre @ w @ c # x) = w @ c # x"
    using assms(3) name_run(1) [OF assms(1,2)] by (induction pre) auto
  show ?thesis unfolding extract_word_def is_good_def Let_def istream.select_convs e name_run(2,3) [OF assms(1,2)]
    using assms(1) by (simp add: name_ok_def)
qed

lemma digit_run:
  assumes "\<forall>c\<in>set ds. is_digit c"
  shows "takeWhile is_digit (ds @ CHR 0x0A # x) = ds" "dropWhile is_digit (ds @ CHR 0x0A # x) = CHR 0x0A # x"
    "takeWhile is_digit ds = ds" "dropWhile is_digit ds = []"
  using assms by (induction ds) auto

lemma extract_u32_number:
  assumes "n < 2 ^ 32" "x = [] \<or> (\<exists>y. x = CHR 0x0A # y)"
  shows "extract_u32 \<lparr>is_rest = CHR '' '' # show_nat n @ x, is_eof = False, is_fail = False\<rparr> =
    (n, \<lparr>is_rest = x, is_eof = (x = []), is_fail = False\<rparr>)"
proof -
  obtain d ds where d: "show_nat n = d # ds" using show_nat_chars(1) [of n] by (cases "show_nat n") auto
  have h: "\<not> is_space d" "d \<noteq> CHR ''-''" "d \<noteq> CHR ''+''"
    using show_nat_chars(3) [of d n] show_nat_chars(6,7) [of n] d by auto
  have "\<forall>c\<in>set (show_nat n). is_digit c" using show_nat_chars(2) by blast
  note r = digit_run [OF this]
  have t: "takeWhile is_digit (show_nat n @ x) = show_nat n" "dropWhile is_digit (show_nat n @ x) = x"
    using assms(2) r by auto
  have D: "dropWhile is_space (CHR '' '' # show_nat n @ x) = show_nat n @ x" using h by (simp add: d)
  have N: "(show_nat n @ x \<noteq> [] \<and> hd (show_nat n @ x) = CHR ''-'') = False"
    "(show_nat n @ x \<noteq> [] \<and> (hd (show_nat n @ x) = CHR ''-'' \<or> hd (show_nat n @ x) = CHR ''+'')) = False"
    using h by (simp_all add: d)
  show ?thesis unfolding extract_u32_def Let_def is_good_def istream.select_convs D N if_False t digits_val_show
    using assms(1) show_nat_chars(1) [of n] by simp
qed

section \<open>Reading a file\<close>

lemma net_key_inject:
  assumes "name_ok a" "name_ok c" "net_key a b = net_key c d"
  shows "a = c \<and> b = d"
proof -
  have r: "takeWhile (\<lambda>x. \<not> is_space x) (net_key a b) = a" if "name_ok a" for a b
    using name_run(2) [OF that, of "CHR '' ''" b] by (simp add: net_key_def)
  then have "a = c" using assms by metis
  then show ?thesis using assms(3) by (simp add: net_key_def)
qed

definition lookup_delay :: "(string \<times> string \<times> nat) list \<Rightarrow> string \<Rightarrow> string \<Rightarrow> nat option" where
  "lookup_delay es a b = map_option (\<lambda>(x, y, d). d) (List.find (\<lambda>e. pair_of e = {a, b}) es)"

definition net_holds :: "(string \<times> string \<times> nat) list \<Rightarrow> Network \<Rightarrow> bool" where
  "net_holds es n \<longleftrightarrow> (\<forall>a b. name_ok a \<longrightarrow> name_ok b \<longrightarrow> delayMap n (net_key a b) = lookup_delay es a b)"

lemma find_append:
  "List.find P (xs @ ys) = (case List.find P xs of None \<Rightarrow> List.find P ys | Some x \<Rightarrow> Some x)"
  by (induction xs) auto

lemma net_holds_add:
  assumes "net_holds es n" "entry_valid (src, dst, delay)" "{src, dst} \<notin> set (map pair_of es)"
  shows "delayMap n (net_key src dst) = None" "delayMap n (net_key dst src) = None"
    "net_holds (es @ [(src, dst, delay)])
      (n\<lparr>delayMap := (delayMap n)(net_key src dst \<mapsto> delay, net_key dst src \<mapsto> delay)\<rparr>)"
proof -
  have v: "name_ok src" "name_ok dst" using assms(2) by (auto simp: entry_valid_def)
  have f: "List.find (\<lambda>e. pair_of e = {src, dst}) es = None"
    using assms(3) by (auto simp: find_None_iff)
  have "lookup_delay es src dst = None" "lookup_delay es dst src = None"
    using f insert_commute [of src dst "{}"] by (simp_all add: lookup_delay_def)
  then show "delayMap n (net_key src dst) = None" "delayMap n (net_key dst src) = None"
    using assms(1) v by (simp_all add: net_holds_def)
  show "net_holds (es @ [(src, dst, delay)])
      (n\<lparr>delayMap := (delayMap n)(net_key src dst \<mapsto> delay, net_key dst src \<mapsto> delay)\<rparr>)"
    unfolding net_holds_def
  proof (intro allI impI)
    fix a b assume ab: "name_ok a" "name_ok b"
    have k: "net_key a b = net_key src dst \<longleftrightarrow> a = src \<and> b = dst" "net_key a b = net_key dst src \<longleftrightarrow> a = dst \<and> b = src"
      using net_key_inject ab v by blast+
    have p: "{src, dst} = {a, b} \<longleftrightarrow> a = src \<and> b = dst \<or> a = dst \<and> b = src" by (auto simp: doubleton_eq_iff)
    show "delayMap (n\<lparr>delayMap := (delayMap n)(net_key src dst \<mapsto> delay, net_key dst src \<mapsto> delay)\<rparr>) (net_key a b) =
        lookup_delay (es @ [(src, dst, delay)]) a b"
    proof (cases "{src, dst} = {a, b}")
      case True
      then have "List.find (\<lambda>e. pair_of e = {a, b}) es = None" using f by (simp only:)
      then have "lookup_delay (es @ [(src, dst, delay)]) a b = Some delay"
        using True by (simp add: lookup_delay_def find_append pair_of_def)
      moreover have "net_key a b = net_key src dst \<or> net_key a b = net_key dst src" using True p k by blast
      ultimately show ?thesis by auto
    next
      case False
      then have "lookup_delay (es @ [(src, dst, delay)]) a b = lookup_delay es a b"
        by (simp add: lookup_delay_def find_append pair_of_def split: option.splits)
      moreover have "net_key a b \<noteq> net_key src dst" "net_key a b \<noteq> net_key dst src" using False p k by blast+
      ultimately show ?thesis using assms(1) ab by (simp add: net_holds_def)
    qed
  qed
qed

lemma net_round_line:
  assumes "entry_valid (src, dst, delay)" "\<forall>b\<in>set pre. is_space b" "x = [] \<or> (\<exists>y. x = CHR 0x0A # y)"
  shows "net_round \<lparr>is_rest = pre @ net_line (src, dst, delay) @ x, is_eof = False, is_fail = False\<rparr> n =
    (if x = [] then Some (Inl n)
     else do {
       assert_that (delayMap n (net_key src dst) = None);
       assert_that (delayMap n (net_key dst src) = None);
       Some (Inr (\<lparr>is_rest = x, is_eof = False, is_fail = False\<rparr>,
         n\<lparr>delayMap := (delayMap n)(net_key src dst \<mapsto> delay, net_key dst src \<mapsto> delay)\<rparr>))
     })"
proof -
  have v: "name_ok src" "name_ok dst" "delay < 2 ^ 32" using assms(1) by (auto simp: entry_valid_def)
  have "extract_word \<lparr>is_rest = pre @ net_line (src, dst, delay) @ x, is_eof = False, is_fail = False\<rparr> =
      (src, \<lparr>is_rest = '' '' @ dst @ '' '' @ show_nat delay @ x, is_eof = False, is_fail = False\<rparr>)"
    using extract_word_name [OF v(1) space_chars(1) assms(2), of "dst @ '' '' @ show_nat delay @ x"] by (simp add: net_line_def)
  moreover have "extract_word \<lparr>is_rest = '' '' @ dst @ '' '' @ show_nat delay @ x, is_eof = False, is_fail = False\<rparr> =
      (dst, \<lparr>is_rest = '' '' @ show_nat delay @ x, is_eof = False, is_fail = False\<rparr>)"
    using extract_word_name [OF v(2) space_chars(1), of "'' ''" "show_nat delay @ x"] by simp
  moreover have "extract_u32 \<lparr>is_rest = '' '' @ show_nat delay @ x, is_eof = False, is_fail = False\<rparr> =
      (delay, \<lparr>is_rest = x, is_eof = (x = []), is_fail = False\<rparr>)"
    using extract_u32_number [OF v(3) assms(3)] by simp
  ultimately show ?thesis by (simp add: net_round_def Let_def)
qed

lemma net_round_end:
  assumes "\<forall>b\<in>set pre. is_space b"
  shows "net_round \<lparr>is_rest = pre, is_eof = False, is_fail = False\<rparr> n = Some (Inl n)"
proof -
  have e: "dropWhile is_space pre = []" using assms by simp
  have "extract_word \<lparr>is_rest = pre, is_eof = False, is_fail = False\<rparr> = ([], \<lparr>is_rest = [], is_eof = True, is_fail = True\<rparr>)"
    unfolding extract_word_def is_good_def istream.select_convs e by simp
  then show ?thesis by (simp add: net_round_def extract_word_def extract_u32_def is_good_def)
qed

text \<open>
  A file with a line for every entry of \<open>es\<close>. \<open>tail\<close> is what follows the last end of line: nothing
  or one more line, which is lost.
\<close>

lemma net_read_lines:
  assumes "\<forall>e\<in>set es. entry_valid e" "tail = [] \<or> (\<exists>e. entry_valid e \<and> tail = net_line e)"
    and "\<forall>b\<in>set pre. is_space b" "length es < fuel" "net_holds done n" "distinct (map pair_of (done @ es))"
  shows "\<exists>n'. net_read fuel \<lparr>is_rest = pre @ concat (map (\<lambda>e. net_line e @ [CHR 0x0A]) es) @ tail, is_eof = False, is_fail = False\<rparr> n =
    Some n' \<and> net_holds (done @ es) n'"
  using assms(1,3-6)
proof (induction es arbitrary: fuel pre n "done")
  case Nil
  obtain f where f: "fuel = Suc f" using Nil.prems by (cases fuel) auto
  have "net_round \<lparr>is_rest = pre @ tail, is_eof = False, is_fail = False\<rparr> n = Some (Inl n)"
    using assms(2) net_round_end [OF Nil.prems(2)] net_round_line [OF _ Nil.prems(2), of _ _ _ "[]"] by force
  then show ?case using Nil.prems by (simp add: f is_good_def)
next
  case (Cons e es)
  obtain src dst delay where e: "e = (src, dst, delay)" by (cases e) auto
  obtain f where f: "fuel = Suc f" using Cons.prems by (cases fuel) auto
  have v: "entry_valid (src, dst, delay)" "{src, dst} \<notin> set (map pair_of done)" using Cons.prems e by (auto simp: pair_of_def)
  note h = net_holds_add [OF Cons.prems(4) v]
  let ?x = "[CHR 0x0A] @ concat (map (\<lambda>e. net_line e @ [CHR 0x0A]) es) @ tail"
  let ?n = "n\<lparr>delayMap := (delayMap n)(net_key src dst \<mapsto> delay, net_key dst src \<mapsto> delay)\<rparr>"
  have "net_round \<lparr>is_rest = pre @ net_line (src, dst, delay) @ ?x, is_eof = False, is_fail = False\<rparr> n =
      Some (Inr (\<lparr>is_rest = ?x, is_eof = False, is_fail = False\<rparr>, ?n))"
    using net_round_line [OF v(1) Cons.prems(2), of ?x n] h(1,2) by simp
  then have "net_read fuel \<lparr>is_rest = pre @ concat (map (\<lambda>e. net_line e @ [CHR 0x0A]) (e # es)) @ tail, is_eof = False, is_fail = False\<rparr> n =
      net_read f \<lparr>is_rest = ?x, is_eof = False, is_fail = False\<rparr> ?n"
    by (simp add: f e is_good_def)
  then show ?case using Cons.IH [of "[CHR 0x0A]" f "done @ [e]" ?n] Cons.prems f h(3) e by simp
qed

text \<open>
  C26: a network file with one line per pair of components is read completely when its last line
  ends with a newline, and without its last line otherwise; \<open>getRTT\<close> then answers twice the delay of
  the pair in either direction, and 0 for a pair that has no line.
\<close>

theorem network_round_trip:
  assumes "\<forall>e\<in>set es. entry_valid e" "distinct (map pair_of es)"
    and "tail = [] \<or> (\<exists>e. entry_valid e \<and> tail = net_line e)"
  shows "\<exists>n. net_new (Some (concat (map (\<lambda>e. net_line e @ [CHR 0x0A]) es) @ tail)) = Some n \<and>
    (\<forall>a b. name_ok a \<longrightarrow> name_ok b \<longrightarrow>
       getRTT n a b = (case lookup_delay es a b of Some d \<Rightarrow> trunc32 (2 * d) | None \<Rightarrow> 0) \<and> getRTT n a b = getRTT n b a)"
proof -
  let ?txt = "concat (map (\<lambda>e. net_line e @ [CHR 0x0A]) es) @ tail"
  have "length es \<le> length (concat (map (\<lambda>e. net_line e @ [CHR 0x0A]) es))" by (induction es) auto
  then have L: "length es < length ?txt + 2" by simp
  have h: "net_holds [] \<lparr>delayMap = Map.empty\<rparr>" by (simp add: net_holds_def lookup_delay_def)
  obtain n where n: "net_new (Some ?txt) = Some n" "net_holds es n"
    using net_read_lines [OF assms(1,3) _ L h, of "[]"] assms(2) by (auto simp: net_new_def simp del: net_read.simps)
  have "lookup_delay es a b = lookup_delay es b a" for a b
    using insert_commute [of a b "{}"] by (simp add: lookup_delay_def)
  then have "getRTT n a b = (case lookup_delay es a b of Some d \<Rightarrow> trunc32 (2 * d) | None \<Rightarrow> 0) \<and> getRTT n a b = getRTT n b a"
    if "name_ok a" "name_ok b" for a b using n(2) that by (simp add: net_holds_def getRTT_def)
  then show ?thesis using n(1) by blast
qed

theorem network_round_trip_witness:
  "\<exists>n. net_new (Some (concat (map (\<lambda>e. net_line e @ [CHR 0x0A]) [(''l2-0'', ''l3-0'', 7)]) @ net_line (''l3-0'', ''mem-0'', 20))) =
     Some n \<and>
    (\<forall>a b. name_ok a \<longrightarrow> name_ok b \<longrightarrow>
       getRTT n a b = (case lookup_delay [(''l2-0'', ''l3-0'', 7)] a b of Some d \<Rightarrow> trunc32 (2 * d) | None \<Rightarrow> 0) \<and>
       getRTT n a b = getRTT n b a)"
proof (rule network_round_trip)
  have "entry_valid (''l3-0'', ''mem-0'', 20)" by (simp add: entry_valid_def name_ok_def is_space_def)
  then show "net_line (''l3-0'', ''mem-0'', 20) = [] \<or> (\<exists>e. entry_valid e \<and> net_line (''l3-0'', ''mem-0'', 20) = net_line e)"
    by blast
qed (simp_all add: entry_valid_def name_ok_def is_space_def)

end
