(* ===== verification/Bithacks.thy ===== *)
theory Bithacks
  imports Prelude
begin

text \<open>
  Bit-level helpers of src/src/bithacks.h: \<open>isPow2\<close>, the two specialisations of \<open>ilog2\<close> and the
  variadic \<open>maxN\<close>/\<open>minN\<close>. \<open>clz\<close> is the compiler builtin \<open>__builtin_clz\<close> (number of leading zero
  bits), defined by its documented meaning for non-zero arguments.
\<close>

section \<open>Definitions\<close>

definition isPow2 :: "'a::len word \<Rightarrow> bool" where
  "isPow2 val \<longleftrightarrow> val \<noteq> 0 \<and> \<not> (val AND (val - 1) \<noteq> 0)"

fun clz_from :: "nat \<Rightarrow> 'a::len word \<Rightarrow> nat" where
  "clz_from 0 val = 0"
| "clz_from (Suc n) val = (if bit val n then 0 else Suc (clz_from n val))"

definition builtin_clz :: "u32 \<Rightarrow> nat" where
  "builtin_clz val = clz_from 32 val"

definition builtin_clzl :: "u64 \<Rightarrow> nat" where
  "builtin_clzl val = clz_from 64 val"

definition ilog2_u32 :: "u32 \<Rightarrow> nat" where
  "ilog2_u32 val = (if val \<noteq> 0 then 31 - builtin_clz val else 0)"

definition ilog2_u64 :: "u64 \<Rightarrow> nat" where
  "ilog2_u64 val = (if val \<noteq> 0 then 63 - builtin_clzl val else 0)"

fun maxN :: "'a::linorder \<Rightarrow> 'a list \<Rightarrow> 'a" where
  "maxN a [] = a"
| "maxN a (b # c) = maxN (if a > b then a else b) c"

fun minN :: "'a::linorder \<Rightarrow> 'a list \<Rightarrow> 'a" where
  "minN a [] = a"
| "minN a (b # c) = minN (if a < b then a else b) c"

section \<open>Powers of two and masks\<close>

lemma pow2_clear_lowest:
  fixes m :: nat
  assumes "m \<noteq> 0" and "m AND (m - 1) = 0"
  shows "\<exists>k. m = 2 ^ k"
  using assms
proof (induction m rule: less_induct)
  case (less m)
  show ?case
  proof (cases "odd m")
    case True
    then obtain q where q: "m = 2 * q + 1" by (elim oddE)
    have "m - 1 = 2 * q" using q by simp
    moreover have "(2 * q + 1) AND (2 * q) = 2 * q"
      by (subst and_nat_rec) simp
    ultimately have "2 * q = 0"
      using less.prems(2) q by simp
    then have "m = 2 ^ 0" using q by simp
    then show ?thesis by blast
  next
    case False
    then have "even m" by simp
    then obtain q where q: "m = 2 * q" by (elim evenE)
    have qpos: "0 < q" using less.prems(1) q by simp
    have "m - 1 = 2 * (q - 1) + 1" using q qpos by simp
    moreover have "(2 * q) AND (2 * (q - 1) + 1) = 2 * (q AND (q - 1))"
      by (subst and_nat_rec) simp
    ultimately have "m AND (m - 1) = 2 * (q AND (q - 1))"
      using q by simp
    then have "q AND (q - 1) = 0" using less.prems(2) by simp
    moreover have "q < m" "q \<noteq> 0" using q qpos by simp_all
    ultimately obtain k where "q = 2 ^ k" using less.IH by blast
    then have "m = 2 ^ Suc k" using q by simp
    then show ?thesis by blast
  qed
qed

lemma and_minus1_pow2: "(2::nat) ^ k AND (2 ^ k - 1) = 0"
proof -
  have "(2::nat) ^ k - 1 = mask k" by (simp add: mask_eq_exp_minus_1)
  then show ?thesis by (simp add: flip: take_bit_eq_mask)
qed

lemma unat_and: "unat (x AND y) = unat x AND unat y"
  by (simp add: unsigned_and_eq)

lemma isPow2_unat_iff:
  fixes val :: "'a::len word"
  shows "isPow2 val \<longleftrightarrow> (\<exists>k. unat val = 2 ^ k)"
proof (cases "val = 0")
  case True
  then show ?thesis by (simp add: isPow2_def)
next
  case False
  then have u: "unat (val - 1) = unat val - 1" by (simp add: unat_minus_one)
  have nz: "unat val \<noteq> 0" using False by (simp add: unat_eq_zero)
  have "isPow2 val \<longleftrightarrow> unat (val AND (val - 1)) = 0"
    using False by (simp add: isPow2_def unat_eq_zero)
  also have "\<dots> \<longleftrightarrow> unat val AND (unat val - 1) = 0"
    by (simp add: unat_and u)
  also have "\<dots> \<longleftrightarrow> (\<exists>k. unat val = 2 ^ k)"
    using pow2_clear_lowest [OF nz] and_minus1_pow2 by auto
  finally show ?thesis .
qed

text \<open>The set index \<open>hash & setMask\<close> of the cache arrays is the hash modulo the number of sets.\<close>

lemma and_pow2_mask:
  fixes x n :: "'a::len word"
  assumes "isPow2 n"
  shows "unat (x AND (n - 1)) = unat x mod unat n"
proof -
  obtain k where k: "unat n = 2 ^ k" using assms isPow2_unat_iff by blast
  have "unat (n - 1) = 2 ^ k - 1"
    using assms k by (simp add: isPow2_def unat_minus_one)
  then have "unat (n - 1) = mask k" by (simp add: mask_eq_exp_minus_1)
  then have "unat (x AND (n - 1)) = take_bit k (unat x)"
    by (simp add: unat_and take_bit_eq_mask)
  then show ?thesis by (simp add: take_bit_eq_mod k)
qed

section \<open>Integer logarithm\<close>

lemma clz_from_le: "clz_from n val \<le> n"
  by (induction n) auto

lemma clz_from_zeros:
  assumes "n - clz_from n val \<le> i" and "i < n"
  shows "\<not> bit val i"
  using assms
proof (induction n)
  case 0
  then show ?case by simp
next
  case (Suc n)
  show ?case
  proof (cases "bit val n")
    case True
    with Suc.prems show ?thesis by simp
  next
    case False
    with Suc show ?thesis by (cases "i = n") auto
  qed
qed

lemma clz_from_one:
  "clz_from n val < n \<Longrightarrow> bit val (n - Suc (clz_from n val))"
  by (induction n) (auto split: if_splits)

lemma clz_from_full:
  fixes val :: "'a::len word"
  assumes "val \<noteq> 0"
  shows "clz_from LENGTH('a) val < LENGTH('a)"
proof (rule ccontr)
  assume "\<not> ?thesis"
  then have "\<not> bit val i" if "i < LENGTH('a)" for i
    using clz_from_zeros [of "LENGTH('a)" val i] that by simp
  then have "val = 0" by (intro bit_word_eqI) auto
  with assms show False by simp
qed

lemma top_bit_bounds:
  fixes val :: "'a::len word"
  assumes one: "bit val k" and zeros: "\<And>i. k < i \<Longrightarrow> i < LENGTH('a) \<Longrightarrow> \<not> bit val i"
  shows "2 ^ k \<le> unat val \<and> unat val < 2 ^ Suc k"
proof
  have bk: "bit (unat val) k" using one by (simp add: bit_unsigned_iff)
  show "2 ^ k \<le> unat val"
  proof (rule ccontr)
    assume "\<not> ?thesis"
    then have "take_bit k (unat val) = unat val" by (simp add: take_bit_nat_eq_self)
    then have "\<not> bit (unat val) k" by (metis bit_take_bit_iff less_irrefl)
    with bk show False by simp
  qed
  have "bit (take_bit (Suc k) (unat val)) i = bit (unat val) i" for i
  proof (cases "i < Suc k")
    case False
    have "\<not> bit (unat val) i"
      using zeros [of i] False by (cases "i < LENGTH('a)") (auto simp: bit_unsigned_iff dest: bit_imp_le_length)
    with False show ?thesis by (simp add: bit_take_bit_iff)
  qed (simp add: bit_take_bit_iff)
  then have "take_bit (Suc k) (unat val) = unat val" by (intro bit_eqI) simp
  then show "unat val < 2 ^ Suc k" by (metis take_bit_nat_less_exp)
qed

lemma ilog2_u32_bounds:
  assumes "val \<noteq> 0"
  shows "2 ^ ilog2_u32 val \<le> unat val \<and> unat val < 2 ^ Suc (ilog2_u32 val)"
proof -
  have lt: "clz_from 32 val < 32" using clz_from_full [OF assms] by simp
  have k: "ilog2_u32 val = 32 - Suc (clz_from 32 val)"
    using assms by (simp add: ilog2_u32_def builtin_clz_def)
  show ?thesis unfolding k
    by (rule top_bit_bounds) (use lt clz_from_one [OF lt] clz_from_zeros [of 32 val] in auto)
qed

lemma ilog2_u64_bounds:
  assumes "val \<noteq> 0"
  shows "2 ^ ilog2_u64 val \<le> unat val \<and> unat val < 2 ^ Suc (ilog2_u64 val)"
proof -
  have lt: "clz_from 64 val < 64" using clz_from_full [OF assms] by simp
  have k: "ilog2_u64 val = 64 - Suc (clz_from 64 val)"
    using assms by (simp add: ilog2_u64_def builtin_clzl_def)
  show ?thesis unfolding k
    by (rule top_bit_bounds) (use lt clz_from_one [OF lt] clz_from_zeros [of 64 val] in auto)
qed

section \<open>Variadic maximum and minimum\<close>

lemma maxN_Max: "maxN a c = Max (set (a # c))"
proof (induction c arbitrary: a)
  case Nil
  then show ?case by simp
next
  case (Cons b c)
  have "Max (set (max a b # c)) = Max (set (a # b # c))"
    by (cases "c = []") (auto simp: max.assoc)
  moreover have "(if a > b then a else b) = max a b" by (auto simp: max_def)
  ultimately show ?case using Cons.IH [of "max a b"] by (simp only: maxN.simps)
qed

lemma minN_Min: "minN a c = Min (set (a # c))"
proof (induction c arbitrary: a)
  case Nil
  then show ?case by simp
next
  case (Cons b c)
  have "Min (set (min a b # c)) = Min (set (a # b # c))"
    by (cases "c = []") (auto simp: min.assoc)
  moreover have "(if a < b then a else b) = min a b" by (auto simp: min_def)
  ultimately show ?case using Cons.IH [of "min a b"] by (simp only: minN.simps)
qed

end
