(* ===== verification/MTRand.thy ===== *)
theory MTRand
  imports Bithacks
begin

text \<open>
  The Mersenne twister of src/src/mtrand.h: seeding from one integer, \<open>reload\<close> and the two
  \<open>randInt\<close> functions. The state array \<open>uint64_t state[N]\<close> is a map from indices to words;
  \<open>pNext\<close> is the index of the next word, \<open>left\<close> the number of words left.

  The state words are 64 bits wide although the generator works on 32-bit values (the comment in
  the header explains why); \<open>fits32\<close> states that no bit above the 32nd is ever set, and the lemmas
  show that every operation keeps that property.
\<close>

section \<open>Definitions\<close>

definition MT_N :: nat where "MT_N = 624"
definition MT_M :: nat where "MT_M = 397"

record mtrand =
  mt_state :: "nat \<Rightarrow> u64"
  mt_pNext :: nat
  mt_left :: nat

definition hiBit :: "u64 \<Rightarrow> u64" where "hiBit u = u AND 0x80000000"
definition loBit :: "u64 \<Rightarrow> u64" where "loBit u = u AND 0x00000001"
definition loBits :: "u64 \<Rightarrow> u64" where "loBits u = u AND 0x7fffffff"
definition mixBits :: "u64 \<Rightarrow> u64 \<Rightarrow> u64" where "mixBits u v = hiBit u OR loBits v"
definition magic :: "u64 \<Rightarrow> u64" where "magic u = (if loBit u \<noteq> 0 then 0x9908b0df else 0)"
definition twist :: "u64 \<Rightarrow> u64 \<Rightarrow> u64 \<Rightarrow> u64" where
  "twist m s0 s1 = m XOR drop_bit 1 (mixBits s0 s1) XOR magic s1"

definition mt_initialize_step :: "nat \<Rightarrow> (nat \<Rightarrow> u64) \<Rightarrow> (nat \<Rightarrow> u64)" where
  "mt_initialize_step i st =
     (let r = st (i - 1) in
      st(i := (1812433253 * (r XOR drop_bit 30 r) + of_nat i) AND 0xffffffff))"

definition mt_initialize :: "u64 \<Rightarrow> (nat \<Rightarrow> u64) \<Rightarrow> (nat \<Rightarrow> u64)" where
  "mt_initialize seed st =
     fold mt_initialize_step [1..<MT_N] (st(0 := seed AND 0xffffffff))"

definition reload_low :: "nat \<Rightarrow> (nat \<Rightarrow> u64) \<Rightarrow> (nat \<Rightarrow> u64)" where
  "reload_low p st = st(p := twist (st (p + MT_M)) (st p) (st (p + 1)))"

definition reload_high :: "nat \<Rightarrow> (nat \<Rightarrow> u64) \<Rightarrow> (nat \<Rightarrow> u64)" where
  "reload_high p st = st(p := twist (st (p + MT_M - MT_N)) (st p) (st (p + 1)))"

definition mt_reload :: "mtrand \<Rightarrow> mtrand" where
  "mt_reload g =
     (let st1 = fold reload_low [0..<MT_N - MT_M] (mt_state g);
          st2 = fold reload_high [MT_N - MT_M..<MT_N - 1] st1;
          p = MT_N - 1;
          st3 = st2(p := twist (st2 (p + MT_M - MT_N)) (st2 p) (st2 0))
      in g\<lparr>mt_state := st3, mt_left := MT_N, mt_pNext := 0\<rparr>)"

definition mt_seed :: "u64 \<Rightarrow> mtrand \<Rightarrow> mtrand" where
  "mt_seed oneSeed g = mt_reload (g\<lparr>mt_state := mt_initialize oneSeed (mt_state g)\<rparr>)"

definition temper :: "u64 \<Rightarrow> u64" where
  "temper w =
     (let s1 = w XOR drop_bit 11 w;
          s2 = s1 XOR (push_bit 7 s1 AND 0x9d2c5680);
          s3 = s2 XOR (push_bit 15 s2 AND 0xefc60000)
      in s3 XOR drop_bit 18 s3)"

definition mt_randInt :: "mtrand \<Rightarrow> u64 \<times> mtrand" where
  "mt_randInt g0 =
     (let g = (if mt_left g0 = 0 then mt_reload g0 else g0);
          w = mt_state g (mt_pNext g)
      in (temper w, g\<lparr>mt_left := mt_left g - 1, mt_pNext := mt_pNext g + 1\<rparr>))"

definition usedBits :: "u64 \<Rightarrow> u64" where
  "usedBits n =
     (let u1 = n OR drop_bit 1 n;
          u2 = u1 OR drop_bit 2 u1;
          u4 = u2 OR drop_bit 4 u2;
          u8 = u4 OR drop_bit 8 u4
      in u8 OR drop_bit 16 u8)"

partial_function (option) mt_draw :: "u64 \<Rightarrow> u64 \<Rightarrow> mtrand \<Rightarrow> (u64 \<times> mtrand) option" where
  "mt_draw used n g =
     (let (r, g') = mt_randInt g; i = r AND used
      in if i > n then mt_draw used n g' else Some (i, g'))"

definition mt_randIntN :: "u64 \<Rightarrow> mtrand \<Rightarrow> (u64 \<times> mtrand) option" where
  "mt_randIntN n g = mt_draw (usedBits n) n g"

section \<open>Every word fits in 32 bits\<close>

definition fits32 :: "u64 \<Rightarrow> bool" where
  "fits32 w \<longleftrightarrow> (\<forall>n. bit w n \<longrightarrow> n < 32)"

lemma fits32_and [intro]: "fits32 v \<Longrightarrow> fits32 (u AND v)"
  by (auto simp: fits32_def bit_and_iff)

lemma fits32_or [intro]: "fits32 u \<Longrightarrow> fits32 v \<Longrightarrow> fits32 (u OR v)"
  by (auto simp: fits32_def bit_or_iff)

lemma fits32_xor [intro]: "fits32 u \<Longrightarrow> fits32 v \<Longrightarrow> fits32 (u XOR v)"
  by (auto simp: fits32_def bit_xor_iff)

lemma fits32_drop [intro]: "fits32 u \<Longrightarrow> fits32 (drop_bit k u)"
  by (fastforce simp: fits32_def bit_drop_bit_eq)

lemma fits32_take: "fits32 w \<longleftrightarrow> take_bit 32 w = w"
proof
  show "take_bit 32 w = w" if "fits32 w"
    by (rule bit_word_eqI) (use that in \<open>auto simp: fits32_def bit_take_bit_iff\<close>)
  show "fits32 w" if "take_bit 32 w = w"
    unfolding fits32_def
  proof (intro allI impI)
    fix n assume "bit w n"
    then have "bit (take_bit 32 w) n" using that by simp
    then show "n < 32" by (simp add: bit_take_bit_iff)
  qed
qed

lemma fits32_unat: "fits32 w \<longleftrightarrow> unat w < 2 ^ 32"
proof -
  have "fits32 w \<longleftrightarrow> unat (take_bit 32 w) = unat w"
    by (simp add: fits32_take word_unat_eq_iff)
  also have "\<dots> \<longleftrightarrow> take_bit 32 (unat w) = unat w"
    by (simp add: unsigned_take_bit_eq)
  also have "\<dots> \<longleftrightarrow> unat w < 2 ^ 32"
    by (simp only: take_bit_nat_eq_self_iff)
  finally show ?thesis .
qed

lemma fits32_consts [simp]:
  "fits32 0" "fits32 0xffffffff" "fits32 0x80000000" "fits32 0x7fffffff" "fits32 0x9908b0df"
  "fits32 0x9d2c5680" "fits32 0xefc60000"
  by (simp_all add: fits32_unat)

lemma fits32_twist: "fits32 m \<Longrightarrow> fits32 (twist m s0 s1)"
  unfolding twist_def mixBits_def hiBit_def loBits_def magic_def
  by (intro fits32_xor fits32_drop fits32_or fits32_and) auto

lemma fits32_temper: "fits32 w \<Longrightarrow> fits32 (temper w)"
  unfolding temper_def Let_def
  by (intro fits32_xor fits32_drop fits32_and) auto

definition mt_ok :: "mtrand \<Rightarrow> bool" where
  "mt_ok g \<longleftrightarrow> (\<forall>i<MT_N. fits32 (mt_state g i)) \<and> mt_pNext g + mt_left g = MT_N"

lemma fits32_upd:
  "\<forall>i<n. fits32 (st i) \<Longrightarrow> fits32 w \<Longrightarrow> \<forall>i<n. fits32 ((st(p := w)) i)"
  by simp

lemma mt_initialize_prefix:
  "\<forall>i\<le>k. fits32 (fold mt_initialize_step [1..<Suc k] (st(0 := seed AND 0xffffffff)) i)"
proof (induction k)
  case 0
  show ?case by (auto simp: fits32_and)
next
  case (Suc k)
  define t where "t = fold mt_initialize_step [1..<Suc k] (st(0 := seed AND 0xffffffff))"
  have "[1..<Suc (Suc k)] = [1..<Suc k] @ [Suc k]" by simp
  then have eq: "fold mt_initialize_step [1..<Suc (Suc k)] (st(0 := seed AND 0xffffffff))
                 = mt_initialize_step (Suc k) t"
    by (simp only: fold_append t_def) simp
  have "\<forall>i\<le>k. fits32 (t i)" using Suc by (simp only: t_def)
  then have "\<forall>i\<le>Suc k. fits32 (mt_initialize_step (Suc k) t i)"
    by (auto simp: mt_initialize_step_def Let_def le_Suc_eq intro: fits32_and)
  then show ?case unfolding eq .
qed

lemma mt_reload_ok:
  assumes "\<forall>i<MT_N. fits32 (mt_state g i)"
  shows "mt_ok (mt_reload g)"
proof -
  let ?P = "\<lambda>st. \<forall>i<MT_N. fits32 (st i)"
  have 1: "?P (fold reload_low [0..<MT_N - MT_M] (mt_state g))"
    by (rule fold_invariant [where P = ?P])
       (auto simp: assms reload_low_def MT_N_def MT_M_def intro!: fits32_twist)
  have 2: "?P (fold reload_high [MT_N - MT_M..<MT_N - 1]
                 (fold reload_low [0..<MT_N - MT_M] (mt_state g)))"
    by (rule fold_invariant [where P = ?P])
       (use 1 in \<open>auto simp: reload_high_def MT_N_def MT_M_def intro!: fits32_twist\<close>)
  then show ?thesis
    by (auto simp: mt_ok_def mt_reload_def Let_def MT_N_def MT_M_def intro!: fits32_twist)
qed

lemma mt_seed_ok: "mt_ok (mt_seed oneSeed g)"
proof -
  have "\<forall>i\<le>MT_N - 1. fits32 (mt_initialize oneSeed (mt_state g) i)"
    using mt_initialize_prefix [of "MT_N - 1" "mt_state g" oneSeed]
    by (simp add: mt_initialize_def MT_N_def)
  then have "\<forall>i<MT_N. fits32 (mt_initialize oneSeed (mt_state g) i)"
    by (auto simp: MT_N_def)
  then show ?thesis by (simp add: mt_seed_def mt_reload_ok)
qed

lemma mt_randInt_ok:
  assumes "mt_ok g"
  shows "fits32 (fst (mt_randInt g))" and "mt_ok (snd (mt_randInt g))"
proof -
  define h where "h = (if mt_left g = 0 then mt_reload g else g)"
  have ok: "mt_ok h" using assms mt_reload_ok by (auto simp: h_def mt_ok_def)
  have left: "0 < mt_left h" by (auto simp: h_def mt_reload_def Let_def MT_N_def)
  have r: "mt_randInt g = (temper (mt_state h (mt_pNext h)),
             h\<lparr>mt_left := mt_left h - 1, mt_pNext := mt_pNext h + 1\<rparr>)"
    by (simp add: mt_randInt_def h_def Let_def)
  have "mt_pNext h < MT_N" using ok left by (auto simp: mt_ok_def)
  then show "fits32 (fst (mt_randInt g))" using ok by (simp add: r mt_ok_def fits32_temper)
  show "mt_ok (snd (mt_randInt g))" using ok left by (simp add: r mt_ok_def)
qed

section \<open>Bounded draws\<close>

text \<open>The generator after \<open>k\<close> numbers have been drawn and thrown away.\<close>

fun mt_skip :: "nat \<Rightarrow> mtrand \<Rightarrow> mtrand" where
  "mt_skip 0 g = g"
| "mt_skip (Suc k) g = mt_skip k (snd (mt_randInt g))"

lemma mt_draw_bound_aux:
  assumes "mt_draw used n g = Some r"
  shows "fst r \<le> n"
proof (rule mt_draw.raw_induct [where P = "\<lambda>used n g r. fst r \<le> n", OF _ assms])
  fix f :: "u64 \<Rightarrow> u64 \<Rightarrow> mtrand \<Rightarrow> (u64 \<times> mtrand) option" and used n g r
  assume "\<And>used n g r. f used n g = Some r \<Longrightarrow> fst r \<le> n"
    and "(let (r, g') = mt_randInt g; i = r AND used
          in if i > n then f used n g' else Some (i, g')) = Some r"
  then show "fst r \<le> n"
    by (auto simp: Let_def split: prod.splits if_splits)
qed

lemma mt_draw_returns:
  assumes "fst (mt_randInt (mt_skip k g)) AND used \<le> n"
  shows "\<exists>r. mt_draw used n g = Some r"
  using assms
proof (induction k arbitrary: g)
  case 0
  then show ?case by (subst mt_draw.simps) (auto simp: Let_def not_less split: prod.splits)
next
  case (Suc k)
  from Suc.prems have "\<exists>r. mt_draw used n (snd (mt_randInt g)) = Some r"
    using Suc.IH by simp
  then show ?case by (subst mt_draw.simps) (auto simp: Let_def split: prod.splits)
qed

section \<open>Properties\<close>

lemma mt_skip_ok: "mt_ok g \<Longrightarrow> mt_ok (mt_skip k g)"
  by (induction k arbitrary: g) (simp_all add: mt_randInt_ok(2))

text \<open>
  C22: whatever the seed, every number the Mersenne twister yields fits in 32 bits although its state
  words have 64, and the read position never leaves the state array.
\<close>

theorem mt_outputs_32bit:
  "unat (fst (mt_randInt (mt_skip k (mt_seed seed g)))) < 2 ^ 32 \<and>
   mt_pNext (mt_skip k (mt_seed seed g)) + mt_left (mt_skip k (mt_seed seed g)) = MT_N"
  using mt_randInt_ok(1) [OF mt_skip_ok [OF mt_seed_ok]] mt_skip_ok [OF mt_seed_ok, of k seed g]
  by (simp add: fits32_unat mt_ok_def)

end
