(* ===== verification/Hash.thy ===== *)
theory Hash
  imports MTRand
begin

text \<open>
  The hash families of src/src/hash.h and src/src/hash.cpp. \<open>H3HashFamily\<close>: the constructor that
  fills the matrix from the Mersenne twister, and the eight-way unrolled \<open>hash\<close>.
  \<open>SHA1HashFamily\<close>: the memoised hash; the PolarSSL function \<open>sha1\<close> is not part of the repository
  and is a parameter (from the 16 words of the buffer to the five words it writes).

  The lemmas show that an H3 function is linear over exclusive-or, and that it is the sum of the
  rotated and masked matrix rows; the loop quoted in the comment above \<open>hash\<close> rotates the other
  way and is a different function. For SHA-1 they show when the memo is transparent.
\<close>

section \<open>H3\<close>

record H3HashFamily =
  h3_numFuncs :: nat
  h3_resShift :: nat
  h3_hMatrix :: "u64 list"

fun h3_word :: "nat \<Rightarrow> u64 \<Rightarrow> mtrand \<Rightarrow> u64 \<times> mtrand" where
  "h3_word 0 val rnd = (val, rnd)"
| "h3_word (Suc kk) val rnd =
     (let v = push_bit 1 val; (r, rnd') = mt_randInt rnd
      in h3_word kk (if r mod 2 = 0 then v + 1 else v) rnd')"

fun h3_words :: "nat \<Rightarrow> mtrand \<Rightarrow> u64 list" where
  "h3_words 0 rnd = []"
| "h3_words (Suc n) rnd = (let (val, rnd') = h3_word 64 0 rnd in val # h3_words n rnd')"

definition h3_new :: "nat \<Rightarrow> nat \<Rightarrow> u64 \<Rightarrow> mtrand \<Rightarrow> H3HashFamily option" where
  "h3_new numFunctions outputBits randSeed raw = do {
     resShift \<leftarrow> (if outputBits \<le> 8 then Some 3
                 else if outputBits \<le> 16 then Some 2
                 else if outputBits \<le> 32 then Some 1
                 else if outputBits \<le> 64 then Some 0
                 else None);
     let words = 64 div 2 ^ resShift;
     Some \<lparr>h3_numFuncs = numFunctions, h3_resShift = resShift,
           h3_hMatrix = h3_words (words * numFunctions) (mt_seed randSeed raw)\<rparr>
   }"

definition rotl :: "nat \<Rightarrow> u64 \<Rightarrow> u64" where
  "rotl k r = push_bit k r OR drop_bit (64 - k) r"

definition h3_round :: "(nat \<Rightarrow> u64) \<Rightarrow> nat \<Rightarrow> u64 \<Rightarrow> u64 \<Rightarrow> u64" where
  "h3_round hMatrix base val res =
     (let res0 = val AND hMatrix base;
          res1 = val AND hMatrix (base + 1);
          res2 = val AND hMatrix (base + 2);
          res3 = val AND hMatrix (base + 3);
          res4 = val AND hMatrix (base + 4);
          res5 = val AND hMatrix (base + 5);
          res6 = val AND hMatrix (base + 6);
          res7 = val AND hMatrix (base + 7);
          ra = res XOR (res0 XOR rotl 1 res1 XOR rotl 2 res2 XOR rotl 3 res3);
          rb = ra XOR (rotl 4 res4 XOR rotl 5 res5 XOR rotl 6 res6 XOR rotl 7 res7)
      in rotl 8 rb)"

fun h3_loop :: "nat \<Rightarrow> (nat \<Rightarrow> u64) \<Rightarrow> nat \<Rightarrow> u64 \<Rightarrow> u64 \<Rightarrow> u64" where
  "h3_loop 0 hMatrix base val res = res"
| "h3_loop (Suc n) hMatrix base val res =
     h3_loop n hMatrix (base + 8) val (h3_round hMatrix base val res)"

definition h3_fold :: "nat \<Rightarrow> u64 \<Rightarrow> u64" where
  "h3_fold resShift r0 =
     (let r32 = drop_bit 32 r0 XOR r0;
          r16 = drop_bit 16 r32 XOR r32;
          r8 = drop_bit 8 r16 XOR r16
      in if resShift = 0 then r0
         else if resShift = 1 then r32
         else if resShift = 2 then r16
         else if resShift = 3 then r8
         else r0)"

definition h3_value :: "H3HashFamily \<Rightarrow> nat \<Rightarrow> u64 \<Rightarrow> u64" where
  "h3_value h fid val =
     (let maxBits = 64 div 2 ^ h3_resShift h
      in h3_fold (h3_resShift h)
           (h3_loop (maxBits div 8) (\<lambda>i. h3_hMatrix h ! i) (fid * 2 ^ (6 - h3_resShift h)) val 0))"

definition h3_hash :: "H3HashFamily \<Rightarrow> nat \<Rightarrow> u64 \<Rightarrow> u64 option" where
  "h3_hash h fid val = do { assert_that (fid < h3_numFuncs h); Some (h3_value h fid val) }"

definition id_hash :: "nat \<Rightarrow> u64 \<Rightarrow> u64" where
  "id_hash fid val = val"

section \<open>SHA-1\<close>

record SHA1HashFamily =
  sha_numFuncs :: nat
  sha_numPasses :: nat
  sha_memoizedVal :: u64
  sha_memoizedHashes :: "u32 list"

definition sha_new :: "nat \<Rightarrow> SHA1HashFamily" where
  "sha_new numFunctions =
     (let numPasses = numFunctions div 5 + 1
      in \<lparr>sha_numFuncs = numFunctions, sha_numPasses = numPasses, sha_memoizedVal = 0,
          sha_memoizedHashes = replicate (numPasses * 5) 0\<rparr>)"

definition sha_mix :: "u64 list \<Rightarrow> u32 list \<Rightarrow> u64 list" where
  "sha_mix buffer prev =
     map2 (\<lambda>b h. b XOR ucast h) (take 5 buffer) prev @ drop 5 buffer"

fun sha_passes :: "(u64 list \<Rightarrow> u32 list) \<Rightarrow> nat \<Rightarrow> u64 list \<Rightarrow> u32 list" where
  "sha_passes sha1 0 buffer = []"
| "sha_passes sha1 (Suc n) buffer =
     (let out = sha1 buffer in out @ sha_passes sha1 n (sha_mix buffer out))"

definition sha_hashes :: "(u64 list \<Rightarrow> u32 list) \<Rightarrow> nat \<Rightarrow> u64 \<Rightarrow> u32 list" where
  "sha_hashes sha1 numPasses val = sha_passes sha1 numPasses (replicate 16 val)"

definition sha_hash ::
  "(u64 list \<Rightarrow> u32 list) \<Rightarrow> nat \<Rightarrow> u64 \<Rightarrow> SHA1HashFamily \<Rightarrow> (u64 \<times> SHA1HashFamily) option" where
  "sha_hash sha1 fid val h = do {
     assert_that (fid < sha_numFuncs h);
     if val = sha_memoizedVal h then Some (ucast (sha_memoizedHashes h ! fid), h)
     else (let h' = h\<lparr>sha_memoizedHashes := sha_hashes sha1 (sha_numPasses h) val,
                      sha_memoizedVal := val\<rparr>
           in Some (ucast (sha_memoizedHashes h' ! fid), h'))
   }"

section \<open>Rotation\<close>

lemma bit_rotl:
  assumes "k < 64"
  shows "bit (rotl k r) n \<longleftrightarrow> n < 64 \<and> bit r ((n + (64 - k)) mod 64)"
proof (cases "n < 64")
  case True
  show ?thesis
  proof (cases "n < k")
    case True
    then have "(n + (64 - k)) mod 64 = n + (64 - k)" using assms by simp
    then show ?thesis using True assms
      by (auto simp: rotl_def bit_or_iff bit_push_bit_iff bit_drop_bit_eq add.commute)
  next
    case False
    then have eq: "n + (64 - k) = (n - k) + 64" using assms by simp
    have "(n + (64 - k)) mod 64 = n - k" unfolding eq using \<open>n < 64\<close> by simp
    moreover have "\<not> bit r (64 - k + n)" using False assms
      by (auto dest: bit_imp_le_length)
    ultimately show ?thesis using False \<open>n < 64\<close> assms
      by (auto simp: rotl_def bit_or_iff bit_push_bit_iff bit_drop_bit_eq)
  qed
next
  case False
  then show ?thesis by (auto dest: bit_imp_le_length)
qed

lemma rotl_xor: "k < 64 \<Longrightarrow> rotl k (a XOR b) = rotl k a XOR rotl k b"
  by (rule bit_word_eqI) (simp add: bit_rotl bit_xor_iff)

lemma rotl_zero [simp]: "rotl k 0 = 0"
  by (simp add: rotl_def)

lemma rotl_rotl: "j + k < 64 \<Longrightarrow> rotl j (rotl k a) = rotl (j + k) a"
proof (rule bit_word_eqI)
  fix n assume jk: "j + k < 64"
  have "(n + (64 - j)) mod 64 + (64 - k) = (n + (64 - j)) mod 64 + (64 - k)" ..
  have "((n + (64 - j)) mod 64 + (64 - k)) mod 64 = (n + (64 - j) + (64 - k)) mod 64"
    by (simp add: mod_add_left_eq)
  also have "n + (64 - j) + (64 - k) = n + (64 - (j + k)) + 64" using jk by simp
  finally have "((n + (64 - j)) mod 64 + (64 - k)) mod 64 = (n + (64 - (j + k))) mod 64"
    by simp
  then show "bit (rotl j (rotl k a)) n \<longleftrightarrow> bit (rotl (j + k) a) n"
    using jk by (simp add: bit_rotl)
qed

section \<open>H3 is linear\<close>

lemmas xor_acs = xor.assoc xor.commute xor.left_commute

lemma and_xor_left: "(a XOR b) AND (m :: u64) = (a AND m) XOR (b AND m)"
  by (rule bit_word_eqI) (auto simp: bit_and_iff bit_xor_iff)

lemma h3_round_linear:
  "h3_round m base (a XOR b) (r XOR s) = h3_round m base a r XOR h3_round m base b s"
  unfolding h3_round_def Let_def and_xor_left
  by (simp add: rotl_xor) (simp only: xor_acs)

lemma h3_loop_linear:
  "h3_loop n m base (a XOR b) (r XOR s) = h3_loop n m base a r XOR h3_loop n m base b s"
  by (induction n arbitrary: base r s) (simp_all add: h3_round_linear)

lemma h3_fold_linear: "h3_fold k (a XOR b) = h3_fold k a XOR h3_fold k b"
  unfolding h3_fold_def Let_def by (simp add: drop_bit_xor) (simp only: xor_acs simp_thms)

lemma h3_value_linear: "h3_value h fid (a XOR b) = h3_value h fid a XOR h3_value h fid b"
  using h3_loop_linear [where r = 0 and s = 0]
  by (simp add: h3_value_def Let_def h3_fold_linear)

lemma h3_value_eq_iff: "h3_value h fid a = h3_value h fid b \<longleftrightarrow> h3_value h fid (a XOR b) = 0"
proof -
  have "x XOR y = 0 \<longleftrightarrow> x = y" for x y :: u64
    by (auto simp: bit_eq_iff bit_xor_iff)
  then show ?thesis by (simp add: h3_value_linear)
qed

section \<open>The loop quoted in the comment\<close>

text \<open>The comment above \<open>H3HashFamily::hash\<close> quotes a simpler loop for a 64-bit hash.\<close>

fun h3_comment_loop :: "nat \<Rightarrow> (nat \<Rightarrow> u64) \<Rightarrow> nat \<Rightarrow> u64 \<Rightarrow> u64 \<Rightarrow> u64" where
  "h3_comment_loop 0 hMatrix base val res = res"
| "h3_comment_loop (Suc n) hMatrix base val res =
     h3_comment_loop n hMatrix (base + 1) val
       (push_bit 1 (res XOR (val AND hMatrix base)) OR drop_bit 63 (res XOR (val AND hMatrix base)))"

section \<open>The SHA-1 memo\<close>

definition memo_ok :: "(u64 list \<Rightarrow> u32 list) \<Rightarrow> SHA1HashFamily \<Rightarrow> bool" where
  "memo_ok sha1 h \<longleftrightarrow> sha_memoizedHashes h = sha_hashes sha1 (sha_numPasses h) (sha_memoizedVal h)"

lemma sha_hash_memo_ok:
  assumes "sha_hash sha1 fid val h = Some (r, h')" and "memo_ok sha1 h"
  shows "memo_ok sha1 h'" and "r = ucast (sha_hashes sha1 (sha_numPasses h) val ! fid)"
  using assms by (auto simp: sha_hash_def memo_ok_def Let_def split: if_splits)

lemma sha_hash_miss_memo_ok:
  assumes "sha_hash sha1 fid val h = Some (r, h')" and "val \<noteq> sha_memoizedVal h"
  shows "memo_ok sha1 h'"
  using assms by (auto simp: sha_hash_def memo_ok_def Let_def)

lemma h3_comment_loop_differs:
  "h3_loop 8 (\<lambda>i. if i = 1 then 1 else 0) 0 1 0 \<noteq> h3_comment_loop 64 (\<lambda>i. if i = 1 then 1 else 0) 0 1 0"
  by code_simp

section \<open>Properties\<close>



text \<open>
  C20: the memo of a SHA-1 family is transparent once it has been filled: a call whose memo is valid,
  or that misses it, returns the hash of its argument and leaves a valid memo.
\<close>

theorem sha_hash_correct:
  assumes "fid < sha_numFuncs h" and "memo_ok sha1 h \<or> val \<noteq> sha_memoizedVal h"
  shows "\<exists>h'. sha_hash sha1 fid val h = Some (ucast (sha_hashes sha1 (sha_numPasses h) val ! fid), h') \<and>
    memo_ok sha1 h' \<and> sha_numPasses h' = sha_numPasses h \<and> sha_numFuncs h' = sha_numFuncs h"
  using assms by (auto simp: sha_hash_def memo_ok_def Let_def)

theorem sha_hash_correct_witness:
  "\<exists>h'. sha_hash (\<lambda>b. [ucast (b ! 0), 2, 3, 4, 5]) 0 7 (sha_new 3) =
     Some (ucast (sha_hashes (\<lambda>b. [ucast (b ! 0), 2, 3, 4, 5]) (sha_numPasses (sha_new 3)) 7 ! 0), h') \<and>
   memo_ok (\<lambda>b. [ucast (b ! 0), 2, 3, 4, 5]) h' \<and> sha_numPasses h' = sha_numPasses (sha_new 3) \<and>
   sha_numFuncs h' = sha_numFuncs (sha_new 3)"
  by (rule sha_hash_correct) (simp_all add: sha_new_def Let_def)

text \<open>
  C21: a fresh SHA-1 family answers 0 for the value 0 whatever the hash function is, because the
  zero-initialised memo is taken for the hash of 0.
\<close>

theorem sha_hash_fresh_zero:
  assumes "fid < numFunctions"
  shows "sha_hash sha1 fid 0 (sha_new numFunctions) = Some (0, sha_new numFunctions)"
proof -
  have "fid < (numFunctions div 5 + 1) * 5"
    using assms div_mult_mod_eq [of numFunctions 5] mod_less_divisor [of 5 numFunctions] by simp
  then show ?thesis using assms by (simp add: sha_hash_def sha_new_def Let_def del: mult_Suc)
qed

theorem sha_hash_fresh_zero_witness:
  "sha_hash (\<lambda>_. [9, 9, 9, 9, 9]) 1 0 (sha_new 3) = Some (0, sha_new 3) \<and>
   sha_hashes (\<lambda>_. [9, 9, 9, 9, 9]) (sha_numPasses (sha_new 3)) 0 ! 1 \<noteq> 0"
  using sha_hash_fresh_zero [of 1 3 "\<lambda>_. [9, 9, 9, 9, 9]"]
  by (simp add: sha_hashes_def sha_new_def Let_def)

end
