(* ===== verification/Memory_Hierarchy.thy ===== *)
theory Memory_Hierarchy
  imports Prelude
begin

text \<open>
  Types of src/src/memory_hierarchy.h: access and invalidation types, MESI states, memory and
  invalidation requests, request flags, and the name tables of src/src/memory_hierarchy.cpp.

  Pointers. A \<open>MESIState*\<close> of a request points either at one entry of the state array of a bottom
  controller (\<open>Slot c line\<close>, the line \<open>line\<close> of cache \<open>c\<close>) or at a local variable of a caller
  outside the caches (\<open>Outside k\<close>, for instance \<open>dummyState\<close> of \<open>FilterCache::replace\<close>). A
  \<open>lock_t*\<close> is the bottom lock of a cache or a lock of such a caller. A memory object is a cache
  or a memory controller.
\<close>

datatype AccessType = GETS | GETX | PUTS | PUTX

datatype InvType = INV | INVX | FWD

datatype MESIState = I | S | E | M

definition IsGet :: "AccessType \<Rightarrow> bool" where
  "IsGet t \<longleftrightarrow> t = GETS \<or> t = GETX"

definition IsPut :: "AccessType \<Rightarrow> bool" where
  "IsPut t \<longleftrightarrow> t = PUTS \<or> t = PUTX"

type_synonym Address = u64

datatype state_ptr = Slot nat nat | Outside nat

datatype lock_ptr = BccLock nat | OutsideLock nat

datatype mem_object = CacheObj nat | MemObj nat

record MemReq =
  req_lineAddr :: Address
  req_type :: AccessType
  req_childId :: nat
  req_state :: state_ptr
  req_cycle :: nat
  req_childLock :: "lock_ptr option"
  req_initialState :: MESIState
  req_srcId :: nat
  req_flags :: u32

definition IFETCH :: u32 where "IFETCH = push_bit 1 1"
definition NOEXCL :: u32 where "NOEXCL = push_bit 2 1"
definition NONINCLWB :: u32 where "NONINCLWB = push_bit 3 1"
definition PUTX_KEEPEXCL :: u32 where "PUTX_KEEPEXCL = push_bit 4 1"
definition PREFETCH :: u32 where "PREFETCH = push_bit 5 1"

definition req_set :: "u32 \<Rightarrow> MemReq \<Rightarrow> MemReq" where
  "req_set f req = req\<lparr>req_flags := req_flags req OR f\<rparr>"

definition has_flag :: "u32 \<Rightarrow> u32 \<Rightarrow> bool" where
  "has_flag flags f \<longleftrightarrow> flags AND f \<noteq> 0"

definition req_is :: "u32 \<Rightarrow> MemReq \<Rightarrow> bool" where
  "req_is f req \<longleftrightarrow> has_flag (req_flags req) f"

text \<open>The field \<open>bool* writeback\<close> of an invalidation is threaded through the calls as a value.\<close>

record InvReq =
  inv_lineAddr :: Address
  inv_type :: InvType
  inv_cycle :: nat
  inv_srcId :: nat

definition AccessTypeName :: "AccessType \<Rightarrow> string" where
  "AccessTypeName t =
     (case t of GETS \<Rightarrow> ''GETS'' | GETX \<Rightarrow> ''GETX'' | PUTS \<Rightarrow> ''PUTS'' | PUTX \<Rightarrow> ''PUTX'')"

text \<open>The enumerators are numbered from 0 in declaration order; \<open>invTypeNames\<close> has two entries.\<close>

definition InvType_num :: "InvType \<Rightarrow> nat" where
  "InvType_num t = (case t of INV \<Rightarrow> 0 | INVX \<Rightarrow> 1 | FWD \<Rightarrow> 2)"

definition invTypeNames :: "string list" where
  "invTypeNames = [''INV'', ''INVX'']"

definition InvTypeName :: "InvType \<Rightarrow> string option" where
  "InvTypeName t = do {
     assert_that (InvType_num t < length invTypeNames);
     Some (invTypeNames ! InvType_num t)
   }"

definition MESIStateName :: "MESIState \<Rightarrow> string" where
  "MESIStateName s = (case s of I \<Rightarrow> ''I'' | S \<Rightarrow> ''S'' | E \<Rightarrow> ''E'' | M \<Rightarrow> ''M'')"

section \<open>Flags\<close>

lemma push_bit_1_and_iff: "(w :: u32) AND push_bit k 1 \<noteq> 0 \<longleftrightarrow> bit w k"
proof -
  have "w AND push_bit k 1 = 0 \<longleftrightarrow> \<not> bit w k"
    using bit_imp_le_length [of w k] by (subst bit_eq_iff) (auto simp: bit_and_iff bit_exp_iff)
  then show ?thesis by simp
qed

lemmas flag_defs = IFETCH_def NOEXCL_def NONINCLWB_def PUTX_KEEPEXCL_def PREFETCH_def

lemma has_flag_bit:
  "has_flag w IFETCH \<longleftrightarrow> bit w 1" "has_flag w NOEXCL \<longleftrightarrow> bit w 2"
  "has_flag w NONINCLWB \<longleftrightarrow> bit w 3" "has_flag w PUTX_KEEPEXCL \<longleftrightarrow> bit w 4"
  "has_flag w PREFETCH \<longleftrightarrow> bit w 5"
  unfolding has_flag_def flag_defs by (rule push_bit_1_and_iff)+

lemma has_flag_zero [simp]: "\<not> has_flag 0 f"
  by (simp add: has_flag_def)

lemma bit_PREFETCH: "bit PREFETCH n \<longleftrightarrow> n = 5"
  unfolding PREFETCH_def by (simp only: bit_push_bit_iff bit_1_iff) auto

lemma clear_PREFETCH: "\<not> has_flag w PREFETCH \<Longrightarrow> w AND NOT PREFETCH = w"
  unfolding has_flag_bit(5)
  by (rule bit_word_eqI) (auto simp: bit_and_iff bit_not_iff bit_PREFETCH)

lemma cleared_PREFETCH: "\<not> has_flag (w AND NOT PREFETCH) PREFETCH"
  by (simp add: has_flag_bit(5) bit_and_iff bit_not_iff bit_PREFETCH)

lemma IsGet_cases [simp]: "IsGet GETS" "IsGet GETX" "\<not> IsGet PUTS" "\<not> IsGet PUTX"
  by (simp_all add: IsGet_def)

lemma IsPut_cases [simp]: "IsPut PUTS" "IsPut PUTX" "\<not> IsPut GETS" "\<not> IsPut GETX"
  by (simp_all add: IsPut_def)

lemma IsPut_iff: "IsPut t \<longleftrightarrow> \<not> IsGet t"
  by (cases t) simp_all

end
