(* ===== verification/Repl_Policies.thy ===== *)
theory Repl_Policies
  imports Memory_Hierarchy MTRand
begin

text \<open>
  Replacement policies of src/src/repl_policies.h. A policy object is a state of type \<open>'r\<close>; its
  virtual methods form the record \<open>ReplPolicy\<close>. The controller queries \<open>cc->numSharers\<close> and
  \<open>cc->isValid\<close> are the function arguments \<open>ns\<close> and \<open>vl\<close>. Candidates are the list of line ids that
  the iterators \<open>SetAssocCands\<close> and \<open>ZCands\<close> enumerate, in their order. An array member such as
  \<open>uint64_t* array\<close> is a map from line ids to values.

  \<open>LegacyReplPolicy::rank\<close> starts a replacement, records every candidate and asks for the best one.
  Between \<open>rank\<close> and \<open>replaced\<close> a legacy policy holds the recorded candidates: the predicates
  \<open>ready\<close> and \<open>pending\<close> of the locale \<open>repl_policy\<close> are the two sides of that protocol.
\<close>

section \<open>The interface\<close>

record 'r ReplPolicy =
  rp_update :: "nat \<Rightarrow> MemReq \<Rightarrow> 'r \<Rightarrow> 'r option"
  rp_replaced :: "nat \<Rightarrow> 'r \<Rightarrow> 'r"
  rp_rankCands :: "(nat \<Rightarrow> nat) \<Rightarrow> (nat \<Rightarrow> bool) \<Rightarrow> MemReq \<Rightarrow> nat list \<Rightarrow> 'r \<Rightarrow> (nat \<times> 'r) option"

fun record_all :: "(nat \<Rightarrow> 'r \<Rightarrow> 'r option) \<Rightarrow> nat list \<Rightarrow> 'r \<Rightarrow> 'r option" where
  "record_all recordCandidate [] r = Some r"
| "record_all recordCandidate (c # cands) r = do {
     r' \<leftarrow> recordCandidate c r;
     record_all recordCandidate cands r'
   }"

definition legacy_rank ::
  "(MemReq \<Rightarrow> 'r \<Rightarrow> 'r option) \<Rightarrow> (nat \<Rightarrow> 'r \<Rightarrow> 'r option) \<Rightarrow> ('r \<Rightarrow> (nat \<times> 'r) option) \<Rightarrow>
   MemReq \<Rightarrow> nat list \<Rightarrow> 'r \<Rightarrow> (nat \<times> 'r) option" where
  "legacy_rank startReplacement recordCandidate getBestCandidate req cands r = do {
     r0 \<leftarrow> startReplacement req r;
     r1 \<leftarrow> record_all recordCandidate cands r0;
     getBestCandidate r1
   }"

section \<open>LRU\<close>

record LRUReplPolicy =
  lru_timestamp :: nat
  lru_array :: "nat \<Rightarrow> nat"

definition lru_new :: LRUReplPolicy where
  "lru_new = \<lparr>lru_timestamp = 1, lru_array = (\<lambda>_. 0)\<rparr>"

definition lru_update :: "nat \<Rightarrow> MemReq \<Rightarrow> LRUReplPolicy \<Rightarrow> LRUReplPolicy option" where
  "lru_update i req r =
     Some (r\<lparr>lru_array := (lru_array r)(i := lru_timestamp r),
             lru_timestamp := trunc64 (lru_timestamp r + 1)\<rparr>)"

definition lru_replaced :: "nat \<Rightarrow> LRUReplPolicy \<Rightarrow> LRUReplPolicy" where
  "lru_replaced i r = r\<lparr>lru_array := (lru_array r)(i := 0)\<rparr>"

definition lru_score ::
  "bool \<Rightarrow> (nat \<Rightarrow> nat) \<Rightarrow> (nat \<Rightarrow> bool) \<Rightarrow> LRUReplPolicy \<Rightarrow> nat \<Rightarrow> nat" where
  "lru_score sharersAware ns vl r i =
     trunc64 ((if sharersAware then ns i else 0) * lru_timestamp r
              + lru_array r i * (if vl i then 1 else 0))"

fun lru_rank_loop :: "(nat \<Rightarrow> nat) \<Rightarrow> nat list \<Rightarrow> nat \<Rightarrow> nat \<Rightarrow> nat" where
  "lru_rank_loop score [] bestCand bestScore = bestCand"
| "lru_rank_loop score (ci # cands) bestCand bestScore =
     (let s = trunc32 (score ci) in
      lru_rank_loop score cands (if s < bestScore then ci else bestCand)
        (if s < bestScore then s else bestScore))"

definition lru_rank ::
  "bool \<Rightarrow> (nat \<Rightarrow> nat) \<Rightarrow> (nat \<Rightarrow> bool) \<Rightarrow> MemReq \<Rightarrow> nat list \<Rightarrow> LRUReplPolicy \<Rightarrow>
   (nat \<times> LRUReplPolicy) option" where
  "lru_rank sharersAware ns vl req cands r =
     Some (lru_rank_loop (lru_score sharersAware ns vl r) cands (2 ^ 32 - 1) (2 ^ 64 - 1), r)"

definition lru_policy :: "bool \<Rightarrow> LRUReplPolicy ReplPolicy" where
  "lru_policy sharersAware =
     \<lparr>rp_update = lru_update, rp_replaced = lru_replaced, rp_rankCands = lru_rank sharersAware\<rparr>"

section \<open>Tree LRU\<close>

record TreeLRUReplPolicy = LRUReplPolicy +
  tlru_candArray :: "nat \<Rightarrow> nat"
  tlru_numCands :: nat
  tlru_candIdx :: nat

definition tlru_new :: "u32 \<Rightarrow> TreeLRUReplPolicy option" where
  "tlru_new numCands = do {
     assert_that (\<not> (numCands AND (numCands - 1) \<noteq> 0));
     Some \<lparr>lru_timestamp = 1, lru_array = (\<lambda>_. 0), tlru_candArray = (\<lambda>_. 0),
           tlru_numCands = unat numCands, tlru_candIdx = 0\<rparr>
   }"

definition tlru_recordCandidate :: "nat \<Rightarrow> TreeLRUReplPolicy \<Rightarrow> TreeLRUReplPolicy option" where
  "tlru_recordCandidate i r =
     Some (r\<lparr>tlru_candArray := (tlru_candArray r)(tlru_candIdx r := i),
             tlru_candIdx := tlru_candIdx r + 1\<rparr>)"

definition range_max :: "(nat \<Rightarrow> nat) \<Rightarrow> nat \<Rightarrow> nat \<Rightarrow> nat" where
  "range_max ts lo hi = fold (\<lambda>i t. if t > ts i then t else ts i) [lo..<hi] 0"

function tlru_walk :: "(nat \<Rightarrow> nat) \<Rightarrow> nat \<Rightarrow> nat \<Rightarrow> nat" where
  "tlru_walk ts start stop =
     (if stop - start > 1 then
        (let pivot = start + (stop - start) div 2;
             t1 = range_max ts start pivot;
             t2 = range_max ts pivot stop
         in if t1 > t2 then tlru_walk ts pivot stop else tlru_walk ts start pivot)
      else start)"
  by pat_completeness auto
termination
  by (relation "measure (\<lambda>(ts, start, stop). stop - start)") auto

definition tlru_getBestCandidate :: "TreeLRUReplPolicy \<Rightarrow> (nat \<times> TreeLRUReplPolicy) option" where
  "tlru_getBestCandidate r = do {
     assert_that (tlru_candIdx r = tlru_numCands r);
     let start = tlru_walk (\<lambda>i. lru_array r (tlru_candArray r i)) 0 (tlru_numCands r);
     Some (tlru_candArray r start, r)
   }"

definition tlru_replaced :: "nat \<Rightarrow> TreeLRUReplPolicy \<Rightarrow> TreeLRUReplPolicy" where
  "tlru_replaced i r = r\<lparr>tlru_candIdx := 0, lru_array := (lru_array r)(i := 0)\<rparr>"

section \<open>NRU\<close>

record NRUReplPolicy =
  nru_array :: "nat \<Rightarrow> nat"
  nru_candArray :: "nat \<Rightarrow> nat"
  nru_numLines :: nat
  nru_numCands :: nat
  nru_youngLines :: nat
  nru_candVal :: nat
  nru_candIdx :: nat

definition nru_new :: "nat \<Rightarrow> nat \<Rightarrow> NRUReplPolicy" where
  "nru_new numLines numCands =
     \<lparr>nru_array = (\<lambda>_. 0), nru_candArray = (\<lambda>_. 0), nru_numLines = numLines,
      nru_numCands = numCands, nru_youngLines = 0, nru_candVal = 2 ^ 20, nru_candIdx = 0\<rparr>"

definition nru_update :: "nat \<Rightarrow> MemReq \<Rightarrow> NRUReplPolicy \<Rightarrow> NRUReplPolicy option" where
  "nru_update i req r =
     (let young = trunc32 (nru_youngLines r + 1 + (2 ^ 32 - nru_array r i div 2));
          arr = (nru_array r)(i := nru_array r i OR 2)
      in if young \<ge> nru_numLines r div 2
         then Some (r\<lparr>nru_array := (\<lambda>j. if j < nru_numLines r then arr j div 2 else arr j),
                      nru_youngLines := 0\<rparr>)
         else Some (r\<lparr>nru_array := arr, nru_youngLines := young\<rparr>))"

definition nru_recordCandidate :: "nat \<Rightarrow> NRUReplPolicy \<Rightarrow> NRUReplPolicy option" where
  "nru_recordCandidate i r =
     (let iVal = nru_array r i in
      if iVal < nru_candVal r
      then Some (r\<lparr>nru_candVal := iVal, nru_candArray := (nru_candArray r)(0 := i), nru_candIdx := 1\<rparr>)
      else if iVal = nru_candVal r
      then Some (r\<lparr>nru_candArray := (nru_candArray r)(nru_candIdx r := i),
                   nru_candIdx := nru_candIdx r + 1\<rparr>)
      else Some r)"

definition nru_getBestCandidate :: "NRUReplPolicy \<Rightarrow> (nat \<times> NRUReplPolicy) option" where
  "nru_getBestCandidate r = do {
     assert_that (nru_candIdx r > 0);
     Some (nru_candArray r (nru_youngLines r mod nru_candIdx r), r)
   }"

definition nru_replaced :: "nat \<Rightarrow> NRUReplPolicy \<Rightarrow> NRUReplPolicy" where
  "nru_replaced i r =
     r\<lparr>nru_candVal := 2 ^ 20, nru_candIdx := 0, nru_array := (nru_array r)(i := 0)\<rparr>"

definition nru_policy :: "NRUReplPolicy ReplPolicy" where
  "nru_policy =
     \<lparr>rp_update = nru_update, rp_replaced = nru_replaced,
      rp_rankCands = (\<lambda>ns vl. legacy_rank (\<lambda>req. Some) nru_recordCandidate nru_getBestCandidate)\<rparr>"

section \<open>Random\<close>

record RandReplPolicy =
  rand_candArray :: "nat \<Rightarrow> nat"
  rand_numCands :: nat
  rand_rnd :: mtrand
  rand_candIdx :: nat

definition rand_new :: "nat \<Rightarrow> u64 \<Rightarrow> mtrand \<Rightarrow> RandReplPolicy" where
  "rand_new numCands this raw =
     \<lparr>rand_candArray = (\<lambda>_. 0), rand_numCands = numCands,
      rand_rnd = mt_seed (0x23A5F + this) raw, rand_candIdx = 0\<rparr>"

definition rand_update :: "nat \<Rightarrow> MemReq \<Rightarrow> RandReplPolicy \<Rightarrow> RandReplPolicy option" where
  "rand_update i req r = Some r"

definition rand_recordCandidate :: "nat \<Rightarrow> RandReplPolicy \<Rightarrow> RandReplPolicy option" where
  "rand_recordCandidate i r =
     Some (r\<lparr>rand_candArray := (rand_candArray r)(rand_candIdx r := i),
             rand_candIdx := rand_candIdx r + 1\<rparr>)"

definition rand_getBestCandidate :: "RandReplPolicy \<Rightarrow> (nat \<times> RandReplPolicy) option" where
  "rand_getBestCandidate r = do {
     assert_that (rand_candIdx r = rand_numCands r);
     (idx, rnd) \<leftarrow> mt_randIntN (of_nat (dec32 (rand_numCands r))) (rand_rnd r);
     Some (rand_candArray r (unat idx), r\<lparr>rand_rnd := rnd\<rparr>)
   }"

definition rand_replaced :: "nat \<Rightarrow> RandReplPolicy \<Rightarrow> RandReplPolicy" where
  "rand_replaced i r = r\<lparr>rand_candIdx := 0\<rparr>"

definition rand_policy :: "RandReplPolicy ReplPolicy" where
  "rand_policy =
     \<lparr>rp_update = rand_update, rp_replaced = rand_replaced,
      rp_rankCands = (\<lambda>ns vl. legacy_rank (\<lambda>req. Some) rand_recordCandidate rand_getBestCandidate)\<rparr>"

section \<open>LFU\<close>

record LFUInfo =
  lfu_ts :: nat
  lfu_acc :: nat

record LFURank =
  rank_lfuInfo :: LFUInfo
  rank_sharers :: nat
  rank_valid :: bool

record LFUReplPolicy =
  lfu_timestamp :: nat
  lfu_bestCandidate :: "nat option"
  lfu_array :: "nat \<Rightarrow> LFUInfo"
  lfu_bestRank :: LFURank

definition rank_reset :: LFURank where
  "rank_reset = \<lparr>rank_lfuInfo = \<lparr>lfu_ts = 0, lfu_acc = 0\<rparr>, rank_sharers = 0, rank_valid = False\<rparr>"

definition rank_lessThan :: "LFURank \<Rightarrow> LFURank \<Rightarrow> nat \<Rightarrow> bool" where
  "rank_lessThan this other curTs =
     (if \<not> rank_valid this \<and> rank_valid other then True
      else if rank_valid this = rank_valid other then
        (if rank_sharers this = 0 \<and> rank_sharers other > 0 then True
         else if rank_sharers this > 0 \<and> rank_sharers other = 0 then False
         else if lfu_acc (rank_lfuInfo this) = 0 then True
         else if lfu_acc (rank_lfuInfo other) = 0 then False
         else (let ownInvFreq = trunc64 (curTs + (2 ^ 64 - lfu_ts (rank_lfuInfo this)))
                                  div lfu_acc (rank_lfuInfo this);
                   otherInvFreq = trunc64 (curTs + (2 ^ 64 - lfu_ts (rank_lfuInfo other)))
                                  div lfu_acc (rank_lfuInfo other)
               in ownInvFreq > otherInvFreq))
      else False)"

definition lfu_new :: LFUReplPolicy where
  "lfu_new =
     \<lparr>lfu_timestamp = 1, lfu_bestCandidate = None, lfu_array = (\<lambda>_. \<lparr>lfu_ts = 0, lfu_acc = 0\<rparr>),
      lfu_bestRank = rank_reset\<rparr>"

definition lfu_update :: "nat \<Rightarrow> MemReq \<Rightarrow> LFUReplPolicy \<Rightarrow> LFUReplPolicy option" where
  "lfu_update i req r =
     (let inf = lfu_array r i;
          ts = trunc64 (lfu_acc inf * lfu_ts inf + lfu_timestamp r) div trunc64 (lfu_acc inf + 1)
      in Some (r\<lparr>lfu_array := (lfu_array r)(i := \<lparr>lfu_ts = ts, lfu_acc = trunc64 (lfu_acc inf + 1)\<rparr>),
                 lfu_timestamp := trunc64 (lfu_timestamp r + 1000)\<rparr>))"

definition lfu_recordCandidate ::
  "(nat \<Rightarrow> nat) \<Rightarrow> (nat \<Rightarrow> bool) \<Rightarrow> nat \<Rightarrow> LFUReplPolicy \<Rightarrow> LFUReplPolicy option" where
  "lfu_recordCandidate ns vl i r =
     (let candRank = \<lparr>rank_lfuInfo = lfu_array r i, rank_sharers = ns i, rank_valid = vl i\<rparr>
      in if lfu_bestCandidate r = None \<or> rank_lessThan candRank (lfu_bestRank r) (lfu_timestamp r)
         then Some (r\<lparr>lfu_bestRank := candRank, lfu_bestCandidate := Some i\<rparr>)
         else Some r)"

definition lfu_getBestCandidate :: "LFUReplPolicy \<Rightarrow> (nat \<times> LFUReplPolicy) option" where
  "lfu_getBestCandidate r = do {
     best \<leftarrow> lfu_bestCandidate r;
     Some (best, r)
   }"

definition lfu_replaced :: "nat \<Rightarrow> LFUReplPolicy \<Rightarrow> LFUReplPolicy" where
  "lfu_replaced i r =
     r\<lparr>lfu_bestCandidate := None, lfu_bestRank := rank_reset,
       lfu_array := (lfu_array r)(i := (lfu_array r i)\<lparr>lfu_acc := 0\<rparr>)\<rparr>"

definition lfu_policy :: "LFUReplPolicy ReplPolicy" where
  "lfu_policy =
     \<lparr>rp_update = lfu_update, rp_replaced = lfu_replaced,
      rp_rankCands = (\<lambda>ns vl. legacy_rank (\<lambda>req. Some) (lfu_recordCandidate ns vl) lfu_getBestCandidate)\<rparr>"

section \<open>Profiling of access-order violations\<close>

record AccTimes =
  acc_read :: nat
  acc_write :: nat

record 'r ProfViolReplPolicy =
  pv_base :: 'r
  pv_accTimes :: "nat \<Rightarrow> AccTimes"
  pv_replCycle :: nat
  pv_profRAW :: nat
  pv_profWAR :: nat
  pv_profRAR :: nat
  pv_profWAW :: nat
  pv_profNoViolAcc :: nat
  pv_profAAE :: nat
  pv_profNoViolEv :: nat

definition pv_init :: "'r \<Rightarrow> 'r ProfViolReplPolicy" where
  "pv_init base =
     \<lparr>pv_base = base, pv_accTimes = (\<lambda>_. \<lparr>acc_read = 0, acc_write = 0\<rparr>), pv_replCycle = 0,
      pv_profRAW = 0, pv_profWAR = 0, pv_profRAR = 0, pv_profWAW = 0, pv_profNoViolAcc = 0,
      pv_profAAE = 0, pv_profNoViolEv = 0\<rparr>"

definition pv_record :: "bool \<Rightarrow> bool \<Rightarrow> 'r ProfViolReplPolicy \<Rightarrow> 'r ProfViolReplPolicy" where
  "pv_record rd readViol r =
     (if rd then (if readViol then r\<lparr>pv_profRAR := pv_profRAR r + 1\<rparr>
                  else r\<lparr>pv_profRAW := pv_profRAW r + 1\<rparr>)
      else (if readViol then r\<lparr>pv_profWAR := pv_profWAR r + 1\<rparr>
            else r\<lparr>pv_profWAW := pv_profWAW r + 1\<rparr>))"

definition pv_update ::
  "'r ReplPolicy \<Rightarrow> nat \<Rightarrow> MemReq \<Rightarrow> 'r ProfViolReplPolicy \<Rightarrow> 'r ProfViolReplPolicy option" where
  "pv_update T i req r0 = do {
     b1 \<leftarrow> rp_update T i req (pv_base r0);
     let r = r0\<lparr>pv_base := b1\<rparr>;
     let rd = (req_type req = GETS);
     assert_that (rd \<or> req_type req = GETX);
     let cycle = req_cycle req;
     let t = pv_accTimes r i;
     r1 \<leftarrow> (if cycle < max (acc_read t) (acc_write t) then do {
              readViol \<leftarrow> (if cycle < min (acc_read t) (acc_write t)
                          then Some (acc_read t < acc_write t)
                          else if cycle < acc_read t then Some True
                          else do { assert_that (cycle < acc_write t); Some False });
              Some (pv_record rd readViol r)
            } else Some (r\<lparr>pv_profNoViolAcc := pv_profNoViolAcc r + 1\<rparr>));
     let t' = (if rd then t\<lparr>acc_read := max (acc_read t) cycle\<rparr>
               else t\<lparr>acc_write := max (acc_write t) cycle\<rparr>);
     let r2 = r1\<lparr>pv_accTimes := (pv_accTimes r1)(i := t')\<rparr>;
     b2 \<leftarrow> rp_update T i req (pv_base r2);
     Some (r2\<lparr>pv_base := b2\<rparr>)
   }"

definition pv_replaced ::
  "'r ReplPolicy \<Rightarrow> nat \<Rightarrow> 'r ProfViolReplPolicy \<Rightarrow> 'r ProfViolReplPolicy" where
  "pv_replaced T i r0 =
     (let r = r0\<lparr>pv_base := rp_replaced T i (pv_base r0)\<rparr>;
          t = pv_accTimes r i;
          r1 = (if pv_replCycle r < max (acc_read t) (acc_write t)
                then r\<lparr>pv_profAAE := pv_profAAE r + 1\<rparr>
                else r\<lparr>pv_profNoViolEv := pv_profNoViolEv r + 1\<rparr>)
      in r1\<lparr>pv_accTimes := (pv_accTimes r1)(i := \<lparr>acc_read = 0, acc_write = 0\<rparr>)\<rparr>)"

definition pv_policy :: "'r ReplPolicy \<Rightarrow> 'r ProfViolReplPolicy ReplPolicy" where
  "pv_policy T =
     \<lparr>rp_update = pv_update T, rp_replaced = pv_replaced T,
      rp_rankCands = (\<lambda>ns vl req cands r. do {
        (best, b) \<leftarrow> rp_rankCands T ns vl req cands (pv_base r);
        Some (best, r\<lparr>pv_base := b\<rparr>)
      })\<rparr>"

section \<open>The contract of a policy\<close>

text \<open>
  \<open>ready\<close>: no replacement is in progress; \<open>pending\<close>: a victim has been chosen and \<open>replaced\<close> not
  yet called. \<open>update\<close> may come in between.
\<close>

locale repl_policy =
  fixes rp :: "'r ReplPolicy"
    and ready :: "'r \<Rightarrow> bool"
    and pending :: "'r \<Rightarrow> bool"
    and cands_ok :: "nat list \<Rightarrow> bool"
  assumes rank_member: "ready r \<Longrightarrow> cands_ok cands \<Longrightarrow>
      rp_rankCands rp ns vl req cands r = Some (best, r') \<Longrightarrow> best \<in> set cands"
    and rank_pending: "ready r \<Longrightarrow> cands_ok cands \<Longrightarrow>
      rp_rankCands rp ns vl req cands r = Some (best, r') \<Longrightarrow> pending r'"
    and update_ready: "ready r \<Longrightarrow> rp_update rp i req r = Some r' \<Longrightarrow> ready r'"
    and update_pending: "pending r \<Longrightarrow> rp_update rp i req r = Some r' \<Longrightarrow> pending r'"
    and replaced_ready: "pending r \<Longrightarrow> ready (rp_replaced rp i r)"

locale total_repl_policy = repl_policy +
  assumes rank_total: "ready r \<Longrightarrow> cands_ok cands \<Longrightarrow>
      \<exists>best r'. rp_rankCands rp ns vl req cands r = Some (best, r')"
    and update_total: "IsGet (req_type req) \<Longrightarrow> \<exists>r'. rp_update rp i req r = Some r'"

section \<open>LRU: the victim has the least score\<close>

lemma lru_rank_loop_cases:
  "(lru_rank_loop score cands bc bs = bc \<and> (\<forall>c\<in>set cands. bs \<le> trunc32 (score c))) \<or>
   (lru_rank_loop score cands bc bs \<in> set cands \<and>
    trunc32 (score (lru_rank_loop score cands bc bs)) < bs \<and>
    (\<forall>c\<in>set cands. trunc32 (score (lru_rank_loop score cands bc bs)) \<le> trunc32 (score c)))"
proof (induction cands arbitrary: bc bs)
  case Nil
  then show ?case by simp
next
  case (Cons c cands)
  show ?case
  proof (cases "trunc32 (score c) < bs")
    case True
    then show ?thesis using Cons.IH [of c "trunc32 (score c)"] by (auto simp: Let_def)
  next
    case False
    then show ?thesis using Cons.IH [of bc bs] by (auto simp: Let_def)
  qed
qed

lemma lru_rank_least:
  assumes "cands \<noteq> []" and "lru_rank sa ns vl req cands r = Some (best, r')"
  shows "best \<in> set cands"
    and "\<forall>c\<in>set cands. trunc32 (lru_score sa ns vl r best) \<le> trunc32 (lru_score sa ns vl r c)"
    and "r' = r"
proof -
  let ?f = "lru_score sa ns vl r"
  have eq: "best = lru_rank_loop ?f cands (2 ^ 32 - 1) (2 ^ 64 - 1)" and r: "r' = r"
    using assms(2) by (auto simp: lru_rank_def)
  have "\<not> (\<forall>c\<in>set cands. 2 ^ 64 - 1 \<le> trunc32 (?f c))"
  proof -
    have "trunc32 (?f (hd cands)) < 2 ^ 64 - 1"
      using trunc32_less [of "?f (hd cands)"] by simp
    then show ?thesis using assms(1) by (meson hd_in_set leD)
  qed
  then show "best \<in> set cands" and
    "\<forall>c\<in>set cands. trunc32 (?f best) \<le> trunc32 (?f c)"
    using lru_rank_loop_cases [of ?f cands "2 ^ 32 - 1" "2 ^ 64 - 1"] unfolding eq by blast+
  show "r' = r" by (rule r)
qed

interpretation lru: total_repl_policy "lru_policy sa" "\<lambda>_. True" "\<lambda>_. True" "\<lambda>cands. cands \<noteq> []"
  by unfold_locales (auto simp: lru_policy_def lru_update_def lru_rank_def dest: lru_rank_least(1)
                          intro: lru_rank_least(1) [where sa = sa])

text \<open>
  Position of the last access to a line in a sequence of accesses, counted from 1; 0 if there was
  none. \<open>lru_run\<close> is the policy after the sequence.
\<close>

fun lru_run :: "MemReq \<Rightarrow> nat list \<Rightarrow> LRUReplPolicy \<Rightarrow> LRUReplPolicy option" where
  "lru_run req [] r = Some r"
| "lru_run req (x # xs) r = do { r' \<leftarrow> lru_update x req r; lru_run req xs r' }"

fun last_use :: "nat list \<Rightarrow> nat \<Rightarrow> nat" where
  "last_use [] c = 0"
| "last_use (x # xs) c =
     (if last_use xs c > 0 then last_use xs c + 1 else if x = c then 1 else 0)"

lemma last_use_le: "last_use xs c \<le> length xs"
  by (induction xs) auto

lemma lru_run_array:
  assumes "lru_timestamp r + length xs < 2 ^ 64" and "0 < lru_timestamp r"
  shows "\<exists>r'. lru_run req xs r = Some r' \<and> lru_timestamp r' = lru_timestamp r + length xs \<and>
     (\<forall>c. lru_array r' c = (if last_use xs c > 0 then lru_timestamp r + last_use xs c - 1
                           else lru_array r c))"
  using assms
proof (induction xs arbitrary: r)
  case Nil
  then show ?case by simp
next
  case (Cons x xs)
  define r1 where "r1 = r\<lparr>lru_array := (lru_array r)(x := lru_timestamp r),
                           lru_timestamp := trunc64 (lru_timestamp r + 1)\<rparr>"
  have ts: "lru_timestamp r1 = lru_timestamp r + 1" using Cons.prems by (simp add: r1_def)
  then obtain r' where r': "lru_run req xs r1 = Some r'"
      "lru_timestamp r' = lru_timestamp r1 + length xs"
      "\<forall>c. lru_array r' c = (if last_use xs c > 0 then lru_timestamp r1 + last_use xs c - 1
                             else lru_array r1 c)"
    using Cons.IH [of r1] Cons.prems by auto
  have "lru_run req (x # xs) r = Some r'" using r'(1) by (simp add: lru_update_def r1_def)
  moreover have "lru_array r' c = (if last_use (x # xs) c > 0
      then lru_timestamp r + last_use (x # xs) c - 1 else lru_array r c)" for c
    using r'(3) ts by (auto simp: r1_def)
  ultimately show ?case using r'(2) ts by auto
qed

lemma lru_run_new:
  assumes "length xs < 2 ^ 32"
  shows "\<exists>r. lru_run req xs lru_new = Some r \<and> (\<forall>c. lru_array r c = last_use xs c)"
  using lru_run_array [of lru_new xs req] assms by (fastforce simp: lru_new_def)

lemma lru_score_private: "lru_score sa (\<lambda>_. 0) (\<lambda>_. True) r c = trunc64 (lru_array r c)"
  by (simp add: lru_score_def)

section \<open>Tree LRU\<close>

declare tlru_walk.simps [simp del]

lemma range_max_ge: "lo \<le> i \<Longrightarrow> i < hi \<Longrightarrow> ts i \<le> range_max ts lo hi"
proof -
  have "(\<forall>i\<in>set xs. ts i \<le> fold (\<lambda>i t. if t > ts i then t else ts i) xs a) \<and>
        a \<le> fold (\<lambda>i t. if t > ts i then t else ts i) xs a" for xs a
  proof (induction xs arbitrary: a)
    case (Cons x xs)
    then show ?case by (auto simp: not_less) (meson dual_order.trans less_imp_le_nat)+
  qed simp
  then show "lo \<le> i \<Longrightarrow> i < hi \<Longrightarrow> ts i \<le> range_max ts lo hi"
    by (auto simp: range_max_def)
qed

lemma range_max_less: "0 < b \<Longrightarrow> \<forall>i. lo \<le> i \<and> i < hi \<longrightarrow> ts i < b \<Longrightarrow> range_max ts lo hi < b"
proof -
  have "0 < b \<Longrightarrow> \<forall>i\<in>set xs. ts i < b \<Longrightarrow> a < b \<Longrightarrow>
        fold (\<lambda>i t. if t > ts i then t else ts i) xs a < b" for xs a
    by (induction xs arbitrary: a) auto
  then show "0 < b \<Longrightarrow> \<forall>i. lo \<le> i \<and> i < hi \<longrightarrow> ts i < b \<Longrightarrow> range_max ts lo hi < b"
    by (auto simp: range_max_def)
qed

lemma tlru_walk_range: "start < stop \<Longrightarrow> start \<le> tlru_walk ts start stop \<and> tlru_walk ts start stop < stop"
proof (induction ts start stop rule: tlru_walk.induct)
  case (1 ts start stop)
  show ?case
  proof (cases "stop - start > 1")
    case True
    define pivot where "pivot = start + (stop - start) div 2"
    have p: "start < pivot" "pivot < stop" using True by (auto simp: pivot_def)
    show ?thesis
      using "1.IH" [OF True pivot_def refl refl] p True
      by (subst (1 2) tlru_walk.simps) (auto simp: Let_def pivot_def [symmetric])
  next
    case False
    with "1.prems" show ?thesis by (subst (1 2) tlru_walk.simps) simp
  qed
qed

text \<open>The walk never ends on the entry with the unique newest timestamp.\<close>

lemma tlru_walk_avoids_newest:
  assumes "start \<le> m" "m < stop" "stop - start > 1"
    and newest: "\<forall>i. start \<le> i \<and> i < stop \<and> i \<noteq> m \<longrightarrow> ts i < ts m"
  shows "tlru_walk ts start stop \<noteq> m"
proof -
  define pivot where "pivot = start + (stop - start) div 2"
  have p: "start < pivot" "pivot < stop" using assms(3) by (auto simp: pivot_def)
  have pos: "0 < ts m"
    using newest assms(1-3) by (cases "m = start") (auto intro: gr_zeroI dest: spec [of _ "start"] spec [of _ "Suc start"])
  show ?thesis
  proof (cases "m < pivot")
    case True
    have "range_max ts pivot stop < ts m"
      by (rule range_max_less) (use pos newest True p in auto)
    also have "ts m \<le> range_max ts start pivot" by (rule range_max_ge) (use assms(1) True in auto)
    finally have "tlru_walk ts start stop = tlru_walk ts pivot stop"
      using assms(3) by (subst tlru_walk.simps) (simp add: Let_def pivot_def [symmetric])
    then show ?thesis using tlru_walk_range [of pivot stop ts] p True by auto
  next
    case False
    have "range_max ts start pivot < ts m"
      by (rule range_max_less) (use pos newest False p in auto)
    also have "ts m \<le> range_max ts pivot stop" by (rule range_max_ge) (use assms(2) False in auto)
    finally have "tlru_walk ts start stop = tlru_walk ts start pivot"
      using assms(3) by (subst tlru_walk.simps) (simp add: Let_def pivot_def [symmetric])
    then show ?thesis using tlru_walk_range [of start pivot ts] p False by auto
  qed
qed

section \<open>NRU\<close>

definition nru_values_ok :: "NRUReplPolicy \<Rightarrow> bool" where
  "nru_values_ok r \<longleftrightarrow> (\<forall>i. nru_array r i \<le> 3)"

definition nru_ready :: "NRUReplPolicy \<Rightarrow> bool" where
  "nru_ready r \<longleftrightarrow> nru_values_ok r \<and> nru_candVal r = 2 ^ 20 \<and> nru_candIdx r = 0"

lemma or_2_le_3: "(a::nat) \<le> 3 \<Longrightarrow> a OR 2 \<le> 3"
proof -
  assume "a \<le> 3"
  then consider "a = 0" | "a = 1" | "a = 2" | "a = 3" by linarith
  then show ?thesis by cases auto
qed

lemma half_of_le_3: "(a::nat) \<le> 3 \<Longrightarrow> a div 2 < 2"
  by presburger

lemma nru_update_values:
  assumes "nru_values_ok r" and u: "nru_update i req r = Some r'"
  shows "nru_values_ok r'"
proof -
  have arr: "((nru_array r)(i := nru_array r i OR 2)) j \<le> 3" for j
    using assms(1) by (simp add: nru_values_ok_def or_2_le_3)
  have "((nru_array r)(i := nru_array r i OR 2)) j div 2 \<le> 3" for j
    using half_of_le_3 [OF arr [of j]] by simp
  with arr show ?thesis
    using u unfolding nru_update_def Let_def nru_values_ok_def by (auto split: if_splits)
qed

lemma nru_update_frame:
  "nru_update i req r = Some r' \<Longrightarrow>
     nru_candVal r' = nru_candVal r \<and> nru_candIdx r' = nru_candIdx r \<and>
     nru_candArray r' = nru_candArray r \<and> nru_numLines r' = nru_numLines r"
  by (auto simp: nru_update_def Let_def split: if_splits)

text \<open>What the candidate buffer holds after the candidates \<open>done\<close> have been recorded.\<close>

definition nru_recorded :: "NRUReplPolicy \<Rightarrow> nat set \<Rightarrow> NRUReplPolicy \<Rightarrow> bool" where
  "nru_recorded r0 seen r \<longleftrightarrow>
     nru_array r = nru_array r0 \<and> nru_youngLines r = nru_youngLines r0 \<and>
     nru_candIdx r \<le> card seen \<and>
     (\<forall>j<nru_candIdx r. nru_candArray r j \<in> seen \<and> nru_array r (nru_candArray r j) = nru_candVal r) \<and>
     (\<forall>c\<in>seen. nru_candVal r \<le> nru_array r c) \<and>
     (if seen = {} then nru_candVal r = 2 ^ 20 else nru_candIdx r > 0)"

lemma nru_recordCandidate_recorded:
  assumes "nru_recorded r0 seen r" "nru_values_ok r0" "finite seen" "c \<notin> seen"
    and "nru_recordCandidate c r = Some r'"
  shows "nru_recorded r0 (insert c seen) r'"
proof -
  have v: "nru_array r c \<le> 3" using assms(1,2) by (simp add: nru_recorded_def nru_values_ok_def)
  consider "nru_array r c < nru_candVal r" | "nru_array r c = nru_candVal r" | "nru_array r c > nru_candVal r"
    by linarith
  then show ?thesis
  proof cases
    case 1
    then show ?thesis using assms
      by (auto simp: nru_recorded_def nru_recordCandidate_def Let_def card_insert_if split: if_splits)
  next
    case 2
    then have "seen \<noteq> {}" using assms(1) v by (auto simp: nru_recorded_def)
    with 2 show ?thesis using assms
      by (auto simp: nru_recorded_def nru_recordCandidate_def Let_def less_Suc_eq card_insert_if)
  next
    case 3
    then have "seen \<noteq> {}" using assms(1) v by (auto simp: nru_recorded_def)
    with 3 show ?thesis using assms
      by (auto simp: nru_recorded_def nru_recordCandidate_def Let_def card_insert_if)
  qed
qed

lemma nru_record_all_recorded:
  assumes "nru_recorded r0 seen r" "nru_values_ok r0" "finite seen" "distinct cands"
    "set cands \<inter> seen = {}"
  shows "\<exists>r'. record_all nru_recordCandidate cands r = Some r' \<and> nru_recorded r0 (seen \<union> set cands) r'"
  using assms
proof (induction cands arbitrary: seen r)
  case Nil
  then show ?case by simp
next
  case (Cons c cands)
  have "\<exists>r1. nru_recordCandidate c r = Some r1"
    by (simp add: nru_recordCandidate_def Let_def)
  then obtain r1 where r1: "nru_recordCandidate c r = Some r1" by blast
  have "nru_recorded r0 (insert c seen) r1"
    by (rule nru_recordCandidate_recorded [OF Cons.prems(1-3) _ r1]) (use Cons.prems(5) in auto)
  then obtain r' where "record_all nru_recordCandidate cands r1 = Some r'"
      "nru_recorded r0 (insert c seen \<union> set cands) r'"
    using Cons.IH [of "insert c seen" r1] Cons.prems by auto
  then show ?case using r1 by (auto simp: insert_commute)
qed

lemma nru_rank_spec:
  assumes "nru_ready r" "cands \<noteq> []" "distinct cands"
  shows "\<exists>best r'. rp_rankCands nru_policy ns vl req cands r = Some (best, r') \<and>
           best \<in> set cands \<and> (\<forall>c\<in>set cands. nru_array r best \<le> nru_array r c) \<and>
           nru_array r' = nru_array r \<and> nru_candIdx r' \<le> length cands"
proof -
  have "nru_recorded r {} r" using assms(1) by (simp add: nru_recorded_def nru_ready_def)
  then obtain r' where r': "record_all nru_recordCandidate cands r = Some r'"
      and rec: "nru_recorded r (set cands) r'"
    using nru_record_all_recorded [of r "{}" r cands] assms by (auto simp: nru_ready_def)
  let ?best = "nru_candArray r' (nru_youngLines r' mod nru_candIdx r')"
  have idx: "nru_candIdx r' > 0" using rec assms(2) by (auto simp: nru_recorded_def split: if_splits)
  then have "?best \<in> set cands" "nru_array r' ?best = nru_candVal r'"
    using rec by (auto simp: nru_recorded_def)
  moreover have "rp_rankCands nru_policy ns vl req cands r = Some (?best, r')"
    using r' idx by (simp add: nru_policy_def legacy_rank_def nru_getBestCandidate_def)
  ultimately show ?thesis
    using rec assms(3) by (auto simp: nru_recorded_def distinct_card)
qed

interpretation nru: total_repl_policy nru_policy nru_ready nru_values_ok
  "\<lambda>cands. cands \<noteq> [] \<and> distinct cands"
proof (unfold_locales, goal_cases)
  case (1 r cands ns vl req best r')
  then show ?case using nru_rank_spec [of r cands ns vl req] by auto
next
  case (2 r cands ns vl req best r')
  then show ?case using nru_rank_spec [of r cands ns vl req]
    by (auto simp: nru_ready_def nru_values_ok_def)
next
  case (3 r i req r')
  then show ?case using nru_update_values [of r i req r'] nru_update_frame [of i req r r']
    by (simp add: nru_policy_def nru_ready_def)
next
  case (4 r i req r')
  then show ?case using nru_update_values [of r i req r'] by (simp add: nru_policy_def)
next
  case (5 r i)
  then show ?case by (simp add: nru_policy_def nru_ready_def nru_replaced_def nru_values_ok_def)
next
  case (6 r cands ns vl req)
  then show ?case using nru_rank_spec [of r cands ns vl req] by auto
next
  case (7 req i r)
  then show ?case by (simp add: nru_policy_def nru_update_def Let_def)
qed

text \<open>
  \<open>youngLines\<close> is an upper bound on the number of lines whose young bit is set: \<open>replaced\<close> clears a
  line without lowering the counter.
\<close>

definition nru_young :: "NRUReplPolicy \<Rightarrow> nat set" where
  "nru_young r = {i. i < nru_numLines r \<and> nru_array r i \<ge> 2}"

definition nru_young_inv :: "NRUReplPolicy \<Rightarrow> bool" where
  "nru_young_inv r \<longleftrightarrow> nru_values_ok r \<and> card (nru_young r) \<le> nru_youngLines r \<and>
     (nru_youngLines r < nru_numLines r div 2 \<or> nru_youngLines r = 0) \<and> nru_numLines r < 2 ^ 32"

lemma finite_nru_young [simp]: "finite (nru_young r)"
  by (simp add: nru_young_def)

lemma nru_young_count:
  assumes "a \<le> 3" "y + 1 < 2 ^ 32"
  shows "trunc32 (y + 1 + (2 ^ 32 - a div 2)) = (if a \<ge> 2 then y else y + 1)"
proof (cases "a \<ge> 2")
  case True
  then have "a div 2 = 1" using assms(1) by auto
  then have "y + 1 + (2 ^ 32 - a div 2) = y + 2 ^ 32" by simp
  then show ?thesis using True assms(2) by (simp add: trunc32_def)
next
  case False
  then have "a div 2 = 0" by simp
  then have "y + 1 + (2 ^ 32 - a div 2) = (y + 1) + 2 ^ 32" by simp
  then show ?thesis using False assms(2) by (simp only: trunc32_def mod_add_self2) simp
qed

lemma nru_update_young_inv:
  assumes inv: "nru_young_inv r" and i: "i < nru_numLines r" and u: "nru_update i req r = Some r'"
  shows "nru_young_inv r'"
proof -
  have a: "nru_array r i \<le> 3" using inv by (simp add: nru_young_inv_def nru_values_ok_def)
  have y: "nru_youngLines r + 1 < 2 ^ 32" using inv by (auto simp: nru_young_inv_def)
  define young where "young = trunc32 (nru_youngLines r + 1 + (2 ^ 32 - nru_array r i div 2))"
  have young: "young = (if nru_array r i \<ge> 2 then nru_youngLines r else nru_youngLines r + 1)"
    using nru_young_count [OF a y] by (simp add: young_def)
  have vals: "nru_values_ok r'"
    using nru_update_values [OF _ u] inv by (simp add: nru_young_inv_def)
  show ?thesis
  proof (cases "young \<ge> nru_numLines r div 2")
    case True
    then have r': "r' = r\<lparr>nru_array := (\<lambda>j. if j < nru_numLines r
          then ((nru_array r)(i := nru_array r i OR 2)) j div 2
          else ((nru_array r)(i := nru_array r i OR 2)) j), nru_youngLines := 0\<rparr>"
      using u by (simp add: nru_update_def young_def Let_def)
    have "((nru_array r)(i := nru_array r i OR 2)) j \<le> 3" for j
      using inv a by (simp add: nru_young_inv_def nru_values_ok_def or_2_le_3)
    then have "((nru_array r)(i := nru_array r i OR 2)) j div 2 < 2" for j
      by (rule half_of_le_3)
    then have "nru_young r' = {}" unfolding nru_young_def r' by (auto simp: not_le)
    then show ?thesis using vals inv by (simp add: nru_young_inv_def r')
  next
    case False
    then have r': "r' = r\<lparr>nru_array := (nru_array r)(i := nru_array r i OR 2), nru_youngLines := young\<rparr>"
      using u by (simp add: nru_update_def young_def Let_def)
    have "nru_young r' \<subseteq> insert i (nru_young r)" by (auto simp: nru_young_def r')
    then have "card (nru_young r') \<le> card (insert i (nru_young r))" by (intro card_mono) auto
    also have "\<dots> \<le> young"
      using inv i by (auto simp: young nru_young_inv_def card_insert_if nru_young_def)
    finally show ?thesis using vals inv False by (auto simp: nru_young_inv_def r')
  qed
qed

lemma nru_replaced_young_inv: "nru_young_inv r \<Longrightarrow> nru_young_inv (nru_replaced i r)"
proof -
  assume inv: "nru_young_inv r"
  have "nru_young (nru_replaced i r) \<subseteq> nru_young r"
    by (auto simp: nru_young_def nru_replaced_def split: if_splits)
  then have "card (nru_young (nru_replaced i r)) \<le> card (nru_young r)" by (intro card_mono) auto
  then show ?thesis using inv by (auto simp: nru_young_inv_def nru_replaced_def nru_values_ok_def)
qed

section \<open>Random\<close>

lemma rand_record_all:
  "\<exists>r'. record_all rand_recordCandidate cands r = Some r' \<and>
     rand_candIdx r' = rand_candIdx r + length cands \<and> rand_numCands r' = rand_numCands r \<and>
     rand_rnd r' = rand_rnd r \<and>
     (\<forall>j<rand_candIdx r. rand_candArray r' j = rand_candArray r j) \<and>
     (\<forall>j<length cands. rand_candArray r' (rand_candIdx r + j) = cands ! j)"
proof (induction cands arbitrary: r)
  case Nil
  then show ?case by simp
next
  case (Cons c cands)
  define r1 where "r1 = r\<lparr>rand_candArray := (rand_candArray r)(rand_candIdx r := c),
                           rand_candIdx := rand_candIdx r + 1\<rparr>"
  have r1: "rand_recordCandidate c r = Some r1" by (simp add: rand_recordCandidate_def r1_def)
  obtain r' where r': "record_all rand_recordCandidate cands r1 = Some r'"
     "rand_candIdx r' = rand_candIdx r1 + length cands" "rand_numCands r' = rand_numCands r1"
     "rand_rnd r' = rand_rnd r1"
     "\<forall>j<rand_candIdx r1. rand_candArray r' j = rand_candArray r1 j"
     "\<forall>j<length cands. rand_candArray r' (rand_candIdx r1 + j) = cands ! j"
    using Cons.IH [of r1] by auto
  have "rand_candArray r' (rand_candIdx r + j) = (c # cands) ! j" if "j < length (c # cands)" for j
  proof (cases j)
    case 0
    then show ?thesis using r'(5) by (simp add: r1_def)
  next
    case (Suc k)
    then show ?thesis using r'(6) that by (auto simp: r1_def)
  qed
  then show ?case using r1 r' by (auto simp: r1_def)
qed

lemma rand_rank_member:
  assumes "rand_candIdx r = 0" "cands \<noteq> []" "length cands < 2 ^ 32"
    and "rp_rankCands rand_policy ns vl req cands r = Some (best, r')"
  shows "best \<in> set cands" and "rand_numCands r' = rand_numCands r"
proof -
  obtain r1 where r1: "record_all rand_recordCandidate cands r = Some r1"
     "rand_candIdx r1 = length cands" "rand_numCands r1 = rand_numCands r"
     "\<forall>j<length cands. rand_candArray r1 j = cands ! j"
    using rand_record_all [of cands r] assms(1) by auto
  obtain ix rnd where n: "rand_numCands r1 = length cands"
     and d: "mt_randIntN (of_nat (dec32 (rand_numCands r1))) (rand_rnd r1) = Some (ix, rnd)"
     and b: "best = rand_candArray r1 (unat ix)" "r' = r1\<lparr>rand_rnd := rnd\<rparr>"
    using assms(4) r1(1,2)
    by (auto simp: rand_policy_def legacy_rank_def rand_getBestCandidate_def
             Option.bind_eq_Some_conv)
  have len: "0 < length cands" using assms(2) by simp
  have "ix \<le> of_nat (length cands - 1)"
    using mt_draw_bound_aux [OF d [unfolded mt_randIntN_def]] n dec32_pos [OF len assms(3)] by simp
  then have "unat ix \<le> unat (of_nat (length cands - 1) :: u64)" by (simp only: word_le_nat_alt)
  moreover have "unat (of_nat (length cands - 1) :: u64) = length cands - 1"
    using assms(3) by (simp add: unat_of_nat)
  ultimately have "unat ix < length cands" using len by linarith
  then show "best \<in> set cands" using b r1(4) by simp
  show "rand_numCands r' = rand_numCands r" using b r1(3) by simp
qed

interpretation rand: repl_policy rand_policy "\<lambda>r. rand_candIdx r = 0" "\<lambda>_. True"
  "\<lambda>cands. cands \<noteq> [] \<and> length cands < 2 ^ 32"
proof (unfold_locales, goal_cases)
  case (1 r cands ns vl req best r')
  then show ?case using rand_rank_member(1) [of r cands ns vl req best r'] by blast
qed (auto simp: rand_policy_def rand_update_def rand_replaced_def)

section \<open>LFU\<close>

text \<open>
  After some candidates have been recorded, the best rank is that of the best candidate, and no
  recorded candidate is of a better class: invalid lines come first, then lines without sharers.
\<close>

definition lfu_class :: "(nat \<Rightarrow> nat) \<Rightarrow> (nat \<Rightarrow> bool) \<Rightarrow> nat \<Rightarrow> nat" where
  "lfu_class ns vl c = (if vl c then 2 else 0) + (if ns c > 0 then 1 else 0)"

definition lfu_recorded ::
  "(nat \<Rightarrow> nat) \<Rightarrow> (nat \<Rightarrow> bool) \<Rightarrow> LFUReplPolicy \<Rightarrow> nat set \<Rightarrow> LFUReplPolicy \<Rightarrow> bool" where
  "lfu_recorded ns vl r0 seen r \<longleftrightarrow>
     lfu_array r = lfu_array r0 \<and> lfu_timestamp r = lfu_timestamp r0 \<and>
     (case lfu_bestCandidate r of
        None \<Rightarrow> seen = {}
      | Some b \<Rightarrow> b \<in> seen \<and>
          lfu_bestRank r = \<lparr>rank_lfuInfo = lfu_array r b, rank_sharers = ns b, rank_valid = vl b\<rparr> \<and>
          (\<forall>c\<in>seen. lfu_class ns vl b \<le> lfu_class ns vl c))"

lemma lfu_record_step:
  assumes "lfu_recorded ns vl r0 seen r"
  shows "\<exists>r'. lfu_recordCandidate ns vl c r = Some r' \<and> lfu_recorded ns vl r0 (insert c seen) r'"
proof (cases "lfu_bestCandidate r")
  case None
  then show ?thesis using assms
    by (auto simp: lfu_recorded_def lfu_recordCandidate_def Let_def)
next
  case (Some b)
  then have b: "b \<in> seen" "\<forall>c\<in>seen. lfu_class ns vl b \<le> lfu_class ns vl c"
    "lfu_bestRank r = \<lparr>rank_lfuInfo = lfu_array r b, rank_sharers = ns b, rank_valid = vl b\<rparr>"
    "lfu_array r = lfu_array r0" "lfu_timestamp r = lfu_timestamp r0"
    using assms by (auto simp: lfu_recorded_def)
  let ?k = "\<lparr>rank_lfuInfo = lfu_array r c, rank_sharers = ns c, rank_valid = vl c\<rparr>"
  show ?thesis
  proof (cases "rank_lessThan ?k (lfu_bestRank r) (lfu_timestamp r)")
    case True
    then have "lfu_class ns vl c \<le> lfu_class ns vl b"
      unfolding b(3) by (auto simp: rank_lessThan_def lfu_class_def split: if_splits)
    then have "\<forall>d\<in>seen. lfu_class ns vl c \<le> lfu_class ns vl d" using b(2) by force
    then show ?thesis using True b(4,5)
      by (auto simp: lfu_recordCandidate_def Let_def lfu_recorded_def)
  next
    case False
    then have "lfu_class ns vl b \<le> lfu_class ns vl c"
      unfolding b(3) by (auto simp: rank_lessThan_def lfu_class_def split: if_splits)
    then show ?thesis using False Some b
      by (auto simp: lfu_recordCandidate_def Let_def lfu_recorded_def)
  qed
qed

lemma lfu_record_all:
  assumes "lfu_recorded ns vl r0 seen r"
  shows "\<exists>r'. record_all (lfu_recordCandidate ns vl) cands r = Some r' \<and>
           lfu_recorded ns vl r0 (seen \<union> set cands) r'"
  using assms
proof (induction cands arbitrary: seen r)
  case Nil
  then show ?case by simp
next
  case (Cons c cands)
  obtain r1 where r1: "lfu_recordCandidate ns vl c r = Some r1"
      "lfu_recorded ns vl r0 (insert c seen) r1"
    using lfu_record_step [OF Cons.prems] by blast
  then show ?case using Cons.IH [OF r1(2)] by auto
qed

lemma lfu_rank_spec:
  assumes "lfu_bestCandidate r = None" "cands \<noteq> []"
  shows "\<exists>best r'. rp_rankCands lfu_policy ns vl req cands r = Some (best, r') \<and>
           best \<in> set cands \<and> (\<forall>c\<in>set cands. lfu_class ns vl best \<le> lfu_class ns vl c)"
proof -
  have "lfu_recorded ns vl r {} r" using assms(1) by (simp add: lfu_recorded_def)
  then obtain r' where r': "record_all (lfu_recordCandidate ns vl) cands r = Some r'"
      "lfu_recorded ns vl r (set cands) r'"
    using lfu_record_all [of ns vl r "{}" r cands] by auto
  then obtain b where "lfu_bestCandidate r' = Some b" "b \<in> set cands"
      "\<forall>c\<in>set cands. lfu_class ns vl b \<le> lfu_class ns vl c"
    using assms(2) by (auto simp: lfu_recorded_def split: option.splits)
  then show ?thesis using r'(1)
    by (simp add: lfu_policy_def legacy_rank_def lfu_getBestCandidate_def)
qed

interpretation lfu: total_repl_policy lfu_policy "\<lambda>r. lfu_bestCandidate r = None" "\<lambda>_. True"
  "\<lambda>cands. cands \<noteq> []"
proof (unfold_locales, goal_cases)
  case (1 r cands ns vl req best r')
  then show ?case using lfu_rank_spec [of r cands ns vl req] by auto
next
  case (6 r cands ns vl req)
  then show ?case using lfu_rank_spec [of r cands ns vl req] by auto
qed (auto simp: lfu_policy_def lfu_update_def lfu_replaced_def Let_def)

section \<open>Profiled policies\<close>

lemma pv_update_base:
  assumes "pv_update T i req r = Some r'"
  shows "\<exists>b. rp_update T i req (pv_base r) = Some b \<and> rp_update T i req b = Some (pv_base r')"
  using assms
  by (auto simp: pv_update_def pv_record_def Let_def bind_assert_if Option.bind_eq_Some_conv
           split: if_splits)

lemma pv_update_replCycle: "pv_update T i req r = Some r' \<Longrightarrow> pv_replCycle r' = pv_replCycle r"
  by (auto simp: pv_update_def pv_record_def Let_def bind_assert_if Option.bind_eq_Some_conv
           split: if_splits)

lemma pv_replaced_replCycle: "pv_replCycle (pv_replaced T i r) = pv_replCycle r"
  by (simp add: pv_replaced_def Let_def)

lemma pv_rank_replCycle:
  "rp_rankCands (pv_policy T) ns vl req cands r = Some (best, r') \<Longrightarrow> pv_replCycle r' = pv_replCycle r"
  by (auto simp: pv_policy_def Option.bind_eq_Some_conv)

context repl_policy
begin

text \<open>Profiling keeps the contract of the policy it extends.\<close>

lemma pv_repl_policy: "repl_policy (pv_policy rp) (\<lambda>r. ready (pv_base r)) (\<lambda>r. pending (pv_base r)) cands_ok"
proof (unfold_locales, goal_cases)
  case (1 r cands ns vl req best r')
  then show ?case
    by (auto simp: pv_policy_def Option.bind_eq_Some_conv intro: rank_member)
next
  case (2 r cands ns vl req best r')
  then show ?case
    by (auto simp: pv_policy_def Option.bind_eq_Some_conv intro: rank_pending)
next
  case (3 r i req r')
  then show ?case using pv_update_base [of rp i req r r'] update_ready
    by (simp add: pv_policy_def) blast
next
  case (4 r i req r')
  then show ?case using pv_update_base [of rp i req r r'] update_pending
    by (simp add: pv_policy_def) blast
next
  case (5 r i)
  then show ?case by (simp add: pv_policy_def pv_replaced_def Let_def replaced_ready)
qed

end

interpretation pv_lru: repl_policy "pv_policy (lru_policy sa)" "\<lambda>_. True" "\<lambda>_. True" "\<lambda>cands. cands \<noteq> []"
  by (rule lru.pv_repl_policy)

section \<open>Reachable NRU states\<close>

inductive nru_reachable :: "nat \<Rightarrow> nat \<Rightarrow> NRUReplPolicy \<Rightarrow> bool" for n k where
  nru_start: "n < 2 ^ 32 \<Longrightarrow> nru_reachable n k (nru_new n k)"
| nru_touch: "nru_reachable n k r \<Longrightarrow> i < n \<Longrightarrow> nru_update i req r = Some r' \<Longrightarrow> nru_reachable n k r'"
| nru_rank: "nru_reachable n k r \<Longrightarrow> rp_rankCands nru_policy ns vl req cands r = Some (best, r') \<Longrightarrow>
    nru_reachable n k r'"
| nru_evict: "nru_reachable n k r \<Longrightarrow> nru_reachable n k (nru_replaced i r)"

lemma nru_record_frame:
  "record_all nru_recordCandidate cands r = Some r' \<Longrightarrow>
   nru_array r' = nru_array r \<and> nru_youngLines r' = nru_youngLines r \<and> nru_numLines r' = nru_numLines r"
  by (induction cands arbitrary: r)
     (fastforce simp: nru_recordCandidate_def Let_def Option.bind_eq_Some_conv split: if_splits)+

lemma nru_rank_frame:
  "rp_rankCands nru_policy ns vl req cands r = Some (best, r') \<Longrightarrow>
   nru_array r' = nru_array r \<and> nru_youngLines r' = nru_youngLines r \<and> nru_numLines r' = nru_numLines r"
  by (auto simp: nru_policy_def legacy_rank_def nru_getBestCandidate_def Option.bind_eq_Some_conv dest: nru_record_frame)

lemma nru_reachable_inv: "nru_reachable n k r \<Longrightarrow> nru_young_inv r \<and> nru_numLines r = n"
proof (induction rule: nru_reachable.induct)
  case nru_start
  then show ?case by (simp add: nru_young_inv_def nru_new_def nru_values_ok_def nru_young_def)
next
  case (nru_touch r i req r')
  then show ?case using nru_update_young_inv nru_update_frame by blast
next
  case (nru_rank r ns vl req cands best r')
  have "nru_young r' = nru_young r" using nru_rank_frame [OF nru_rank.hyps(2)] by (simp add: nru_young_def)
  then show ?case using nru_rank nru_rank_frame [OF nru_rank.hyps(2)] by (auto simp: nru_young_inv_def nru_values_ok_def)
next
  case (nru_evict r i)
  then show ?case using nru_replaced_young_inv by (simp add: nru_replaced_def)
qed

section \<open>Properties\<close>

text \<open>
  C12: after any sequence of fewer than 2^32 accesses to a fresh LRU policy, ranking valid lines
  returns, and the victim is a candidate whose last access is the oldest.
\<close>

theorem lru_evicts_least_recent:
  assumes "length xs < 2 ^ 32" and "cands \<noteq> []"
  shows "\<exists>r best. lru_run req xs lru_new = Some r \<and>
    lru_rank sa (\<lambda>_. 0) (\<lambda>_. True) rq cands r = Some (best, r) \<and> best \<in> set cands \<and>
    (\<forall>c\<in>set cands. last_use xs best \<le> last_use xs c)"
proof -
  obtain r where r: "lru_run req xs lru_new = Some r" "\<forall>c. lru_array r c = last_use xs c"
    using lru_run_new [OF assms(1)] by blast
  have small: "trunc32 (lru_score sa (\<lambda>_. 0) (\<lambda>_. True) r c) = last_use xs c" for c
    using last_use_le [of xs c] assms(1) r(2) by (simp add: lru_score_private)
  obtain best where b: "lru_rank sa (\<lambda>_. 0) (\<lambda>_. True) rq cands r = Some (best, r)" by (simp add: lru_rank_def)
  show ?thesis using r(1) b lru_rank_least [OF assms(2) b] small by auto
qed

theorem lru_evicts_least_recent_witness:
  "\<exists>r best. lru_run \<lparr>req_lineAddr = 1, req_type = GETS, req_childId = 0, req_state = Outside 0, req_cycle = 0,
      req_childLock = None, req_initialState = I, req_srcId = 0, req_flags = 0\<rparr> [4, 5, 4, 6] lru_new = Some r \<and>
    lru_rank True (\<lambda>_. 0) (\<lambda>_. True) \<lparr>req_lineAddr = 1, req_type = GETS, req_childId = 0, req_state = Outside 0,
      req_cycle = 0, req_childLock = None, req_initialState = I, req_srcId = 0, req_flags = 0\<rparr> [4, 5, 6] r = Some (best, r) \<and>
    best \<in> set [4, 5, 6] \<and> (\<forall>c\<in>set [4, 5, 6]. last_use [4, 5, 4, 6] best \<le> last_use [4, 5, 4, 6] c)"
  by (rule lru_evicts_least_recent) simp_all

text \<open>
  C13: the scores of the LRU ranking are truncated to 32 bits. Of two valid lines the more recently
  used one is evicted as soon as the low half of its timestamp is the smaller one, that is after the
  timestamp counter has passed 2^32.
\<close>

theorem lru_truncation_evicts_newest:
  assumes "lru_array r i < lru_array r j" "lru_array r j < 2 ^ 64"
    and "trunc32 (lru_array r j) < trunc32 (lru_array r i)"
  shows "lru_rank sa (\<lambda>_. 0) (\<lambda>_. True) rq [i, j] r = Some (j, r)"
proof -
  have "trunc32 (trunc64 (lru_array r i)) = trunc32 (lru_array r i)" "trunc64 (lru_array r j) = lru_array r j"
    using assms by simp_all
  then show ?thesis using assms(3) trunc32_less [of "lru_array r i"]
    by (simp add: lru_rank_def lru_score_private Let_def)
qed

theorem lru_truncation_evicts_newest_witness:
  "lru_rank False (\<lambda>_. 0) (\<lambda>_. True) \<lparr>req_lineAddr = 1, req_type = GETS, req_childId = 0, req_state = Outside 0,
      req_cycle = 0, req_childLock = None, req_initialState = I, req_srcId = 0, req_flags = 0\<rparr> [0, 1]
    \<lparr>lru_timestamp = 2 ^ 32 + 1, lru_array = (\<lambda>_. 0)(0 := 5, 1 := 2 ^ 32)\<rparr> =
   Some (1, \<lparr>lru_timestamp = 2 ^ 32 + 1, lru_array = (\<lambda>_. 0)(0 := 5, 1 := 2 ^ 32)\<rparr>)"
  by (rule lru_truncation_evicts_newest) (simp_all add: trunc32_def)

text \<open>
  C18: the tree walk of the tree LRU policy ends on a recorded candidate, and never on the one that
  was used last.
\<close>

theorem tlru_spares_newest:
  assumes "tlru_candIdx r = tlru_numCands r" "1 < tlru_numCands r" "m < tlru_numCands r"
    and "\<forall>i<tlru_numCands r. i \<noteq> m \<longrightarrow>
      lru_array r (tlru_candArray r i) < lru_array r (tlru_candArray r m)"
  shows "\<exists>i<tlru_numCands r. tlru_getBestCandidate r = Some (tlru_candArray r i, r) \<and>
    tlru_candArray r i \<noteq> tlru_candArray r m"
proof -
  let ?ts = "\<lambda>i. lru_array r (tlru_candArray r i)"
  define i where "i = tlru_walk ?ts 0 (tlru_numCands r)"
  have i: "i < tlru_numCands r" using tlru_walk_range [of 0 "tlru_numCands r" ?ts] assms(2) by (simp add: i_def)
  have "i \<noteq> m" using tlru_walk_avoids_newest [of 0 m "tlru_numCands r" ?ts] assms by (simp add: i_def)
  then have "?ts i < ?ts m" using assms(4) i by blast
  then have "tlru_candArray r i \<noteq> tlru_candArray r m" by auto
  then show ?thesis using i assms(1) by (auto simp: tlru_getBestCandidate_def i_def Let_def)
qed

theorem tlru_spares_newest_witness:
  "\<exists>i<4. tlru_getBestCandidate \<lparr>lru_timestamp = 5, lru_array = (\<lambda>i. if i = 2 then 4 else if i = 0 then 3 else 1),
       tlru_candArray = (\<lambda>i. i), tlru_numCands = 4, tlru_candIdx = 4\<rparr> =
     Some (i, \<lparr>lru_timestamp = 5, lru_array = (\<lambda>i. if i = 2 then 4 else if i = 0 then 3 else 1),
       tlru_candArray = (\<lambda>i. i), tlru_numCands = 4, tlru_candIdx = 4\<rparr>) \<and> i \<noteq> 2"
  using tlru_spares_newest [of "\<lparr>lru_timestamp = 5, lru_array = (\<lambda>i. if i = 2 then 4 else if i = 0 then 3 else 1),
       tlru_candArray = (\<lambda>i. i), tlru_numCands = 4, tlru_candIdx = 4\<rparr>" 2] by simp

text \<open>
  C14: the NRU ranking of distinct candidates never fails and picks a candidate with the smallest
  age value; no line keeps more than two age bits.
\<close>

theorem nru_rank_minimal:
  assumes "nru_ready r" "cands \<noteq> []" "distinct cands"
  shows "\<exists>best r'. rp_rankCands nru_policy ns vl req cands r = Some (best, r') \<and> best \<in> set cands \<and>
    (\<forall>c\<in>set cands. nru_array r best \<le> nru_array r c) \<and> nru_array r best \<le> 3 \<and> nru_ready (nru_replaced best r')"
proof -
  obtain best r' where b: "rp_rankCands nru_policy ns vl req cands r = Some (best, r')" "best \<in> set cands"
    "\<forall>c\<in>set cands. nru_array r best \<le> nru_array r c" using nru_rank_spec [OF assms] by blast
  have "nru_values_ok r'" using nru.rank_pending [OF assms(1) _ b(1)] assms(2,3) by blast
  then have "nru_ready (nru_replaced best r')" using nru.replaced_ready by (simp add: nru_policy_def)
  then show ?thesis using b assms(1) by (auto simp: nru_ready_def nru_values_ok_def)
qed

theorem nru_rank_minimal_witness:
  "\<exists>best r'. rp_rankCands nru_policy (\<lambda>_. 0) (\<lambda>_. True) \<lparr>req_lineAddr = 1, req_type = GETS, req_childId = 0,
       req_state = Outside 0, req_cycle = 0, req_childLock = None, req_initialState = I, req_srcId = 0, req_flags = 0\<rparr>
     [2, 3] (nru_new 8 4) = Some (best, r') \<and> best \<in> set [2, 3] \<and>
    (\<forall>c\<in>set [2, 3]. nru_array (nru_new 8 4) best \<le> nru_array (nru_new 8 4) c) \<and>
    nru_array (nru_new 8 4) best \<le> 3 \<and> nru_ready (nru_replaced best r')"
  by (rule nru_rank_minimal) (simp_all add: nru_ready_def nru_new_def nru_values_ok_def)

text \<open>
  C15: in every reachable state of the NRU policy the counter \<open>youngLines\<close> bounds the number of young
  lines, and fewer than half of the lines (or none) are young.
\<close>

theorem nru_young_bounded:
  assumes "nru_reachable n k r"
  shows "card (nru_young r) \<le> nru_youngLines r \<and> (nru_youngLines r < n div 2 \<or> nru_youngLines r = 0)"
  using nru_reachable_inv [OF assms] by (auto simp: nru_young_inv_def)

theorem nru_young_bounded_witness:
  "card (nru_young (nru_replaced 1 (nru_new 8 4))) \<le> nru_youngLines (nru_replaced 1 (nru_new 8 4)) \<and>
   (nru_youngLines (nru_replaced 1 (nru_new 8 4)) < 8 div 2 \<or> nru_youngLines (nru_replaced 1 (nru_new 8 4)) = 0)"
  by (rule nru_young_bounded [where k = 4], rule nru_evict, rule nru_start) simp

text \<open>
  C16: the LFU ranking picks a candidate of the best class: lines that are not valid come first, then
  valid lines that no child shares, then shared lines.
\<close>

theorem lfu_rank_class:
  assumes "lfu_bestCandidate r = None" "cands \<noteq> []"
  shows "\<exists>best r'. rp_rankCands lfu_policy ns vl req cands r = Some (best, r') \<and> best \<in> set cands \<and>
    (\<forall>c\<in>set cands. lfu_class ns vl best \<le> lfu_class ns vl c)"
  by (rule lfu_rank_spec [OF assms])

theorem lfu_rank_class_witness:
  "\<exists>best r'. rp_rankCands lfu_policy (\<lambda>i. i) (\<lambda>i. i \<noteq> 3) \<lparr>req_lineAddr = 1, req_type = GETS, req_childId = 0,
       req_state = Outside 0, req_cycle = 0, req_childLock = None, req_initialState = I, req_srcId = 0, req_flags = 0\<rparr>
     [2, 3, 0] lfu_new = Some (best, r') \<and> best \<in> set [2, 3, 0] \<and>
    (\<forall>c\<in>set [2, 3, 0]. lfu_class (\<lambda>i. i) (\<lambda>i. i \<noteq> 3) best \<le> lfu_class (\<lambda>i. i) (\<lambda>i. i \<noteq> 3) c)"
  by (rule lfu_rank_class) (simp_all add: lfu_new_def)

text \<open>
  C17: the random policy returns one of the candidates as soon as the generator yields a number that,
  masked to the bits of the largest index, does not exceed it; the rejection loop then ends.
\<close>

theorem rand_rank_returns_member:
  assumes "rand_candIdx r = 0" "cands \<noteq> []" "length cands < 2 ^ 32" "rand_numCands r = length cands"
    and "fst (mt_randInt (mt_skip k (rand_rnd r))) AND usedBits (of_nat (length cands - 1)) \<le> of_nat (length cands - 1)"
  shows "\<exists>best r'. rp_rankCands rand_policy ns vl req cands r = Some (best, r') \<and> best \<in> set cands \<and>
    rand_candIdx (rand_replaced best r') = 0"
proof -
  obtain r1 where r1: "record_all rand_recordCandidate cands r = Some r1" "rand_candIdx r1 = length cands"
    "rand_numCands r1 = rand_numCands r" "rand_rnd r1 = rand_rnd r"
    using rand_record_all [of cands r] assms(1) by auto
  have d: "dec32 (length cands) = length cands - 1" using assms(2,3) by (intro dec32_pos) auto
  obtain i g where "mt_randIntN (of_nat (length cands - 1)) (rand_rnd r) = Some (i, g)"
    using mt_draw_returns [OF assms(5)] unfolding mt_randIntN_def by auto
  then obtain best r' where b: "rp_rankCands rand_policy ns vl req cands r = Some (best, r')"
    using r1 assms(4) d by (simp add: rand_policy_def legacy_rank_def rand_getBestCandidate_def)
  then show ?thesis using rand_rank_member(1) [OF assms(1-3) b] by (simp add: rand_replaced_def)
qed

theorem rand_rank_returns_member_witness:
  "\<exists>best r'. rp_rankCands rand_policy (\<lambda>_. 0) (\<lambda>_. True) \<lparr>req_lineAddr = 1, req_type = GETS, req_childId = 0,
       req_state = Outside 0, req_cycle = 0, req_childLock = None, req_initialState = I, req_srcId = 0, req_flags = 0\<rparr>
     [7, 8, 9, 10] (rand_new 4 0 \<lparr>mt_state = (\<lambda>_. 0), mt_pNext = 0, mt_left = 0\<rparr>) = Some (best, r') \<and>
     best \<in> set [7, 8, 9, 10] \<and> rand_candIdx (rand_replaced best r') = 0"
proof (rule rand_rank_returns_member [where k = 0])
  have "usedBits (of_nat (length [7, 8, 9, 10 :: nat] - 1)) = 3" by (simp add: usedBits_def Let_def)
  then show "fst (mt_randInt (mt_skip 0 (rand_rnd (rand_new 4 0 \<lparr>mt_state = (\<lambda>_. 0), mt_pNext = 0, mt_left = 0\<rparr>)))) AND
      usedBits (of_nat (length [7, 8, 9, 10 :: nat] - 1)) \<le> of_nat (length [7, 8, 9, 10 :: nat] - 1)"
    by (simp add: word_and_le1)
qed (simp_all add: rand_new_def)

end
