(* ===== verification/Cache_Arrays.thy ===== *)
theory Cache_Arrays
  imports Hash Repl_Policies
begin

text \<open>
  Cache arrays of src/src/cache_arrays.h and src/src/cache_arrays.cpp: the set-associative array
  and the zcache array. The virtual methods form the record \<open>CacheArray\<close>; \<open>lookup\<close> returns
  \<open>None\<close> for the source's -1. The hash family is the function \<open>hf\<close>, the replacement policy the
  record \<open>rp\<close> together with its state. The pointer argument \<open>req\<close> of \<open>lookup\<close> is null when an
  invalidation looks a line up; a null request is never passed on to the policy.

  A zcache walk is bounded by the number of candidates: every expansion adds at least one
  candidate (\<open>z_expand_total\<close>), so the fuel \<open>cands\<close> given by \<open>z_preinsert\<close> is enough, and the
  parent index of a candidate is smaller than its own, so a path from candidate \<open>i\<close> has at most
  \<open>i + 1\<close> entries.
\<close>

section \<open>The interface\<close>

record 'a CacheArray =
  ca_lookup :: "Address \<Rightarrow> MemReq option \<Rightarrow> bool \<Rightarrow> 'a \<Rightarrow> (nat option \<times> 'a) option"
  ca_preinsert :: "(nat \<Rightarrow> nat) \<Rightarrow> (nat \<Rightarrow> bool) \<Rightarrow> Address \<Rightarrow> MemReq \<Rightarrow> 'a \<Rightarrow>
    ((nat \<times> Address) \<times> 'a) option"
  ca_postinsert :: "Address \<Rightarrow> MemReq \<Rightarrow> nat \<Rightarrow> 'a \<Rightarrow> 'a option"

section \<open>Set-associative array\<close>

record 'r SetAssocArray =
  sa_array :: "nat \<Rightarrow> Address"
  sa_rpState :: 'r
  sa_rp :: "'r ReplPolicy"
  sa_hf :: "nat \<Rightarrow> u64 \<Rightarrow> u64"
  sa_numLines :: nat
  sa_numSets :: nat
  sa_assoc :: nat
  sa_setMask :: u32

definition sa_new ::
  "nat \<Rightarrow> nat \<Rightarrow> 'r ReplPolicy \<Rightarrow> 'r \<Rightarrow> (nat \<Rightarrow> u64 \<Rightarrow> u64) \<Rightarrow> 'r SetAssocArray option" where
  "sa_new numLines assoc rp rps hf = do {
     assert_that (assoc \<noteq> 0);
     let numSets = numLines div assoc;
     assert_that (isPow2 (of_nat numSets :: u32));
     Some \<lparr>sa_array = (\<lambda>_. 0), sa_rpState = rps, sa_rp = rp, sa_hf = hf, sa_numLines = numLines,
           sa_numSets = numSets, sa_assoc = assoc, sa_setMask = of_nat numSets - 1\<rparr>
   }"

definition sa_set :: "'r SetAssocArray \<Rightarrow> Address \<Rightarrow> nat" where
  "sa_set a lineAddr = unat (sa_hf a 0 lineAddr AND ucast (sa_setMask a))"

definition sa_ways :: "'r SetAssocArray \<Rightarrow> Address \<Rightarrow> nat list" where
  "sa_ways a lineAddr =
     (let first = sa_set a lineAddr * sa_assoc a in [first..<first + sa_assoc a])"

definition sa_find :: "'r SetAssocArray \<Rightarrow> Address \<Rightarrow> nat option" where
  "sa_find a lineAddr = List.find (\<lambda>i. sa_array a i = lineAddr) (sa_ways a lineAddr)"

definition rp_touch ::
  "'r ReplPolicy \<Rightarrow> nat \<Rightarrow> MemReq option \<Rightarrow> 'r \<Rightarrow> 'r option" where
  "rp_touch rp i req r = (case req of None \<Rightarrow> None | Some q \<Rightarrow> rp_update rp i q r)"

definition sa_lookup ::
  "Address \<Rightarrow> MemReq option \<Rightarrow> bool \<Rightarrow> 'r SetAssocArray \<Rightarrow> (nat option \<times> 'r SetAssocArray) option" where
  "sa_lookup lineAddr req updateReplacement a =
     (case sa_find a lineAddr of
        None \<Rightarrow> Some (None, a)
      | Some i \<Rightarrow>
          (if updateReplacement then do {
             r \<leftarrow> rp_touch (sa_rp a) i req (sa_rpState a);
             Some (Some i, a\<lparr>sa_rpState := r\<rparr>)
           } else Some (Some i, a)))"

definition sa_preinsert ::
  "(nat \<Rightarrow> nat) \<Rightarrow> (nat \<Rightarrow> bool) \<Rightarrow> Address \<Rightarrow> MemReq \<Rightarrow> 'r SetAssocArray \<Rightarrow>
   ((nat \<times> Address) \<times> 'r SetAssocArray) option" where
  "sa_preinsert ns vl lineAddr req a = do {
     (candidate, r) \<leftarrow> rp_rankCands (sa_rp a) ns vl req (sa_ways a lineAddr) (sa_rpState a);
     Some ((candidate, sa_array a candidate), a\<lparr>sa_rpState := r\<rparr>)
   }"

definition sa_postinsert ::
  "Address \<Rightarrow> MemReq \<Rightarrow> nat \<Rightarrow> 'r SetAssocArray \<Rightarrow> 'r SetAssocArray option" where
  "sa_postinsert lineAddr req candidate a = do {
     let r0 = rp_replaced (sa_rp a) candidate (sa_rpState a);
     let arr = (sa_array a)(candidate := lineAddr);
     r1 \<leftarrow> rp_update (sa_rp a) candidate req r0;
     Some (a\<lparr>sa_array := arr, sa_rpState := r1\<rparr>)
   }"

definition sa_ops :: "'r SetAssocArray CacheArray" where
  "sa_ops = \<lparr>ca_lookup = sa_lookup, ca_preinsert = sa_preinsert, ca_postinsert = sa_postinsert\<rparr>"

section \<open>Zcache array\<close>

record ZWalkInfo =
  zw_pos :: nat
  zw_lineId :: nat
  zw_parentIdx :: "nat option"

record 'r ZArray =
  z_array :: "nat \<Rightarrow> Address"
  z_lookupArray :: "nat \<Rightarrow> nat"
  z_rpState :: 'r
  z_rp :: "'r ReplPolicy"
  z_hf :: "nat \<Rightarrow> u64 \<Rightarrow> u64"
  z_numLines :: nat
  z_numSets :: nat
  z_ways :: nat
  z_cands :: nat
  z_setMask :: u32
  z_swapArray :: "nat list"
  z_lastCandIdx :: nat
  z_statSwaps :: nat

definition z_new ::
  "nat \<Rightarrow> nat \<Rightarrow> nat \<Rightarrow> 'r ReplPolicy \<Rightarrow> 'r \<Rightarrow> (nat \<Rightarrow> u64 \<Rightarrow> u64) \<Rightarrow> 'r ZArray option" where
  "z_new numLines ways candidates rp rps hf = do {
     assert_that (ways > 1);
     assert_that (candidates \<ge> ways);
     assert_that (numLines mod ways = 0);
     let numSets = numLines div ways;
     assert_that (isPow2 (of_nat numSets :: u32));
     Some \<lparr>z_array = (\<lambda>_. 0), z_lookupArray = (\<lambda>i. i), z_rpState = rps, z_rp = rp, z_hf = hf,
           z_numLines = numLines, z_numSets = numSets, z_ways = ways, z_cands = candidates,
           z_setMask = of_nat numSets - 1, z_swapArray = [], z_lastCandIdx = 0, z_statSwaps = 0\<rparr>
   }"

definition z_pos :: "'r ZArray \<Rightarrow> Address \<Rightarrow> nat \<Rightarrow> nat" where
  "z_pos a lineAddr w = w * z_numSets a + unat (z_hf a w lineAddr AND ucast (z_setMask a))"

definition z_find :: "'r ZArray \<Rightarrow> Address \<Rightarrow> nat option" where
  "z_find a lineAddr =
     map_option (\<lambda>w. z_lookupArray a (z_pos a lineAddr w))
       (List.find (\<lambda>w. z_array a (z_lookupArray a (z_pos a lineAddr w)) = lineAddr) [0..<z_ways a])"

definition z_lookup ::
  "Address \<Rightarrow> MemReq option \<Rightarrow> bool \<Rightarrow> 'r ZArray \<Rightarrow> (nat option \<times> 'r ZArray) option" where
  "z_lookup lineAddr req updateReplacement a = do {
     assert_that (lineAddr \<noteq> 0);
     case z_find a lineAddr of
       None \<Rightarrow> Some (None, a)
     | Some lineId \<Rightarrow>
         (if updateReplacement then do {
            r \<leftarrow> rp_touch (z_rp a) lineId req (z_rpState a);
            Some (Some lineId, a\<lparr>z_rpState := r\<rparr>)
          } else Some (Some lineId, a))
   }"

definition z_seed :: "'r ZArray \<Rightarrow> Address \<Rightarrow> nat \<Rightarrow> ZWalkInfo" where
  "z_seed a lineAddr w =
     (let pos = z_pos a lineAddr w
      in \<lparr>zw_pos = pos, zw_lineId = z_lookupArray a pos, zw_parentIdx = None\<rparr>)"

definition z_child :: "'r ZArray \<Rightarrow> Address \<Rightarrow> nat \<Rightarrow> nat \<Rightarrow> ZWalkInfo" where
  "z_child a fringeAddr fringeStart w =
     (let pos = z_pos a fringeAddr w
      in \<lparr>zw_pos = pos, zw_lineId = z_lookupArray a pos, zw_parentIdx = Some fringeStart\<rparr>)"

definition z_all_valid :: "'r ZArray \<Rightarrow> ZWalkInfo list \<Rightarrow> bool" where
  "z_all_valid a cs \<longleftrightarrow> (\<forall>c\<in>set cs. z_array a (zw_lineId c) \<noteq> 0)"

text \<open>
  One expansion of the fringe: the branch-free inner loop over the ways. Its state is the
  candidate buffer, \<open>numCandidates\<close> and \<open>all_valid\<close>; a child equal to the fringe line is written
  but not counted, so that the next child overwrites it.
\<close>

fun z_inner ::
  "'r ZArray \<Rightarrow> nat \<Rightarrow> nat \<Rightarrow> nat list \<Rightarrow> (nat \<Rightarrow> ZWalkInfo) \<times> nat \<times> bool \<Rightarrow>
   (nat \<Rightarrow> ZWalkInfo) \<times> nat \<times> bool" where
  "z_inner a fringeId fringeStart [] s = s"
| "z_inner a fringeId fringeStart (w # ws) (candidates, numCandidates, all_valid) =
     (let c = z_child a (z_array a fringeId) fringeStart w
      in z_inner a fringeId fringeStart ws
           (candidates(numCandidates := c),
            numCandidates + (if zw_lineId c \<noteq> fringeId then 1 else 0),
            all_valid \<and> z_array a (zw_lineId c) \<noteq> 0))"

fun z_walk ::
  "nat \<Rightarrow> 'r ZArray \<Rightarrow> nat \<Rightarrow> (nat \<Rightarrow> ZWalkInfo) \<times> nat \<times> bool \<Rightarrow>
   ((nat \<Rightarrow> ZWalkInfo) \<times> nat \<times> bool) option" where
  "z_walk 0 a fringeStart (candidates, numCandidates, all_valid) =
     (if numCandidates < z_cands a \<and> all_valid then None
      else Some (candidates, numCandidates, all_valid))"
| "z_walk (Suc fuel) a fringeStart (candidates, numCandidates, all_valid) =
     (if numCandidates < z_cands a \<and> all_valid then do {
        assert_that (fringeStart < numCandidates);
        let fringeId = zw_lineId (candidates fringeStart);
        assert_that (z_array a fringeId \<noteq> 0);
        z_walk fuel a (fringeStart + 1)
          (z_inner a fringeId fringeStart [0..<z_ways a] (candidates, numCandidates, all_valid))
      } else Some (candidates, numCandidates, all_valid))"

text \<open>
  The loop that the comment of \<open>ZArray::preinsert\<close> gives as the logical meaning (the code under
  \<open>#if 0\<close>): only children other than the fringe line are appended.
\<close>

definition z_children :: "'r ZArray \<Rightarrow> nat \<Rightarrow> nat \<Rightarrow> ZWalkInfo list" where
  "z_children a fringeId fringeStart =
     filter (\<lambda>c. zw_lineId c \<noteq> fringeId)
       (map (z_child a (z_array a fringeId) fringeStart) [0..<z_ways a])"

fun z_expand :: "nat \<Rightarrow> 'r ZArray \<Rightarrow> nat \<Rightarrow> ZWalkInfo list \<Rightarrow> ZWalkInfo list option" where
  "z_expand 0 a fringeStart cs =
     (if length cs < z_cands a \<and> z_all_valid a cs then None else Some cs)"
| "z_expand (Suc fuel) a fringeStart cs =
     (if length cs < z_cands a \<and> z_all_valid a cs then do {
        assert_that (fringeStart < length cs);
        let fringeId = zw_lineId (cs ! fringeStart);
        assert_that (z_array a fringeId \<noteq> 0);
        z_expand fuel a (fringeStart + 1) (cs @ z_children a fringeId fringeStart)
      } else Some cs)"

fun z_path :: "nat \<Rightarrow> ZWalkInfo list \<Rightarrow> nat \<Rightarrow> nat list option" where
  "z_path 0 cs ix = None"
| "z_path (Suc fuel) cs ix =
     (case zw_parentIdx (cs ! ix) of
        None \<Rightarrow> Some [zw_pos (cs ! ix)]
      | Some p \<Rightarrow> map_option (Cons (zw_pos (cs ! ix))) (z_path fuel cs p))"

fun first_index :: "('a \<Rightarrow> bool) \<Rightarrow> 'a list \<Rightarrow> nat option" where
  "first_index P [] = None"
| "first_index P (x # xs) = (if P x then Some 0 else map_option Suc (first_index P xs))"

definition z_candidates :: "'r ZArray \<Rightarrow> Address \<Rightarrow> ZWalkInfo list option" where
  "z_candidates a lineAddr = do {
     let seeds = map (z_seed a lineAddr) [0..<z_ways a];
     (candidates, numCandidates, all_valid) \<leftarrow>
       z_walk (z_cands a) a 0 (\<lambda>i. seeds ! i, z_ways a, z_all_valid a seeds);
     assert_that (\<not> all_valid \<or> numCandidates \<ge> z_cands a);
     Some (map candidates [0..<(if numCandidates > z_cands a then z_cands a else numCandidates)])
   }"

definition z_preinsert ::
  "(nat \<Rightarrow> nat) \<Rightarrow> (nat \<Rightarrow> bool) \<Rightarrow> Address \<Rightarrow> MemReq \<Rightarrow> 'r ZArray \<Rightarrow>
   ((nat \<times> Address) \<times> 'r ZArray) option" where
  "z_preinsert ns vl lineAddr req a = do {
     cs \<leftarrow> z_candidates a lineAddr;
     (bestCandidate, r) \<leftarrow> rp_rankCands (z_rp a) ns vl req (map zw_lineId cs) (z_rpState a);
     assert_that (bestCandidate < z_numLines a);
     minIdx \<leftarrow> first_index (\<lambda>c. zw_lineId c = bestCandidate) cs;
     swaps \<leftarrow> z_path (minIdx + 1) cs minIdx;
     assert_that (length swaps > 0);
     Some ((bestCandidate, z_array a bestCandidate),
           a\<lparr>z_rpState := r, z_lastCandIdx := minIdx, z_swapArray := swaps\<rparr>)
   }"

fun z_swaps :: "nat list \<Rightarrow> nat \<Rightarrow> (nat \<Rightarrow> nat) \<Rightarrow> (nat \<Rightarrow> nat)" where
  "z_swaps [] candidate la = la"
| "z_swaps [p] candidate la = la(p := candidate)"
| "z_swaps (p # q # ps) candidate la = z_swaps (q # ps) candidate (la(p := la q))"

definition z_postinsert :: "Address \<Rightarrow> MemReq \<Rightarrow> nat \<Rightarrow> 'r ZArray \<Rightarrow> 'r ZArray option" where
  "z_postinsert lineAddr req candidate a = do {
     assert_that (z_swapArray a \<noteq> []);
     assert_that (z_lookupArray a (hd (z_swapArray a)) = candidate);
     let la = z_swaps (z_swapArray a) candidate (z_lookupArray a);
     let r0 = rp_replaced (z_rp a) candidate (z_rpState a);
     let arr = (z_array a)(candidate := lineAddr);
     r1 \<leftarrow> rp_update (z_rp a) candidate req r0;
     Some (a\<lparr>z_lookupArray := la, z_array := arr, z_rpState := r1,
             z_statSwaps := z_statSwaps a + (length (z_swapArray a) - 1)\<rparr>)
   }"

definition z_ops :: "'r ZArray CacheArray" where
  "z_ops = \<lparr>ca_lookup = z_lookup, ca_preinsert = z_preinsert, ca_postinsert = z_postinsert\<rparr>"

text \<open>One access to an array, as a cache makes it, and a sequence of accesses.\<close>

definition ca_touch ::
  "'a CacheArray \<Rightarrow> (nat \<Rightarrow> nat) \<Rightarrow> (nat \<Rightarrow> bool) \<Rightarrow> MemReq \<Rightarrow> Address \<Rightarrow> 'a \<Rightarrow> 'a option" where
  "ca_touch ops ns vl req L a = do {
     (r, a1) \<leftarrow> ca_lookup ops L (Some req) True a;
     case r of Some i \<Rightarrow> Some a1
     | None \<Rightarrow> do { ((c, wb), a2) \<leftarrow> ca_preinsert ops ns vl L req a1; ca_postinsert ops L req c a2 }
   }"

fun ca_run ::
  "'a CacheArray \<Rightarrow> (nat \<Rightarrow> nat) \<Rightarrow> (nat \<Rightarrow> bool) \<Rightarrow> MemReq \<Rightarrow> Address list \<Rightarrow> 'a \<Rightarrow> 'a option" where
  "ca_run ops ns vl req [] a = Some a"
| "ca_run ops ns vl req (L # Ls) a = do { a' \<leftarrow> ca_touch ops ns vl req L a; ca_run ops ns vl req Ls a' }"

section \<open>The contract of an array\<close>

text \<open>
  What the cache controller relies on. \<open>contents a i\<close> is the tag of line \<open>i\<close>. A lookup finds
  exactly the line whose tag is the address looked up and changes no tag; \<open>preinsert\<close> proposes a
  line and reports its tag; \<open>postinsert\<close> changes the tag of that line only. \<open>pend L c a\<close> holds
  between \<open>preinsert\<close> of address \<open>L\<close>, which chose line \<open>c\<close>, and the \<open>postinsert\<close>.
\<close>

locale cache_array =
  fixes ops :: "'a CacheArray"
    and inv :: "'a \<Rightarrow> bool"
    and pend :: "Address \<Rightarrow> nat \<Rightarrow> 'a \<Rightarrow> bool"
    and contents :: "'a \<Rightarrow> nat \<Rightarrow> Address"
    and lines :: nat
  assumes lookup_peek: "inv a \<Longrightarrow> L \<noteq> 0 \<Longrightarrow> \<exists>r. ca_lookup ops L rq False a = Some (r, a)"
    and lookup_touch: "inv a \<Longrightarrow> L \<noteq> 0 \<Longrightarrow> IsGet (req_type q) \<Longrightarrow>
      \<exists>r a'. ca_lookup ops L (Some q) True a = Some (r, a') \<and> inv a' \<and> contents a' = contents a"
    and lookup_line: "inv a \<Longrightarrow> L \<noteq> 0 \<Longrightarrow> ca_lookup ops L rq upd a = Some (r, a') \<Longrightarrow>
      r = Some i \<longleftrightarrow> i < lines \<and> contents a i = L"
    and preinsert_ok: "inv a \<Longrightarrow> L \<noteq> 0 \<Longrightarrow> (\<forall>i<lines. contents a i \<noteq> L) \<Longrightarrow>
      \<exists>c a'. ca_preinsert ops ns vl L req a = Some ((c, contents a c), a') \<and> c < lines \<and>
        pend L c a' \<and> contents a' = contents a"
    and postinsert_ok: "pend L c a \<Longrightarrow> L \<noteq> 0 \<Longrightarrow> IsGet (req_type req) \<Longrightarrow>
      \<exists>a'. ca_postinsert ops L req c a = Some a' \<and> inv a' \<and> contents a' = (contents a)(c := L)"
begin

lemma contents_unique:
  assumes "inv a" "contents a i = L" "contents a j = L" "L \<noteq> 0" "i < lines" "j < lines"
  shows "i = j"
proof -
  obtain r where r: "ca_lookup ops L None False a = Some (r, a)" using lookup_peek assms by blast
  show ?thesis
    using lookup_line [OF assms(1,4) r, of i] lookup_line [OF assms(1,4) r, of j] assms by simp
qed

lemma lookup_None_iff:
  assumes "inv a" "L \<noteq> 0" "ca_lookup ops L rq upd a = Some (r, a')"
  shows "r = None \<longleftrightarrow> (\<forall>i<lines. contents a i \<noteq> L)"
  using lookup_line [OF assms] by (metis not_None_eq)

text \<open>After a miss is filled, the new address is found at the chosen line and nothing else moved.\<close>

lemma insert_lookup:
  assumes "pend L c a" "L \<noteq> 0" "IsGet (req_type req)" "ca_postinsert ops L req c a = Some a'"
    and "c < lines" "K \<noteq> 0" "\<forall>i<lines. contents a i \<noteq> L"
  shows "\<exists>r. ca_lookup ops K None False a' = Some (r, a') \<and>
    (r = Some i \<longleftrightarrow> i < lines \<and> (if i = c then K = L else contents a i = K))"
proof -
  from postinsert_ok [OF assms(1-3)] assms(4) have a': "inv a'" "contents a' = (contents a)(c := L)"
    by auto
  obtain r where r: "ca_lookup ops K None False a' = Some (r, a')"
    using lookup_peek a' assms(6) by blast
  show ?thesis using r lookup_line [OF a'(1) assms(6) r, of i] a'(2) by auto
qed

lemma fill_lookup:
  assumes "inv a" "L \<noteq> 0" "IsGet (req_type req)" "\<forall>i<lines. contents a i \<noteq> L"
  shows "\<exists>c a1 a2. ca_preinsert ops ns vl L req a = Some ((c, contents a c), a1) \<and> c < lines \<and>
    ca_postinsert ops L req c a1 = Some a2 \<and> inv a2 \<and> contents a2 = (contents a)(c := L) \<and>
    (\<forall>K. K \<noteq> 0 \<longrightarrow> (\<exists>r. ca_lookup ops K None False a2 = Some (r, a2) \<and>
       (\<forall>i. r = Some i \<longleftrightarrow> i < lines \<and> (if i = c then K = L else contents a i = K))))"
proof -
  obtain c a1 where c: "ca_preinsert ops ns vl L req a = Some ((c, contents a c), a1)" "c < lines" "pend L c a1"
    "contents a1 = contents a" using preinsert_ok [OF assms(1,2,4)] by blast
  obtain a2 where a2: "ca_postinsert ops L req c a1 = Some a2" "inv a2" "contents a2 = (contents a1)(c := L)"
    using postinsert_ok [OF c(3) assms(2,3)] by blast
  have "\<exists>r. ca_lookup ops K None False a2 = Some (r, a2) \<and>
      (\<forall>i. r = Some i \<longleftrightarrow> i < lines \<and> (if i = c then K = L else contents a i = K))" if K: "K \<noteq> 0" for K
  proof -
    obtain r where r: "ca_lookup ops K None False a2 = Some (r, a2)" using lookup_peek a2(2) K by blast
    show ?thesis using r lookup_line [OF a2(2) K r] a2(3) c(4) by auto
  qed
  then show ?thesis using c a2 by auto
qed

lemma run_ok:
  assumes "inv a" "\<forall>L\<in>set Ls. L \<noteq> 0" "IsGet (req_type req)"
  shows "\<exists>a'. ca_run ops ns vl req Ls a = Some a' \<and> inv a' \<and> contents a' ` {..<lines} \<subseteq> set Ls \<union> contents a ` {..<lines} \<and>
    (Ls \<noteq> [] \<longrightarrow> last Ls \<in> contents a' ` {..<lines})"
  using assms(1,2)
proof (induction Ls arbitrary: a)
  case (Cons L Ls)
  have L: "L \<noteq> 0" using Cons.prems by simp
  obtain r a1 where r: "ca_lookup ops L (Some req) True a = Some (r, a1)" "inv a1" "contents a1 = contents a"
    using lookup_touch [OF Cons.prems(1) L assms(3)] by blast
  have "\<exists>a2. ca_touch ops ns vl req L a = Some a2 \<and> inv a2 \<and> contents a2 ` {..<lines} \<subseteq> insert L (contents a ` {..<lines}) \<and>
      L \<in> contents a2 ` {..<lines}"
  proof (cases r)
    case None
    then have m: "\<forall>i<lines. contents a1 i \<noteq> L" using lookup_None_iff [OF Cons.prems(1) L r(1)] r(3) by simp
    obtain c a2 a3 where "ca_preinsert ops ns vl L req a1 = Some ((c, contents a1 c), a2)" "c < lines"
      "ca_postinsert ops L req c a2 = Some a3" "inv a3" "contents a3 = (contents a1)(c := L)"
      using fill_lookup [OF r(2) L assms(3) m] by blast
    then show ?thesis using None r(1,3) by (auto simp: ca_touch_def)
  next
    case (Some i)
    then have "i < lines" "contents a i = L" using lookup_line [OF Cons.prems(1) L r(1), of i] by auto
    then show ?thesis using Some r by (auto simp: ca_touch_def)
  qed
  then obtain a2 where a2: "ca_touch ops ns vl req L a = Some a2" "inv a2"
    "contents a2 ` {..<lines} \<subseteq> insert L (contents a ` {..<lines})" "L \<in> contents a2 ` {..<lines}" by blast
  obtain a3 where a3: "ca_run ops ns vl req Ls a2 = Some a3" "inv a3"
    "contents a3 ` {..<lines} \<subseteq> set Ls \<union> contents a2 ` {..<lines}" "Ls \<noteq> [] \<longrightarrow> last Ls \<in> contents a3 ` {..<lines}"
    using Cons.IH [OF a2(2)] Cons.prems(2) by auto
  have "contents a3 ` {..<lines} \<subseteq> set (L # Ls) \<union> contents a ` {..<lines}"
    using a3(3) a2(3) by (rule subset_trans [OF _ Un_mono [OF subset_refl, THEN subset_trans]]) auto
  moreover have "last (L # Ls) \<in> contents a3 ` {..<lines}" using a2(4) a3 by (cases "Ls = []") auto
  ultimately show ?case using a2(1) a3(1,2) by simp
qed simp

end

section \<open>Set-associative array: lemmas\<close>

definition sa_geometry :: "nat \<Rightarrow> 'r SetAssocArray \<Rightarrow> bool" where
  "sa_geometry n a \<longleftrightarrow>
     sa_numLines a = n \<and> n < 2 ^ 32 \<and> sa_assoc a > 0 \<and> n = sa_numSets a * sa_assoc a \<and>
     isPow2 (of_nat (sa_numSets a) :: u32) \<and> sa_setMask a = of_nat (sa_numSets a) - 1"

definition sa_tags_ok :: "nat \<Rightarrow> 'r SetAssocArray \<Rightarrow> bool" where
  "sa_tags_ok n a \<longleftrightarrow>
     (\<forall>i<n. sa_array a i \<noteq> 0 \<longrightarrow> i \<in> set (sa_ways a (sa_array a i))) \<and>
     (\<forall>i<n. \<forall>j<n. sa_array a i = sa_array a j \<longrightarrow> sa_array a i \<noteq> 0 \<longrightarrow> i = j)"

definition sa_inv :: "'r ReplPolicy \<Rightarrow> ('r \<Rightarrow> bool) \<Rightarrow> nat \<Rightarrow> 'r SetAssocArray \<Rightarrow> bool" where
  "sa_inv rp ready n a \<longleftrightarrow>
     sa_rp a = rp \<and> ready (sa_rpState a) \<and> sa_geometry n a \<and> sa_tags_ok n a"

definition sa_pend ::
  "'r ReplPolicy \<Rightarrow> ('r \<Rightarrow> bool) \<Rightarrow> nat \<Rightarrow> Address \<Rightarrow> nat \<Rightarrow> 'r SetAssocArray \<Rightarrow> bool" where
  "sa_pend rp pending n L c a \<longleftrightarrow>
     sa_rp a = rp \<and> pending (sa_rpState a) \<and> sa_geometry n a \<and> sa_tags_ok n a \<and>
     c \<in> set (sa_ways a L) \<and> (\<forall>i<n. sa_array a i \<noteq> L)"

lemma set_index_less:
  fixes h :: u64
  assumes "isPow2 (of_nat s :: u32)" "s < 2 ^ 32"
  shows "unat (h AND ucast (of_nat s - 1 :: u32)) = unat h mod s"
    and "unat (h AND ucast (of_nat s - 1 :: u32)) < s"
proof -
  have u: "unat (of_nat s :: u32) = s" using assms(2) by (simp add: unat_of_nat)
  obtain k where k: "s = 2 ^ k" using assms(1) isPow2_unat_iff u by metis
  have "unat (of_nat s - 1 :: u32) = mask k"
    using assms(1) k u by (simp add: isPow2_def unat_minus_one mask_eq_exp_minus_1)
  moreover have "unat (ucast (of_nat s - 1 :: u32) :: u64) = unat (of_nat s - 1 :: u32)"
    using unsigned_less [of "of_nat s - 1 :: u32", where 'a = nat]
    by (simp add: unsigned_ucast_eq take_bit_nat_eq_self)
  ultimately have "unat (ucast (of_nat s - 1 :: u32) :: u64) = mask k" by simp
  then show eq: "unat (h AND ucast (of_nat s - 1 :: u32)) = unat h mod s"
    using k by (simp add: unat_and take_bit_eq_mask [symmetric] take_bit_eq_mod)
  show "unat (h AND ucast (of_nat s - 1 :: u32)) < s" using eq k by simp
qed

lemma sa_numSets_less: "sa_geometry n a \<Longrightarrow> sa_numSets a < 2 ^ 32"
  unfolding sa_geometry_def by (auto intro: le_less_trans [of _ "sa_numSets a * sa_assoc a"])

lemma sa_set_less: "sa_geometry n a \<Longrightarrow> sa_set a L < sa_numSets a"
  using sa_numSets_less [of n a] set_index_less(2)
  unfolding sa_geometry_def sa_set_def by auto

lemma sa_ways_less: "sa_geometry n a \<Longrightarrow> i \<in> set (sa_ways a L) \<Longrightarrow> i < n"
proof -
  assume g: "sa_geometry n a" and i: "i \<in> set (sa_ways a L)"
  have "i < (sa_set a L + 1) * sa_assoc a" using i by (simp add: sa_ways_def Let_def)
  also have "\<dots> \<le> sa_numSets a * sa_assoc a"
    using sa_set_less [OF g, of L] by (intro mult_le_mono1) simp
  finally show "i < n" using g by (simp add: sa_geometry_def)
qed

lemma find_Some_cond: "List.find P xs = Some x \<Longrightarrow> P x \<and> x \<in> set xs"
  by (auto simp: find_Some_iff)

lemma sa_find_iff:
  assumes "sa_geometry n a" "sa_tags_ok n a" "L \<noteq> 0"
  shows "sa_find a L = Some i \<longleftrightarrow> i < n \<and> sa_array a i = L"
proof
  assume "sa_find a L = Some i"
  then show "i < n \<and> sa_array a i = L"
    using sa_ways_less [OF assms(1)] by (auto simp: sa_find_def dest: find_Some_cond)
next
  assume i: "i < n \<and> sa_array a i = L"
  then have "i \<in> set (sa_ways a L)" using assms(2,3) by (auto simp: sa_tags_ok_def)
  then obtain j where j: "sa_find a L = Some j"
    using i by (cases "sa_find a L") (auto simp: sa_find_def find_None_iff)
  then have "j < n" "sa_array a j = L"
    using sa_ways_less [OF assms(1)] by (auto simp: sa_find_def dest: find_Some_cond)
  then show "sa_find a L = Some i" using i j assms(2,3) by (auto simp: sa_tags_ok_def)
qed

lemma sa_geometry_frame [simp]:
  "sa_geometry n (a\<lparr>sa_rpState := r\<rparr>) = sa_geometry n a"
  "sa_geometry n (a\<lparr>sa_array := arr\<rparr>) = sa_geometry n a"
  by (simp_all add: sa_geometry_def)

lemma sa_ways_frame [simp]:
  "sa_ways (a\<lparr>sa_rpState := r\<rparr>) L = sa_ways a L"
  "sa_ways (a\<lparr>sa_array := arr\<rparr>) L = sa_ways a L"
  by (simp_all add: sa_ways_def sa_set_def)

lemma sa_tags_ok_frame [simp]: "sa_tags_ok n (a\<lparr>sa_rpState := r\<rparr>) = sa_tags_ok n a"
  by (simp add: sa_tags_ok_def)

lemma sa_tags_ok_insert:
  assumes "sa_tags_ok n a" "c \<in> set (sa_ways a L)" "\<forall>i<n. sa_array a i \<noteq> L"
  shows "sa_tags_ok n (a\<lparr>sa_array := (sa_array a)(c := L), sa_rpState := r\<rparr>)"
  using assms by (auto simp: sa_tags_ok_def)

lemma sa_ways_cands: "sa_assoc a > 0 \<Longrightarrow> sa_ways a L \<noteq> [] \<and> distinct (sa_ways a L)"
  by (simp add: sa_ways_def Let_def)

text \<open>With a total policy the set-associative array keeps the contract of an array.\<close>

context total_repl_policy
begin

lemma sa_cache_array:
  assumes ok: "\<And>xs :: nat list. xs \<noteq> [] \<Longrightarrow> distinct xs \<Longrightarrow> cands_ok xs"
  shows "cache_array sa_ops (sa_inv rp ready n) (sa_pend rp pending n) sa_array n"
proof (unfold_locales, goal_cases)
  case (1 a L rq)
  then show ?case by (simp add: sa_ops_def sa_lookup_def split: option.splits)
next
  case (2 a L q)
  show ?case
  proof (cases "sa_find a L")
    case None
    then show ?thesis using 2 by (simp add: sa_ops_def sa_lookup_def)
  next
    case (Some i)
    obtain r where "rp_update rp i q (sa_rpState a) = Some r" using update_total 2 by blast
    then show ?thesis using Some 2 update_ready [of "sa_rpState a" i q r]
      by (simp add: sa_ops_def sa_lookup_def rp_touch_def sa_inv_def)
  qed
next
  case (3 a L rq upd r a' i)
  then have "r = sa_find a L"
    by (auto simp: sa_ops_def sa_lookup_def Option.bind_eq_Some_conv split: option.splits if_splits)
  then show ?case using 3 sa_find_iff [of n a L i] by (simp add: sa_inv_def)
next
  case (4 a L ns vl req)
  then have a: "sa_rp a = rp" "ready (sa_rpState a)" "sa_geometry n a" "sa_tags_ok n a"
    by (simp_all add: sa_inv_def)
  then have "cands_ok (sa_ways a L)" using ok sa_ways_cands by (auto simp: sa_geometry_def)
  then obtain c r where c: "rp_rankCands rp ns vl req (sa_ways a L) (sa_rpState a) = Some (c, r)"
    "c \<in> set (sa_ways a L)" "pending r"
    using rank_total [OF a(2)] rank_member [OF a(2)] rank_pending [OF a(2)] by metis
  then show ?case using a 4 sa_ways_less [OF a(3) c(2)]
    by (simp add: sa_ops_def sa_preinsert_def sa_pend_def)
next
  case (5 L c a req)
  then have a: "sa_rp a = rp" "pending (sa_rpState a)" "sa_geometry n a" "sa_tags_ok n a"
    "c \<in> set (sa_ways a L)" "\<forall>i<n. sa_array a i \<noteq> L" by (simp_all add: sa_pend_def)
  obtain r where r: "rp_update rp c req (rp_replaced rp c (sa_rpState a)) = Some r"
    using update_total 5 by blast
  then have "ready r" using update_ready replaced_ready a(2) by blast
  then show ?case using a r sa_tags_ok_insert [OF a(4,5,6)]
    by (simp add: sa_ops_def sa_postinsert_def Let_def sa_inv_def)
qed

end

interpretation sa_lru: cache_array sa_ops "sa_inv (lru_policy sa) (\<lambda>_. True) n"
  "sa_pend (lru_policy sa) (\<lambda>_. True) n" sa_array n
  by (rule lru.sa_cache_array) simp

interpretation sa_nru: cache_array sa_ops "sa_inv nru_policy nru_ready n"
  "sa_pend nru_policy nru_values_ok n" sa_array n
  by (rule nru.sa_cache_array) simp

interpretation sa_lfu: cache_array sa_ops "sa_inv lfu_policy (\<lambda>r. lfu_bestCandidate r = None) n"
  "sa_pend lfu_policy (\<lambda>_. True) n" sa_array n
  by (rule lfu.sa_cache_array) simp

lemma sa_new_inv:
  assumes "sa_new n assoc rp rps hf = Some a" "ready rps" "n < 2 ^ 32" "assoc dvd n"
  shows "sa_inv rp ready n a"
  using assms
  by (auto simp: sa_new_def sa_inv_def sa_geometry_def sa_tags_ok_def Let_def bind_assert_if
           split: if_splits)

section \<open>Zcache array: the walk\<close>

lemma z_inner_spec:
  assumes "z_inner a f fs ws (b, n, av) = (b', n', av')" "z_array a f \<noteq> 0"
  shows "map b' [0..<n'] =
      map b [0..<n] @ filter (\<lambda>c. zw_lineId c \<noteq> f) (map (z_child a (z_array a f) fs) ws)"
    and "av' \<longleftrightarrow>
      av \<and> z_all_valid a (filter (\<lambda>c. zw_lineId c \<noteq> f) (map (z_child a (z_array a f) fs) ws))"
proof -
  have "map b' [0..<n'] =
      map b [0..<n] @ filter (\<lambda>c. zw_lineId c \<noteq> f) (map (z_child a (z_array a f) fs) ws) \<and>
     (av' \<longleftrightarrow>
      av \<and> z_all_valid a (filter (\<lambda>c. zw_lineId c \<noteq> f) (map (z_child a (z_array a f) fs) ws)))"
    using assms(1)
  proof (induction ws arbitrary: b n av)
    case Nil
    then show ?case by (simp add: z_all_valid_def)
  next
    case (Cons w ws)
    let ?c = "z_child a (z_array a f) fs w"
    have "map (b(n := ?c)) [0..<n] = map b [0..<n]" by simp
    then show ?case using Cons.IH [OF Cons.prems [unfolded z_inner.simps Let_def]] assms(2)
      by (cases "zw_lineId ?c = f") (auto simp: z_all_valid_def)
  qed
  then show "map b' [0..<n'] =
      map b [0..<n] @ filter (\<lambda>c. zw_lineId c \<noteq> f) (map (z_child a (z_array a f) fs) ws)"
    and "av' \<longleftrightarrow>
      av \<and> z_all_valid a (filter (\<lambda>c. zw_lineId c \<noteq> f) (map (z_child a (z_array a f) fs) ws))"
    by simp_all
qed

lemma z_walk_expand:
  assumes "av = z_all_valid a (map b [0..<n])"
  shows "map_option (\<lambda>(b, n, av). (map b [0..<n], av)) (z_walk fuel a fs (b, n, av)) =
    map_option (\<lambda>cs. (cs, z_all_valid a cs)) (z_expand fuel a fs (map b [0..<n]))"
  using assms
proof (induction fuel arbitrary: fs b n av)
  case 0
  then show ?case by simp
next
  case (Suc fuel)
  let ?f = "zw_lineId (b fs)"
  obtain b' n' av' where r: "z_inner a ?f fs [0..<z_ways a] (b, n, av) = (b', n', av')"
    by (metis prod_cases3)
  show ?case
  proof (cases "n < z_cands a \<and> av \<and> fs < n \<and> z_array a ?f \<noteq> 0")
    case True
    note i = z_inner_spec [OF r]
    have "av' = z_all_valid a (map b' [0..<n'])"
      using i True Suc.prems by (auto simp: z_all_valid_def)
    have av: "av = True" using True by simp
    from Suc.IH [OF \<open>av' = _\<close>, of "fs + 1"] True i(1) r [unfolded av] show ?thesis
      using Suc.prems by (simp add: Let_def z_children_def)
  next
    case False
    then show ?thesis using Suc.prems by (auto simp: Let_def bind_assert_if)
  qed
qed

text \<open>The branch-free walk computes the candidates of the loop under \<open>#if 0\<close>.\<close>

definition z_seeds :: "'r ZArray \<Rightarrow> Address \<Rightarrow> ZWalkInfo list" where
  "z_seeds a L = map (z_seed a L) [0..<z_ways a]"

lemma z_candidates_expand:
  "z_candidates a L = do {
     cs \<leftarrow> z_expand (z_cands a) a 0 (z_seeds a L);
     assert_that (\<not> z_all_valid a cs \<or> length cs \<ge> z_cands a);
     Some (take (z_cands a) cs)
   }"
proof -
  let ?b = "\<lambda>i. z_seeds a L ! i"
  have m: "map ?b [0..<z_ways a] = z_seeds a L"
    by (auto simp: z_seeds_def intro: nth_equalityI)
  have e: "map_option (\<lambda>(b, n, av). (map b [0..<n], av))
      (z_walk (z_cands a) a 0 (?b, z_ways a, z_all_valid a (z_seeds a L))) =
    map_option (\<lambda>cs. (cs, z_all_valid a cs)) (z_expand (z_cands a) a 0 (z_seeds a L))"
    using z_walk_expand [of "z_all_valid a (z_seeds a L)" a ?b "z_ways a"] unfolding m by simp
  show ?thesis
  proof (cases "z_walk (z_cands a) a 0 (?b, z_ways a, z_all_valid a (z_seeds a L))")
    case None
    then show ?thesis using e by (simp add: z_candidates_def z_seeds_def)
  next
    case (Some s)
    obtain b n av where s: "s = (b, n, av)" by (metis prod_cases3)
    then have "z_expand (z_cands a) a 0 (z_seeds a L) = Some (map b [0..<n])"
      "av = z_all_valid a (map b [0..<n])" using e [symmetric] Some by auto
    then show ?thesis using Some s
      by (simp add: z_candidates_def z_seeds_def take_map min_def bind_assert_if)
  qed
qed

definition z_geometry :: "nat \<Rightarrow> 'r ZArray \<Rightarrow> bool" where
  "z_geometry n a \<longleftrightarrow>
     z_numLines a = n \<and> n < 2 ^ 32 \<and> z_ways a > 1 \<and> z_cands a \<ge> z_ways a \<and>
     n = z_ways a * z_numSets a \<and> isPow2 (of_nat (z_numSets a) :: u32) \<and>
     z_setMask a = of_nat (z_numSets a) - 1"

definition z_tags_ok :: "nat \<Rightarrow> 'r ZArray \<Rightarrow> bool" where
  "z_tags_ok n a \<longleftrightarrow>
     z_lookupArray a ` {..<n} = {..<n} \<and>
     (\<forall>i<n. z_array a i \<noteq> 0 \<longrightarrow> (\<exists>w<z_ways a. z_lookupArray a (z_pos a (z_array a i) w) = i)) \<and>
     (\<forall>i<n. \<forall>j<n. z_array a i = z_array a j \<longrightarrow> z_array a i \<noteq> 0 \<longrightarrow> i = j)"

definition z_inv :: "'r ReplPolicy \<Rightarrow> ('r \<Rightarrow> bool) \<Rightarrow> nat \<Rightarrow> 'r ZArray \<Rightarrow> bool" where
  "z_inv rp ready n a \<longleftrightarrow>
     z_rp a = rp \<and> ready (z_rpState a) \<and> z_geometry n a \<and> z_tags_ok n a"

text \<open>
  What \<open>postinsert\<close> needs of the swap array: its positions are distinct, the first one holds the
  victim, the last one is a position of the new address, and every other position is one to
  which the line of the next position may move.
\<close>

definition z_swap_ok :: "nat \<Rightarrow> Address \<Rightarrow> nat \<Rightarrow> 'r ZArray \<Rightarrow> nat list \<Rightarrow> bool" where
  "z_swap_ok n L c a ps \<longleftrightarrow>
     ps \<noteq> [] \<and> distinct ps \<and> set ps \<subseteq> {..<n} \<and> z_lookupArray a (hd ps) = c \<and>
     (\<exists>w<z_ways a. last ps = z_pos a L w) \<and>
     (\<forall>k. Suc k < length ps \<longrightarrow>
        (\<exists>w<z_ways a. ps ! k = z_pos a (z_array a (z_lookupArray a (ps ! Suc k))) w))"

definition z_pend ::
  "'r ReplPolicy \<Rightarrow> ('r \<Rightarrow> bool) \<Rightarrow> nat \<Rightarrow> Address \<Rightarrow> nat \<Rightarrow> 'r ZArray \<Rightarrow> bool" where
  "z_pend rp pending n L c a \<longleftrightarrow>
     z_rp a = rp \<and> pending (z_rpState a) \<and> z_geometry n a \<and> z_tags_ok n a \<and>
     z_swap_ok n L c a (z_swapArray a) \<and> (\<forall>i<n. z_array a i \<noteq> L)"

lemma z_numSets_bounds: "z_geometry n a \<Longrightarrow> 0 < z_numSets a \<and> z_numSets a < 2 ^ 32"
  unfolding z_geometry_def
  by (auto intro: le_less_trans [of _ "z_ways a * z_numSets a"] simp: isPow2_def intro!: gr0I)

lemma z_pos_range:
  assumes "z_geometry n a"
  shows "w * z_numSets a \<le> z_pos a L w" "z_pos a L w < (w + 1) * z_numSets a"
  using set_index_less(2) [of "z_numSets a" "z_hf a w L"] z_numSets_bounds [OF assms] assms
  by (auto simp: z_pos_def z_geometry_def)

lemma z_pos_way: "z_geometry n a \<Longrightarrow> z_pos a L w div z_numSets a = w"
  using z_pos_range [of n a, where w = w and L = L] z_numSets_bounds [of n a]
  by (intro div_nat_eqI) (simp_all add: mult.commute)

lemma z_pos_less: "z_geometry n a \<Longrightarrow> w < z_ways a \<Longrightarrow> z_pos a L w < n"
proof -
  assume g: "z_geometry n a" and w: "w < z_ways a"
  have "(w + 1) * z_numSets a \<le> z_ways a * z_numSets a" using w by (intro mult_le_mono1) simp
  then show ?thesis using z_pos_range(2) [OF g, of L w] g by (simp add: z_geometry_def)
qed

lemma z_lookup_inj: "z_tags_ok n a \<Longrightarrow> inj_on (z_lookupArray a) {..<n}"
  by (auto simp: z_tags_ok_def intro: eq_card_imp_inj_on)

lemma z_ways_inj:
  assumes "z_geometry n a" "z_tags_ok n a"
  shows "inj_on (\<lambda>w. z_lookupArray a (z_pos a L w)) {..<z_ways a}"
proof (rule inj_onI)
  fix v w
  assume "v \<in> {..<z_ways a}" "w \<in> {..<z_ways a}"
    and "z_lookupArray a (z_pos a L v) = z_lookupArray a (z_pos a L w)"
  then have "z_pos a L v = z_pos a L w"
    using z_lookup_inj [OF assms(2)] z_pos_less [OF assms(1)] by (auto dest: inj_onD)
  then show "v = w" using z_pos_way [OF assms(1)] by metis
qed

lemma z_find_iff:
  assumes "z_geometry n a" "z_tags_ok n a" "L \<noteq> 0"
  shows "z_find a L = Some i \<longleftrightarrow> i < n \<and> z_array a i = L"
proof
  assume "z_find a L = Some i"
  then obtain w where w: "w < z_ways a" "i = z_lookupArray a (z_pos a L w)" "z_array a i = L"
    by (auto simp: z_find_def dest: find_Some_cond)
  moreover have "z_pos a L w \<in> {..<n}" using z_pos_less [OF assms(1) w(1)] by simp
  ultimately show "i < n \<and> z_array a i = L" using assms(2) by (auto simp: z_tags_ok_def)
next
  assume i: "i < n \<and> z_array a i = L"
  then obtain w where w: "w < z_ways a" "z_lookupArray a (z_pos a L w) = i"
    using assms(2,3) by (auto simp: z_tags_ok_def)
  then obtain v where v: "List.find (\<lambda>w. z_array a (z_lookupArray a (z_pos a L w)) = L)
      [0..<z_ways a] = Some v" (is "?F = _")
    using i by (cases ?F) (auto simp: find_None_iff)
  then have "v < z_ways a" "z_array a (z_lookupArray a (z_pos a L v)) = L"
    by (auto dest: find_Some_cond)
  moreover from this(1) have "z_lookupArray a (z_pos a L v) \<in> {..<n}"
    using assms(2) z_pos_less [OF assms(1), of v L] unfolding z_tags_ok_def by blast
  ultimately have "z_lookupArray a (z_pos a L v) = i"
    using i assms(2,3) unfolding z_tags_ok_def by (metis lessThan_iff)
  then show "z_find a L = Some i" using v by (simp add: z_find_def)
qed

lemma concat_nth_uniform:
  assumes "\<forall>xs\<in>set xss. length xs = k" "i < k * length xss"
  shows "concat xss ! i = xss ! (i div k) ! (i mod k)"
  using assms
proof (induction xss arbitrary: i)
  case Nil
  then show ?case by simp
next
  case (Cons xs xss)
  show ?case
  proof (cases "i < k")
    case True
    then show ?thesis using Cons.prems by (simp add: nth_append)
  next
    case False
    then have "i - k < k * length xss" "0 < k" using Cons.prems by auto
    then show ?thesis using False Cons.IH [of "i - k"] Cons.prems(1)
      by (simp add: nth_append le_div_geq le_mod_geq)
  qed
qed

lemma length_concat_uniform: "\<forall>xs\<in>set xss. length xs = k \<Longrightarrow> length (concat xss) = k * length xss"
  by (induction xss) auto

lemma z_children_lines:
  "map zw_lineId (z_children a f p) =
     removeAll f (map (\<lambda>w. z_lookupArray a (z_pos a (z_array a f) w)) [0..<z_ways a])"
proof -
  have "(\<lambda>x. f \<noteq> x) = (\<lambda>x. x \<noteq> f)" by auto
  then show ?thesis
    by (simp add: z_children_def z_child_def Let_def removeAll_filter_not_eq filter_map o_def)
qed

lemma z_children_length:
  assumes "z_geometry n a" "z_tags_ok n a" "f < n" "z_array a f \<noteq> 0"
  shows "length (z_children a f p) = z_ways a - 1"
proof -
  let ?ls = "map (\<lambda>w. z_lookupArray a (z_pos a (z_array a f) w)) [0..<z_ways a]"
  have d: "distinct ?ls"
    using z_ways_inj [OF assms(1,2), of "z_array a f"] by (simp add: distinct_map atLeast_upt)
  obtain w where "w < z_ways a" "z_lookupArray a (z_pos a (z_array a f) w) = f"
    using assms(2-4) unfolding z_tags_ok_def by blast
  then have f: "f \<in> set ?ls" by force
  have "length (removeAll f ?ls) = length (remove1 f ?ls)"
    by (simp only: distinct_remove1_removeAll [OF d])
  also have "\<dots> = z_ways a - 1" using f by (simp only: length_remove1 if_True length_map length_upt diff_zero)
  finally have "length (removeAll f ?ls) = z_ways a - 1" .
  then have "length (map zw_lineId (z_children a f p)) = z_ways a - 1"
    by (simp only: z_children_lines)
  then show ?thesis by simp
qed

lemma z_children_member:
  assumes "c \<in> set (z_children a f p)"
  shows "\<exists>w<z_ways a. c = z_child a (z_array a f) p w"
  using assms by (auto simp: z_children_def)

definition z_tree :: "nat \<Rightarrow> 'r ZArray \<Rightarrow> Address \<Rightarrow> nat \<Rightarrow> ZWalkInfo list \<Rightarrow> bool" where
  "z_tree n a L fs cs \<longleftrightarrow>
     cs = z_seeds a L @ concat (map (\<lambda>p. z_children a (zw_lineId (cs ! p)) p) [0..<fs]) \<and>
     (\<forall>c\<in>set cs. zw_pos c < n \<and> zw_lineId c = z_lookupArray a (zw_pos c)) \<and>
     (\<forall>p<fs. z_array a (zw_lineId (cs ! p)) \<noteq> 0) \<and> fs < length cs"

lemma z_treeD:
  assumes "z_tree n a L fs cs"
  shows "cs = z_seeds a L @ concat (map (\<lambda>p. z_children a (zw_lineId (cs ! p)) p) [0..<fs])"
    and "i < length cs \<Longrightarrow> zw_pos (cs ! i) < n"
    and "i < length cs \<Longrightarrow> zw_lineId (cs ! i) = z_lookupArray a (zw_pos (cs ! i))"
    and "p < fs \<Longrightarrow> z_array a (zw_lineId (cs ! p)) \<noteq> 0"
    and "fs < length cs"
  using assms unfolding z_tree_def by (blast intro: nth_mem)+

lemma z_tree_line_less:
  assumes "z_tags_ok n a" "z_tree n a L fs cs" "i < length cs"
  shows "zw_lineId (cs ! i) < n"
  using z_treeD(2,3) [OF assms(2,3)] assms(1) by (auto simp: z_tags_ok_def)

lemma z_tree_blocks:
  assumes "z_geometry n a" "z_tags_ok n a" "z_tree n a L fs cs"
  shows "\<forall>b\<in>set (map (\<lambda>p. z_children a (zw_lineId (cs ! p)) p) [0..<fs]). length b = z_ways a - 1"
proof -
  have "length (z_children a (zw_lineId (cs ! p)) p) = z_ways a - 1" if "p < fs" for p
    using that z_treeD(4,5) [OF assms(3)] z_tree_line_less [OF assms(2,3), of p]
    by (intro z_children_length [OF assms(1,2)]) auto
  then show ?thesis by simp
qed

lemma z_tree_length:
  assumes "z_geometry n a" "z_tags_ok n a" "z_tree n a L fs cs"
  shows "length cs = z_ways a + (z_ways a - 1) * fs"
proof -
  have "length cs = length (z_seeds a L) +
      length (concat (map (\<lambda>p. z_children a (zw_lineId (cs ! p)) p) [0..<fs]))"
    by (subst z_treeD(1) [OF assms(3)]) (rule length_append)
  then show ?thesis using length_concat_uniform [OF z_tree_blocks [OF assms]]
    by (simp add: z_seeds_def)
qed

lemma z_tree_nth:
  assumes "z_geometry n a" "z_tags_ok n a" "z_tree n a L fs cs" "i < length cs"
  shows "i < z_ways a \<Longrightarrow> cs ! i = z_seed a L i"
    and "z_ways a \<le> i \<Longrightarrow> cs ! i =
      z_children a (zw_lineId (cs ! ((i - z_ways a) div (z_ways a - 1)))) ((i - z_ways a) div (z_ways a - 1))
        ! ((i - z_ways a) mod (z_ways a - 1)) \<and> (i - z_ways a) div (z_ways a - 1) < fs"
proof -
  let ?B = "map (\<lambda>p. z_children a (zw_lineId (cs ! p)) p) [0..<fs]"
  have cs: "cs = z_seeds a L @ concat ?B" by (rule z_treeD(1) [OF assms(3)])
  have len: "length (z_seeds a L) = z_ways a" by (simp add: z_seeds_def)
  show "cs ! i = z_seed a L i" if "i < z_ways a"
    by (subst cs, subst nth_append) (use that len in \<open>simp add: z_seeds_def\<close>)
  show "cs ! i = z_children a (zw_lineId (cs ! ((i - z_ways a) div (z_ways a - 1))))
      ((i - z_ways a) div (z_ways a - 1)) ! ((i - z_ways a) mod (z_ways a - 1)) \<and>
      (i - z_ways a) div (z_ways a - 1) < fs" if i: "z_ways a \<le> i"
  proof -
    have w: "0 < z_ways a - 1" using assms(1) by (simp add: z_geometry_def)
    have less: "i - z_ways a < (z_ways a - 1) * fs" using i assms(4) z_tree_length [OF assms(1-3)] by simp
    then have d: "(i - z_ways a) div (z_ways a - 1) < fs"
      using w by (simp add: less_mult_imp_div_less mult.commute)
    have "cs ! i = concat ?B ! (i - z_ways a)" by (subst cs, subst nth_append) (use i len in simp)
    also have "\<dots> = ?B ! ((i - z_ways a) div (z_ways a - 1)) ! ((i - z_ways a) mod (z_ways a - 1))"
      using concat_nth_uniform [OF z_tree_blocks [OF assms(1-3)]] less by simp
    finally show ?thesis using d by simp
  qed
qed

lemma z_tree_seeds:
  assumes "z_geometry n a" shows "z_tree n a L 0 (z_seeds a L)"
  using assms z_pos_less [OF assms]
  by (auto simp: z_tree_def z_seeds_def z_seed_def Let_def z_geometry_def)

lemma z_tree_grows:
  assumes "z_geometry n a" "z_tags_ok n a" "z_tree n a L fs cs" "z_array a (zw_lineId (cs ! fs)) \<noteq> 0"
  shows "0 < length (z_children a (zw_lineId (cs ! fs)) fs)"
  using z_children_length [OF assms(1,2) z_tree_line_less [OF assms(2,3) z_treeD(5) [OF assms(3)]] assms(4)]
    assms(1) by (simp add: z_geometry_def)

lemma z_tree_step:
  assumes "z_geometry n a" "z_tags_ok n a" "z_tree n a L fs cs" "z_array a (zw_lineId (cs ! fs)) \<noteq> 0"
  shows "z_tree n a L (fs + 1) (cs @ z_children a (zw_lineId (cs ! fs)) fs)"
proof -
  let ?ch = "z_children a (zw_lineId (cs ! fs)) fs"
  note t = z_treeD [OF assms(3)]
  have nth: "(cs @ ?ch) ! p = cs ! p" if "p < fs + 1" for p
    using that t(5) by (simp add: nth_append)
  have "map (\<lambda>p. z_children a (zw_lineId ((cs @ ?ch) ! p)) p) [0..<fs] =
      map (\<lambda>p. z_children a (zw_lineId (cs ! p)) p) [0..<fs]" using nth by simp
  then have "concat (map (\<lambda>p. z_children a (zw_lineId ((cs @ ?ch) ! p)) p) [0..<fs + 1]) =
      concat (map (\<lambda>p. z_children a (zw_lineId (cs ! p)) p) [0..<fs]) @ ?ch"
    using nth [of fs] by (simp del: map_eq_conv)
  then have 1: "cs @ ?ch = z_seeds a L @
      concat (map (\<lambda>p. z_children a (zw_lineId ((cs @ ?ch) ! p)) p) [0..<fs + 1])"
    using arg_cong [OF t(1), of "\<lambda>xs. xs @ ?ch"] by (simp only: append_assoc)
  have 2: "zw_pos c < n \<and> zw_lineId c = z_lookupArray a (zw_pos c)" if "c \<in> set ?ch" for c
    using z_children_member [OF that] z_pos_less [OF assms(1)] by (auto simp: z_child_def Let_def)
  have 3: "\<forall>c\<in>set (cs @ ?ch). zw_pos c < n \<and> zw_lineId c = z_lookupArray a (zw_pos c)"
    using assms(3) 2 unfolding z_tree_def set_append by blast
  have 4: "\<forall>p<fs + 1. z_array a (zw_lineId ((cs @ ?ch) ! p)) \<noteq> 0"
    using nth t(4) assms(4) by (auto simp: less_Suc_eq)
  have 5: "fs + 1 < length (cs @ ?ch)"
    using t(5) z_tree_grows [OF assms] unfolding length_append by linarith
  show ?thesis unfolding z_tree_def using 1 3 4 5 by blast
qed

lemma z_expand_total:
  assumes "z_geometry n a" "z_tags_ok n a" "z_tree n a L fs cs" "z_cands a \<le> length cs + fuel"
  shows "\<exists>fs' cs'. z_expand fuel a fs cs = Some cs' \<and> z_tree n a L fs' cs' \<and>
    (\<not> z_all_valid a cs' \<or> z_cands a \<le> length cs')"
  using assms(3,4)
proof (induction fuel arbitrary: fs cs)
  case 0
  then show ?case by auto
next
  case (Suc fuel)
  show ?case
  proof (cases "length cs < z_cands a \<and> z_all_valid a cs")
    case True
    have fs: "fs < length cs" using z_treeD(5) [OF Suc.prems(1)] .
    then have v: "z_array a (zw_lineId (cs ! fs)) \<noteq> 0" using True by (simp add: z_all_valid_def)
    note t = z_tree_step [OF assms(1,2) Suc.prems(1) v]
    have "z_cands a \<le> length (cs @ z_children a (zw_lineId (cs ! fs)) fs) + fuel"
      using z_tree_grows [OF assms(1,2) Suc.prems(1) v] Suc.prems(2)
      unfolding length_append by linarith
    from Suc.IH [OF t this] show ?thesis using True fs v by simp
  next
    case False
    then show ?thesis using Suc.prems by (intro exI [of _ fs] exI [of _ cs]) auto
  qed
qed

section \<open>Zcache array: the relocation path\<close>

text \<open>
  What is known of the candidates handed to the policy. The last clause is what makes the minimum
  index in \<open>preinsert\<close> matter: if a line occurs twice, its earlier occurrence was expanded
  earlier, so that the children of the later one all occur earlier, too.
\<close>

definition z_forest :: "nat \<Rightarrow> 'r ZArray \<Rightarrow> Address \<Rightarrow> ZWalkInfo list \<Rightarrow> bool" where
  "z_forest n a L cs \<longleftrightarrow> (\<forall>i<length cs.
     zw_pos (cs ! i) < n \<and> zw_lineId (cs ! i) = z_lookupArray a (zw_pos (cs ! i)) \<and>
     (i < z_ways a \<longrightarrow> zw_parentIdx (cs ! i) = None \<and> zw_pos (cs ! i) = z_pos a L i) \<and>
     (z_ways a \<le> i \<longrightarrow>
        (let p = (i - z_ways a) div (z_ways a - 1)
         in zw_parentIdx (cs ! i) = Some p \<and>
            (\<exists>w<z_ways a. zw_pos (cs ! i) = z_pos a (z_array a (zw_lineId (cs ! p))) w) \<and>
            (\<forall>q<p. zw_lineId (cs ! q) = zw_lineId (cs ! p) \<longrightarrow>
               (\<exists>j<i. zw_lineId (cs ! j) = zw_lineId (cs ! i))))))"

lemma z_children_same_lines:
  "k < length (z_children a f p) \<Longrightarrow>
   zw_lineId (z_children a f p ! k) = zw_lineId (z_children a f q ! k)"
  using z_children_lines [of a f p] z_children_lines [of a f q]
  by (metis length_map nth_map)

lemma z_tree_dup:
  assumes "z_geometry n a" "z_tags_ok n a" "z_tree n a L fs cs" "i < length cs" "z_ways a \<le> i"
    and p: "p = (i - z_ways a) div (z_ways a - 1)"
    and q: "q < p" "zw_lineId (cs ! q) = zw_lineId (cs ! p)"
  shows "\<exists>j<i. zw_lineId (cs ! j) = zw_lineId (cs ! i)"
proof -
  define k where "k = (i - z_ways a) mod (z_ways a - 1)"
  define j where "j = z_ways a + q * (z_ways a - 1) + k"
  have w: "0 < z_ways a - 1" using assms(1) by (simp add: z_geometry_def)
  have k: "k < z_ways a - 1" using w by (simp add: k_def)
  have i: "i = z_ways a + p * (z_ways a - 1) + k"
    using assms(5) div_mult_mod_eq [of "i - z_ways a" "z_ways a - 1"] unfolding p k_def by linarith
  have "q * (z_ways a - 1) < p * (z_ways a - 1)" using q(1) w by simp
  then have ji: "j < i" unfolding j_def i by simp
  have jq: "(j - z_ways a) div (z_ways a - 1) = q" "(j - z_ways a) mod (z_ways a - 1) = k"
    using k w by (simp_all add: j_def)
  note ni = z_tree_nth(2) [OF assms(1-5), folded p k_def]
  have nj: "cs ! j = z_children a (zw_lineId (cs ! q)) q ! k"
    using z_tree_nth(2) [OF assms(1-3), of j] ji assms(4) jq by (simp add: j_def)
  have "length (z_children a (zw_lineId (cs ! p)) p) = z_ways a - 1"
    using z_tree_blocks [OF assms(1-3)] ni by simp
  then have "zw_lineId (cs ! j) = zw_lineId (cs ! i)"
    using ni nj q(2) k z_children_same_lines [of k a "zw_lineId (cs ! p)" p q] by simp
  then show ?thesis using ji by blast
qed

lemma z_parent_less:
  fixes i w :: nat
  assumes "1 < w" "w \<le> i"
  shows "(i - w) div (w - 1) < i" "(i - w) div (w - 1) div w + 1 \<le> i div w"
proof -
  have le: "(i - w) div (w - 1) \<le> i - w" by simp
  then show "(i - w) div (w - 1) < i" using assms by linarith
  have "(i - w) div (w - 1) div w \<le> (i - w) div w" using le by (rule div_le_mono)
  then show "(i - w) div (w - 1) div w + 1 \<le> i div w"
    using assms le_div_geq [of w i] by simp
qed

lemma z_tree_forest:
  assumes "z_geometry n a" "z_tags_ok n a" "z_tree n a L fs cs"
  shows "z_forest n a L (take k cs)"
  unfolding z_forest_def
proof (intro allI impI, goal_cases)
  case (1 i)
  let ?p = "(i - z_ways a) div (z_ways a - 1)"
  have i: "i < length cs" "take k cs ! i = cs ! i" using 1 by simp_all
  have w: "1 < z_ways a" using assms(1) by (simp add: z_geometry_def)
  note base = z_treeD(2,3) [OF assms(3) i(1)]
  show ?case
  proof (cases "i < z_ways a")
    case True
    then show ?thesis using base i z_tree_nth(1) [OF assms(1-3) i(1)]
      by (simp add: z_seed_def Let_def)
  next
    case False
    then have le: "z_ways a \<le> i" by simp
    note nth = z_tree_nth(2) [OF assms(1-3) i(1) le]
    have p: "?p < i" using z_parent_less(1) [OF w le] .
    have tk: "take k cs ! j = cs ! j" if "j \<le> i" for j using that 1 by simp
    have "(i - z_ways a) mod (z_ways a - 1) < length (z_children a (zw_lineId (cs ! ?p)) ?p)"
      using z_tree_blocks [OF assms] nth w by simp
    then have "cs ! i \<in> set (z_children a (zw_lineId (cs ! ?p)) ?p)" using nth by (metis nth_mem)
    then obtain v where v: "v < z_ways a" "cs ! i = z_child a (z_array a (zw_lineId (cs ! ?p))) ?p v"
      using z_children_member by blast
    then have "zw_parentIdx (cs ! i) = Some ?p"
      "zw_pos (cs ! i) = z_pos a (z_array a (zw_lineId (cs ! ?p))) v"
      by (simp_all add: z_child_def Let_def)
    moreover have "\<exists>j<i. zw_lineId (take k cs ! j) = zw_lineId (cs ! i)"
      if q: "q < ?p" "zw_lineId (take k cs ! q) = zw_lineId (cs ! ?p)" for q
    proof -
      have "take k cs ! q = cs ! q" using tk [of q] q(1) p by linarith
      then obtain j where "j < i" "zw_lineId (cs ! j) = zw_lineId (cs ! i)"
        using z_tree_dup [OF assms i(1) le refl q(1)] q(2) by auto
      then show ?thesis using tk [of j] by auto
    qed
    moreover have "take k cs ! ?p = cs ! ?p" using tk p by simp
    ultimately show ?thesis using base i(2) le v(1) by (auto simp: Let_def)
  qed
qed

lemma z_path_ok:
  assumes "z_geometry n a" "z_forest n a L cs" "i < length cs" "i < fuel"
    and "\<forall>j<i. zw_lineId (cs ! j) \<noteq> zw_lineId (cs ! i)"
  shows "\<exists>ps. z_path fuel cs i = Some ps \<and> z_swap_ok n L (zw_lineId (cs ! i)) a ps \<and>
    hd ps = zw_pos (cs ! i) \<and> (\<forall>p\<in>set ps. \<exists>j\<le>i. p = zw_pos (cs ! j)) \<and> length ps \<le> i div z_ways a + 1"
  using assms(3-5)
proof (induction fuel arbitrary: i)
  case 0
  then show ?case by simp
next
  case (Suc fuel)
  let ?p = "(i - z_ways a) div (z_ways a - 1)"
  have F: "zw_pos (cs ! j) < n" "zw_lineId (cs ! j) = z_lookupArray a (zw_pos (cs ! j))"
    if "j < length cs" for j using assms(2) that unfolding z_forest_def by blast+
  show ?case
  proof (cases "i < z_ways a")
    case True
    then have "zw_parentIdx (cs ! i) = None" "zw_pos (cs ! i) = z_pos a L i"
      using assms(2) Suc.prems(1) unfolding z_forest_def by blast+
    then show ?thesis using True F [OF Suc.prems(1)] by (auto simp: z_swap_ok_def)
  next
    case False
    then have le: "z_ways a \<le> i" by simp
    have w: "1 < z_ways a" using assms(1) by (simp add: z_geometry_def)
    note pl = z_parent_less [OF w le]
    have par: "zw_parentIdx (cs ! i) = Some ?p"
      "\<exists>w<z_ways a. zw_pos (cs ! i) = z_pos a (z_array a (zw_lineId (cs ! ?p))) w"
      "\<forall>q<?p. zw_lineId (cs ! q) = zw_lineId (cs ! ?p) \<longrightarrow>
         (\<exists>j<i. zw_lineId (cs ! j) = zw_lineId (cs ! i))"
      using assms(2) Suc.prems(1) le unfolding z_forest_def Let_def by blast+
    have "\<forall>q<?p. zw_lineId (cs ! q) \<noteq> zw_lineId (cs ! ?p)" using par(3) Suc.prems(3) by blast
    moreover have "?p < length cs" "?p < fuel" using pl(1) Suc.prems by linarith+
    ultimately obtain ps where ps: "z_path fuel cs ?p = Some ps"
      "z_swap_ok n L (zw_lineId (cs ! ?p)) a ps" "hd ps = zw_pos (cs ! ?p)"
      "\<forall>p\<in>set ps. \<exists>j\<le>?p. p = zw_pos (cs ! j)" "length ps \<le> ?p div z_ways a + 1"
      using Suc.IH by blast
    have new: "zw_pos (cs ! i) \<notin> set ps"
    proof
      assume "zw_pos (cs ! i) \<in> set ps"
      then obtain j where "j \<le> ?p" "zw_pos (cs ! i) = zw_pos (cs ! j)" using ps(4) by blast
      then show False using Suc.prems(1,3) F(2) pl(1) by (metis le_less_trans less_trans)
    qed
    have "z_swap_ok n L (zw_lineId (cs ! i)) a (zw_pos (cs ! i) # ps)"
      using ps(2,3) new par(2) F [OF Suc.prems(1)] F(2) [OF \<open>?p < length cs\<close>]
      by (cases ps) (auto simp: z_swap_ok_def nth_Cons split: nat.splits)
    moreover have "\<forall>p\<in>set (zw_pos (cs ! i) # ps). \<exists>j\<le>i. p = zw_pos (cs ! j)"
      using ps(4) pl(1) by (metis set_ConsD le_trans less_imp_le order_refl)
    ultimately show ?thesis using par(1) ps(1,5) pl(2) by simp
  qed
qed

lemma z_swaps_other: "p \<notin> set ps \<Longrightarrow> z_swaps ps c la p = la p"
  by (induction ps c la rule: z_swaps.induct) auto

lemma z_swaps_last: "ps \<noteq> [] \<Longrightarrow> distinct ps \<Longrightarrow> z_swaps ps c la (last ps) = c"
  by (induction ps c la rule: z_swaps.induct) auto

lemma z_swaps_move:
  "distinct ps \<Longrightarrow> Suc k < length ps \<Longrightarrow> z_swaps ps c la (ps ! k) = la (ps ! Suc k)"
proof (induction ps c la arbitrary: k rule: z_swaps.induct)
  case (3 p q ps c la)
  show ?case
  proof (cases k)
    case 0
    then show ?thesis using 3 z_swaps_other [of p "q # ps" c "la(p := la q)"] by simp
  next
    case (Suc j)
    have "(q # ps) ! Suc j \<noteq> p" using 3 Suc by (metis distinct.simps(2) length_Cons nth_mem Suc_less_eq)
    then show ?thesis using 3(1) [of j] 3(2,3) Suc by (simp add: fun_upd_def)
  qed
qed auto

text \<open>Where a line that sat at position \<open>p\<close> sits after the swaps.\<close>

lemma z_swaps_position:
  assumes "z_swap_ok n L c a ps" "p < n" "z_lookupArray a p \<noteq> c"
  shows "\<exists>p'<n. z_swaps ps c (z_lookupArray a) p' = z_lookupArray a p \<and>
    (p' = p \<or> (\<exists>w<z_ways a. p' = z_pos a (z_array a (z_lookupArray a p)) w))"
proof (cases "p \<in> set ps")
  case False
  then show ?thesis using z_swaps_other [of p ps c "z_lookupArray a"] assms(2) by blast
next
  case True
  then obtain k where k: "k < length ps" "p = ps ! k" by (metis in_set_conv_nth)
  have "z_lookupArray a (ps ! 0) = c" using assms(1) by (auto simp: z_swap_ok_def hd_conv_nth)
  then have "k \<noteq> 0" using assms(3) k by (cases k) auto
  then obtain j where j: "k = Suc j" by (cases k) auto
  then have "z_swaps ps c (z_lookupArray a) (ps ! j) = z_lookupArray a p"
    using k z_swaps_move [of ps j c "z_lookupArray a"] assms(1) by (simp add: z_swap_ok_def)
  moreover have "ps ! j < n" using k j assms(1) unfolding z_swap_ok_def
    by (metis Suc_lessD lessThan_iff nth_mem subsetD)
  moreover have "\<exists>w<z_ways a. ps ! j = z_pos a (z_array a (z_lookupArray a p)) w"
    using k j assms(1) unfolding z_swap_ok_def by blast
  ultimately show ?thesis by blast
qed

lemma z_swaps_bij:
  assumes "z_swap_ok n L c a ps" "z_lookupArray a ` {..<n} = {..<n}"
  shows "z_swaps ps c (z_lookupArray a) ` {..<n} = {..<n}"
proof -
  let ?la = "z_swaps ps c (z_lookupArray a)"
  have last: "last ps < n" "?la (last ps) = c"
    using assms(1) z_swaps_last [of ps c "z_lookupArray a"] last_in_set [of ps]
    unfolding z_swap_ok_def by blast+
  have "l \<in> ?la ` {..<n}" if l: "l < n" for l
  proof (cases "l = c")
    case True
    then show ?thesis using last by (intro image_eqI [of _ _ "last ps"]) simp_all
  next
    case False
    have "l \<in> z_lookupArray a ` {..<n}" using assms(2) l by simp
    then obtain p where p: "p < n" "z_lookupArray a p = l" by auto
    then have "z_lookupArray a p \<noteq> c" using False by simp
    then obtain p' where "p' < n" "?la p' = l" using z_swaps_position [OF assms(1) p(1)] p(2) by blast
    then show ?thesis by (intro image_eqI [of _ _ p']) simp_all
  qed
  then have sub: "{..<n} \<subseteq> ?la ` {..<n}" by auto
  have "card (?la ` {..<n}) \<le> card {..<n}" by (rule card_image_le) simp
  then show ?thesis using card_seteq [OF _ sub] by simp
qed

lemma z_pos_frame [simp]:
  "z_pos (a\<lparr>z_rpState := r\<rparr>) L w = z_pos a L w"
  "z_pos (a\<lparr>z_array := arr\<rparr>) L w = z_pos a L w"
  "z_pos (a\<lparr>z_lookupArray := la\<rparr>) L w = z_pos a L w"
  "z_pos (a\<lparr>z_statSwaps := m\<rparr>) L w = z_pos a L w"
  "z_pos (a\<lparr>z_swapArray := ps\<rparr>) L w = z_pos a L w"
  "z_pos (a\<lparr>z_lastCandIdx := m\<rparr>) L w = z_pos a L w"
  by (simp_all add: z_pos_def)

lemma z_geometry_frame [simp]:
  "z_geometry n (a\<lparr>z_rpState := r\<rparr>) = z_geometry n a"
  "z_geometry n (a\<lparr>z_array := arr\<rparr>) = z_geometry n a"
  "z_geometry n (a\<lparr>z_lookupArray := la\<rparr>) = z_geometry n a"
  "z_geometry n (a\<lparr>z_statSwaps := m\<rparr>) = z_geometry n a"
  "z_geometry n (a\<lparr>z_swapArray := ps\<rparr>) = z_geometry n a"
  "z_geometry n (a\<lparr>z_lastCandIdx := m\<rparr>) = z_geometry n a"
  by (simp_all add: z_geometry_def)

lemma z_tags_ok_frame [simp]:
  "z_tags_ok n (a\<lparr>z_rpState := r\<rparr>) = z_tags_ok n a"
  "z_tags_ok n (a\<lparr>z_statSwaps := m\<rparr>) = z_tags_ok n a"
  "z_tags_ok n (a\<lparr>z_swapArray := ps\<rparr>) = z_tags_ok n a"
  "z_tags_ok n (a\<lparr>z_lastCandIdx := m\<rparr>) = z_tags_ok n a"
  by (simp_all add: z_tags_ok_def)

lemma z_swap_ok_frame [simp]:
  "z_swap_ok n L c (a\<lparr>z_rpState := r\<rparr>) = z_swap_ok n L c a"
  "z_swap_ok n L c (a\<lparr>z_swapArray := ps\<rparr>) = z_swap_ok n L c a"
  "z_swap_ok n L c (a\<lparr>z_lastCandIdx := m\<rparr>) = z_swap_ok n L c a"
  by (simp_all add: z_swap_ok_def fun_eq_iff)

lemma z_tags_ok_insert:
  assumes "z_geometry n a" "z_tags_ok n a" "z_swap_ok n L c a ps" "\<forall>i<n. z_array a i \<noteq> L"
  shows "z_tags_ok n (a\<lparr>z_lookupArray := z_swaps ps c (z_lookupArray a),
                        z_array := (z_array a)(c := L)\<rparr>)"
proof -
  let ?la = "z_swaps ps c (z_lookupArray a)"
  have "\<exists>w<z_ways a. ?la (z_pos a L w) = c"
    using assms(3) z_swaps_last [of ps c "z_lookupArray a"] unfolding z_swap_ok_def by metis
  moreover have "\<exists>w<z_ways a. ?la (z_pos a (z_array a i) w) = i"
    if i: "i < n" "i \<noteq> c" "z_array a i \<noteq> 0" for i
  proof -
    obtain w where w: "w < z_ways a" "z_lookupArray a (z_pos a (z_array a i) w) = i"
      using assms(2) i unfolding z_tags_ok_def by blast
    then show ?thesis
      using z_swaps_position [OF assms(3) z_pos_less [OF assms(1) w(1)]] i by metis
  qed
  moreover have "?la ` {..<n} = {..<n}"
    using z_swaps_bij [OF assms(3)] assms(2) by (simp add: z_tags_ok_def)
  ultimately show ?thesis using assms(2,4) by (auto simp: z_tags_ok_def)
qed

lemma first_index_Some:
  "first_index P xs = Some m \<Longrightarrow> m < length xs \<and> P (xs ! m) \<and> (\<forall>j<m. \<not> P (xs ! j))"
proof (induction xs arbitrary: m)
  case (Cons x xs)
  show ?case
  proof (cases "P x")
    case False
    then obtain k where k: "first_index P xs = Some k" "m = Suc k" using Cons.prems by auto
    then show ?thesis using Cons.IH [OF k(1)] False by (auto simp: nth_Cons split: nat.splits)
  qed (use Cons.prems in auto)
qed simp

lemma first_index_None: "first_index P xs = None \<longleftrightarrow> (\<forall>x\<in>set xs. \<not> P x)"
  by (induction xs) auto

lemma z_candidates_ok:
  assumes "z_geometry n a" "z_tags_ok n a"
  shows "\<exists>cs. z_candidates a L = Some cs \<and> z_forest n a L cs \<and> cs \<noteq> [] \<and> length cs \<le> z_cands a"
proof -
  obtain fs cs where e: "z_expand (z_cands a) a 0 (z_seeds a L) = Some cs" "z_tree n a L fs cs"
    "\<not> z_all_valid a cs \<or> z_cands a \<le> length cs"
    using z_expand_total [OF assms z_tree_seeds [OF assms(1), of L], of "z_cands a"] by auto
  have "z_candidates a L = Some (take (z_cands a) cs)"
    using e(1,3) by (simp add: z_candidates_expand)
  moreover have "take (z_cands a) cs \<noteq> []"
    using z_treeD(5) [OF e(2)] assms(1) by (auto simp: z_geometry_def)
  ultimately show ?thesis using z_tree_forest [OF assms e(2), of "z_cands a"] by simp
qed

text \<open>
  A replacement: whatever candidate the policy picks, \<open>preinsert\<close> returns it together with a
  correct relocation path, which fits in the swap array of \<open>cands/ways + 2\<close> entries.
\<close>

lemma z_preinsert_ok:
  assumes "z_geometry n a" "z_tags_ok n a"
    and "\<And>cs. cs \<noteq> [] \<Longrightarrow> \<exists>b r. rp_rankCands (z_rp a) ns vl req cs (z_rpState a) = Some (b, r) \<and>
      b \<in> set cs \<and> good r"
  shows "\<exists>c r m ps. z_preinsert ns vl L req a =
      Some ((c, z_array a c), a\<lparr>z_rpState := r, z_lastCandIdx := m, z_swapArray := ps\<rparr>) \<and>
    c < n \<and> good r \<and> z_swap_ok n L c a ps \<and> length ps \<le> z_cands a div z_ways a + 2"
proof -
  obtain cs where cs: "z_candidates a L = Some cs" "z_forest n a L cs" "cs \<noteq> []"
    "length cs \<le> z_cands a" using z_candidates_ok [OF assms(1,2)] by blast
  obtain b r where b: "rp_rankCands (z_rp a) ns vl req (map zw_lineId cs) (z_rpState a) = Some (b, r)"
    "b \<in> set (map zw_lineId cs)" "good r" using assms(3) [of "map zw_lineId cs"] cs(3) by auto
  then obtain m where m: "first_index (\<lambda>c. zw_lineId c = b) cs = Some m"
    by (cases "first_index (\<lambda>c. zw_lineId c = b) cs") (auto simp: first_index_None)
  note mi = first_index_Some [OF m]
  have "zw_lineId (cs ! m) = z_lookupArray a (zw_pos (cs ! m))" "zw_pos (cs ! m) < n"
    using cs(2) mi unfolding z_forest_def by blast+
  then have bn: "b < n" using mi assms(2) by (auto simp: z_tags_ok_def)
  obtain ps where ps: "z_path (m + 1) cs m = Some ps" "z_swap_ok n L b a ps"
    "length ps \<le> m div z_ways a + 1"
    using z_path_ok [OF assms(1) cs(2), of m "m + 1"] mi by auto
  have "m div z_ways a \<le> z_cands a div z_ways a"
    using mi cs(4) by (intro div_le_mono) linarith
  then have len: "length ps \<le> z_cands a div z_ways a + 2" using ps(3) by linarith
  have "length ps > 0" using ps(2) by (auto simp: z_swap_ok_def)
  then have "z_preinsert ns vl L req a =
      Some ((b, z_array a b), a\<lparr>z_rpState := r, z_lastCandIdx := m, z_swapArray := ps\<rparr>)"
    using cs(1) b(1) m ps(1) bn assms(1) by (simp add: z_preinsert_def z_geometry_def)
  then show ?thesis using bn b(3) ps(2) len by blast
qed

context total_repl_policy
begin

lemma z_cache_array:
  assumes ok: "\<And>xs :: nat list. xs \<noteq> [] \<Longrightarrow> cands_ok xs"
  shows "cache_array z_ops (z_inv rp ready n) (z_pend rp pending n) z_array n"
proof (unfold_locales, goal_cases)
  case (1 a L rq)
  then show ?case by (simp add: z_ops_def z_lookup_def split: option.splits)
next
  case (2 a L q)
  show ?case
  proof (cases "z_find a L")
    case None
    then show ?thesis using 2 by (simp add: z_ops_def z_lookup_def)
  next
    case (Some i)
    obtain r where "rp_update rp i q (z_rpState a) = Some r" using update_total 2 by blast
    then show ?thesis using Some 2 update_ready [of "z_rpState a" i q r]
      by (simp add: z_ops_def z_lookup_def rp_touch_def z_inv_def)
  qed
next
  case (3 a L rq upd r a' i)
  then have "r = z_find a L"
    by (auto simp: z_ops_def z_lookup_def Option.bind_eq_Some_conv split: option.splits if_splits)
  then show ?case using 3 z_find_iff [of n a L i] by (simp add: z_inv_def)
next
  case (4 a L ns vl req)
  then have a: "z_rp a = rp" "ready (z_rpState a)" "z_geometry n a" "z_tags_ok n a"
    by (simp_all add: z_inv_def)
  have "\<exists>b r. rp_rankCands (z_rp a) ns vl req cs (z_rpState a) = Some (b, r) \<and>
      b \<in> set cs \<and> pending r" if "cs \<noteq> []" for cs
    using rank_total [OF a(2) ok [OF that]] rank_member [OF a(2) ok [OF that]]
      rank_pending [OF a(2) ok [OF that]] a(1) by metis
  from z_preinsert_ok [OF a(3,4) this] obtain c r m ps where "z_preinsert ns vl L req a =
      Some ((c, z_array a c), a\<lparr>z_rpState := r, z_lastCandIdx := m, z_swapArray := ps\<rparr>)"
    "c < n" "pending r" "z_swap_ok n L c a ps" by metis
  then show ?case using a 4(3) by (simp add: z_ops_def z_pend_def)
next
  case (5 L c a req)
  then have a: "z_rp a = rp" "pending (z_rpState a)" "z_geometry n a" "z_tags_ok n a"
    "z_swap_ok n L c a (z_swapArray a)" "\<forall>i<n. z_array a i \<noteq> L" by (simp_all add: z_pend_def)
  obtain r where r: "rp_update rp c req (rp_replaced rp c (z_rpState a)) = Some r"
    using update_total 5 by blast
  then have "ready r" using update_ready replaced_ready a(2) by blast
  moreover have "z_swapArray a \<noteq> []" "z_lookupArray a (hd (z_swapArray a)) = c"
    using a(5) by (simp_all add: z_swap_ok_def)
  ultimately show ?case using a r z_tags_ok_insert [OF a(3-6)]
    by (simp add: z_ops_def z_postinsert_def Let_def z_inv_def)
qed

end

interpretation z_lru: cache_array z_ops "z_inv (lru_policy sa) (\<lambda>_. True) n"
  "z_pend (lru_policy sa) (\<lambda>_. True) n" z_array n
  by (rule lru.z_cache_array) simp

interpretation z_lfu: cache_array z_ops "z_inv lfu_policy (\<lambda>r. lfu_bestCandidate r = None) n"
  "z_pend lfu_policy (\<lambda>_. True) n" z_array n
  by (rule lfu.z_cache_array) simp

lemma z_new_inv:
  assumes "z_new n ways cands rp rps hf = Some a" "ready rps" "n < 2 ^ 32"
  shows "z_inv rp ready n a"
  using assms
  by (auto simp: z_new_def z_inv_def z_geometry_def z_tags_ok_def Let_def bind_assert_if
           split: if_splits)

section \<open>Properties\<close>

text \<open>
  C3: inserting a missing address in a set-associative array with LRU replacement never fails, evicts
  the tag that it reports, and afterwards a lookup finds the new address at the chosen line, every
  other address where it was before, and the evicted address nowhere.
\<close>

theorem sa_insert_lookup:
  assumes "sa_inv (lru_policy sa) (\<lambda>_. True) n a" "L \<noteq> 0" "IsGet (req_type req)" "\<forall>i<n. sa_array a i \<noteq> L"
  shows "\<exists>c a1 a2. sa_preinsert ns vl L req a = Some ((c, sa_array a c), a1) \<and> c < n \<and>
    sa_postinsert L req c a1 = Some a2 \<and> sa_inv (lru_policy sa) (\<lambda>_. True) n a2 \<and> sa_array a2 = (sa_array a)(c := L) \<and>
    (\<forall>K. K \<noteq> 0 \<longrightarrow> (\<exists>r. sa_lookup K None False a2 = Some (r, a2) \<and>
       (\<forall>i. r = Some i \<longleftrightarrow> i < n \<and> (if i = c then K = L else sa_array a i = K))))"
  using sa_lru.fill_lookup [OF assms, of ns vl] by (simp add: sa_ops_def)

theorem sa_insert_lookup_witness:
  "\<exists>a. sa_new 8 2 (lru_policy False) lru_new id_hash = Some a \<and>
   (\<exists>c a1 a2. sa_preinsert (\<lambda>_. 0) (\<lambda>_. False) 5 \<lparr>req_lineAddr = 5, req_type = GETS, req_childId = 0,
       req_state = Outside 0, req_cycle = 0, req_childLock = None, req_initialState = I, req_srcId = 0, req_flags = 0\<rparr> a =
      Some ((c, sa_array a c), a1) \<and> c < 8 \<and>
    sa_postinsert 5 \<lparr>req_lineAddr = 5, req_type = GETS, req_childId = 0, req_state = Outside 0, req_cycle = 0,
       req_childLock = None, req_initialState = I, req_srcId = 0, req_flags = 0\<rparr> c a1 = Some a2 \<and>
    sa_inv (lru_policy False) (\<lambda>_. True) 8 a2 \<and> sa_array a2 = (sa_array a)(c := 5) \<and>
    (\<forall>K. K \<noteq> 0 \<longrightarrow> (\<exists>r. sa_lookup K None False a2 = Some (r, a2) \<and>
       (\<forall>i. r = Some i \<longleftrightarrow> i < 8 \<and> (if i = c then K = 5 else sa_array a i = K)))))"
proof -
  have "\<exists>a. sa_new 8 2 (lru_policy False) lru_new id_hash = Some a \<and> (\<forall>i. sa_array a i = 0)"
    by (simp add: sa_new_def Let_def isPow2_def)
  then obtain a where a: "sa_new 8 2 (lru_policy False) lru_new id_hash = Some a" "\<forall>i. sa_array a i = 0" by blast
  have "sa_inv (lru_policy False) (\<lambda>_. True) 8 a" by (rule sa_new_inv [OF a(1)]) simp_all
  then show ?thesis using a sa_insert_lookup [of False 8 a 5] by simp
qed

text \<open>
  C11: the branch-free candidate walk of the zcache array computes exactly the candidates of the plain
  loop that the comment gives as its meaning: same order, same parents, same early stop.
\<close>

theorem z_walk_equals_reference:
  "z_candidates a L = do {
     cs \<leftarrow> z_expand (z_cands a) a 0 (map (z_seed a L) [0..<z_ways a]);
     assert_that (if z_all_valid a cs then length cs \<ge> z_cands a else True);
     Some (take (z_cands a) cs)
   }"
proof -
  have "(if P then Q else True) = (\<not> P \<or> Q)" for P Q by simp
  then show ?thesis using z_candidates_expand [of a L] by (simp only: z_seeds_def)
qed



text \<open>
  C6: any sequence of accesses to a new zcache array with LRU replacement succeeds; the last address
  is then found, nothing is found that was not inserted, and the position table is still a
  permutation of the lines.
\<close>

theorem z_run_from_new:
  assumes "z_new n ways cands (lru_policy sa) lru_new hf = Some a0" "n < 2 ^ 32" "\<forall>L\<in>set Ls. L \<noteq> 0" "IsGet (req_type req)"
  shows "\<exists>a. ca_run z_ops ns vl req Ls a0 = Some a \<and> (Ls \<noteq> [] \<longrightarrow> z_find a (last Ls) \<noteq> None) \<and>
    (\<forall>K. K \<noteq> 0 \<longrightarrow> z_find a K \<noteq> None \<longrightarrow> K \<in> set Ls) \<and> z_lookupArray a ` {..<n} = {..<n}"
proof -
  have "\<forall>i. z_array a0 i = 0" using assms(1) by (auto simp: z_new_def Let_def bind_assert_if split: if_splits)
  moreover have i0: "z_inv (lru_policy sa) (\<lambda>_. True) n a0" by (rule z_new_inv [OF assms(1) _ assms(2)]) simp
  ultimately obtain a where a: "ca_run z_ops ns vl req Ls a0 = Some a" "z_inv (lru_policy sa) (\<lambda>_. True) n a"
    "z_array a ` {..<n} \<subseteq> set Ls \<union> {0}" "Ls \<noteq> [] \<longrightarrow> last Ls \<in> z_array a ` {..<n}"
    using z_lru.run_ok [OF i0 assms(3,4), of ns vl] by fastforce
  have f: "z_find a K = Some i \<longleftrightarrow> i < n \<and> z_array a i = K" if "K \<noteq> 0" for K i
    using z_find_iff [of n a K i] a(2) that by (simp add: z_inv_def)
  have "last Ls \<noteq> 0" if "Ls \<noteq> []" using assms(3) that by simp
  then have "Ls \<noteq> [] \<longrightarrow> z_find a (last Ls) \<noteq> None" using a(4) f by (metis imageE lessThan_iff option.distinct(1))
  moreover have "K \<in> set Ls" if "K \<noteq> 0" "z_find a K \<noteq> None" for K using that f [OF that(1)] a(3) by force
  ultimately show ?thesis using a(1,2) by (auto simp: z_inv_def z_tags_ok_def)
qed

theorem z_run_from_new_witness:
  "\<exists>a0. z_new 8 2 6 (lru_policy False) lru_new id_hash = Some a0 \<and>
   (\<exists>a. ca_run z_ops (\<lambda>_. 0) (\<lambda>_. True) \<lparr>req_lineAddr = 5, req_type = GETS, req_childId = 0,
       req_state = Outside 0, req_cycle = 0, req_childLock = None, req_initialState = I, req_srcId = 0, req_flags = 0\<rparr>
     [5, 9, 13, 5, 17] a0 = Some a \<and> z_find a 17 \<noteq> None \<and>
    (\<forall>K. K \<noteq> 0 \<longrightarrow> z_find a K \<noteq> None \<longrightarrow> K \<in> set [5, 9, 13, 5, 17]) \<and> z_lookupArray a ` {..<8} = {..<8})"
proof -
  have "\<exists>a. z_new 8 2 6 (lru_policy False) lru_new id_hash = Some a"
    by (simp add: z_new_def Let_def isPow2_def)
  then obtain a where a: "z_new 8 2 6 (lru_policy False) lru_new id_hash = Some a" by blast
  show ?thesis using a z_run_from_new [OF a, of "[5, 9, 13, 5, 17]"] by simp
qed

end
