(* ===== verification/Timing_Event.thy ===== *)
theory Timing_Event
  imports Memory_Hierarchy
begin

text \<open>
  Timing events (src/src/timing_event.h, src/src/timing_event.cpp) and the event recorder
  (src/src/event_recorder.h). Events live in a heap; an event pointer is a heap index. Using an
  event that \<open>freeEvent\<close> has reclaimed yields \<open>None\<close>, as a failed assertion does. The calls
  \<open>contentionSim->enqueue(ev, cycle)\<close> are logged in \<open>eh_enq\<close>, the oldest first.

  The children of an event are the union \<open>child\<close>/\<open>children\<close>: nothing, one event, or a list of
  blocks of up to three events, the newest block first. \<open>propagateDomain\<close> and \<open>done\<close> recurse
  through the heap; their fuel is the number of events allocated so far, which bounds every
  chain of distinct events. The counts of children and parents never exceed the number of events
  and are natural numbers; only the decrement of \<open>DelayEvent::parentDone\<close>, which no assertion
  guards, is written with its 32-bit wrap-around.
\<close>

section \<open>Events\<close>

datatype EventState = EV_INVALID | EV_NONE | EV_QUEUED | EV_RUNNING | EV_HELD | EV_DONE

datatype event_children = NoChild | OneChild nat | Blocks "nat list list"

record TimingEvent =
  te_isDelay :: bool
  te_state :: EventState
  te_cycle :: nat
  te_minStartCycle :: nat
  te_children :: event_children
  te_domain :: int
  te_numChildren :: nat
  te_numParents :: nat
  te_preDelay :: nat
  te_postDelay :: nat

definition TIMING_BLOCK_EVENTS :: nat where "TIMING_BLOCK_EVENTS = 3"

definition te_new :: "nat \<Rightarrow> nat \<Rightarrow> int \<Rightarrow> TimingEvent" where
  "te_new preDelay postDelay domain =
     \<lparr>te_isDelay = False, te_state = EV_NONE, te_cycle = 0, te_minStartCycle = 2 ^ 64 - 1,
      te_children = NoChild, te_domain = domain, te_numChildren = 0, te_numParents = 0,
      te_preDelay = preDelay, te_postDelay = postDelay\<rparr>"

definition delay_new :: "nat \<Rightarrow> TimingEvent" where
  "delay_new delay = (te_new (trunc32 delay) 0 (-1))\<lparr>te_isDelay := True\<rparr>"

record ev_heap =
  eh_ev :: "nat \<Rightarrow> TimingEvent option"
  eh_next :: nat
  eh_enq :: "(nat \<times> nat) list"

definition ev_alloc :: "TimingEvent \<Rightarrow> ev_heap \<Rightarrow> nat \<times> ev_heap" where
  "ev_alloc e h = (eh_next h, h\<lparr>eh_ev := (eh_ev h)(eh_next h := Some e), eh_next := eh_next h + 1\<rparr>)"

definition ev_put :: "nat \<Rightarrow> TimingEvent \<Rightarrow> ev_heap \<Rightarrow> ev_heap" where
  "ev_put i e h = h\<lparr>eh_ev := (eh_ev h)(i := Some e)\<rparr>"

definition setMinStartCycle :: "nat \<Rightarrow> nat \<Rightarrow> ev_heap \<Rightarrow> ev_heap option" where
  "setMinStartCycle i c h = do { e \<leftarrow> eh_ev h i; Some (ev_put i (e\<lparr>te_minStartCycle := c\<rparr>) h) }"

fun link_child :: "nat \<Rightarrow> nat \<Rightarrow> event_children \<Rightarrow> event_children" where
  "link_child n c NoChild = OneChild c"
| "link_child n c (OneChild f) = Blocks [[f, c]]"
| "link_child n c (Blocks bs) =
     (if n mod TIMING_BLOCK_EVENTS = 0 then Blocks ([c] # bs)
      else case bs of [] \<Rightarrow> Blocks [] | b # bs' \<Rightarrow> Blocks ((b @ [c]) # bs'))"

fun children_list :: "event_children \<Rightarrow> nat list" where
  "children_list NoChild = []"
| "children_list (OneChild c) = [c]"
| "children_list (Blocks bs) = concat bs"

definition visitChildren :: "TimingEvent \<Rightarrow> nat list option" where
  "visitChildren e = do {
     assert_that (te_numChildren e \<le> 1 \<or> length (children_list (te_children e)) = te_numChildren e);
     Some (children_list (te_children e))
   }"

fun fold_opt :: "('b \<Rightarrow> 'a \<Rightarrow> 'a option) \<Rightarrow> 'b list \<Rightarrow> 'a \<Rightarrow> 'a option" where
  "fold_opt f [] s = Some s"
| "fold_opt f (x # xs) s = do { s' \<leftarrow> f x s; fold_opt f xs s' }"

fun propagateDomain :: "nat \<Rightarrow> int \<Rightarrow> nat \<Rightarrow> ev_heap \<Rightarrow> ev_heap option" where
  "propagateDomain 0 d i h = None"
| "propagateDomain (Suc fuel) d i h = do {
     e \<leftarrow> eh_ev h i;
     assert_that (te_domain e = -1);
     cs \<leftarrow> visitChildren e;
     fold_opt (\<lambda>c h. do {
         ce \<leftarrow> eh_ev h c;
         if te_domain ce = -1 then propagateDomain fuel d c h else Some h
       }) cs (ev_put i (e\<lparr>te_domain := d\<rparr>) h)
   }"

definition addChild :: "nat \<Rightarrow> nat \<Rightarrow> ev_heap \<Rightarrow> (nat \<times> ev_heap) option" where
  "addChild this childEv h = do {
     e \<leftarrow> eh_ev h this;
     assert_that (te_state e = EV_NONE \<or> te_state e = EV_QUEUED);
     ce \<leftarrow> eh_ev h childEv;
     assert_that (te_state ce = EV_NONE);
     let h1 = ev_put this (e\<lparr>te_children := link_child (te_numChildren e) childEv (te_children e),
                            te_numChildren := te_numChildren e + 1\<rparr>) h;
     ce1 \<leftarrow> eh_ev h1 childEv;
     h2 \<leftarrow> (if te_domain e \<noteq> -1 \<and> te_domain ce1 = -1
           then propagateDomain (eh_next h) (te_domain e) childEv h1 else Some h1);
     ce2 \<leftarrow> eh_ev h2 childEv;
     Some (childEv, ev_put childEv (ce2\<lparr>te_numParents := te_numParents ce2 + 1\<rparr>) h2)
   }"

section \<open>Running events\<close>

definition ev_enqueue :: "nat \<Rightarrow> nat \<Rightarrow> ev_heap \<Rightarrow> ev_heap" where
  "ev_enqueue i cyc h = h\<lparr>eh_enq := eh_enq h @ [(i, cyc)]\<rparr>"

definition queue_ev :: "nat \<Rightarrow> nat \<Rightarrow> ev_heap \<Rightarrow> ev_heap option" where
  "queue_ev i nextCycle h = do {
     e \<leftarrow> eh_ev h i;
     assert_that (te_state e = EV_NONE \<and> te_numParents e = 0);
     Some (ev_enqueue i nextCycle (ev_put i (e\<lparr>te_state := EV_QUEUED\<rparr>) h))
   }"

definition requeue :: "nat \<Rightarrow> nat \<Rightarrow> ev_heap \<Rightarrow> ev_heap option" where
  "requeue i nextCycle h = do {
     e \<leftarrow> eh_ev h i;
     assert_that (te_numParents e = 0);
     assert_that (te_state e = EV_RUNNING \<or> te_state e = EV_HELD);
     Some (ev_enqueue i nextCycle (ev_put i (e\<lparr>te_state := EV_QUEUED\<rparr>) h))
   }"

definition run_ev :: "nat \<Rightarrow> nat \<Rightarrow> ev_heap \<Rightarrow> ev_heap option" where
  "run_ev i startCycle h = do {
     e \<leftarrow> eh_ev h i;
     assert_that (te_state e = EV_NONE \<or> te_state e = EV_QUEUED);
     assert_that (startCycle \<ge> te_minStartCycle e);
     Some (ev_put i (e\<lparr>te_state := EV_RUNNING\<rparr>) h)
   }"

definition hold :: "nat \<Rightarrow> ev_heap \<Rightarrow> ev_heap option" where
  "hold i h = do {
     e \<leftarrow> eh_ev h i;
     assert_that (te_state e = EV_RUNNING);
     Some (ev_put i (e\<lparr>te_state := EV_HELD\<rparr>) h)
   }"

definition release :: "nat \<Rightarrow> ev_heap \<Rightarrow> ev_heap option" where
  "release i h = do {
     e \<leftarrow> eh_ev h i;
     assert_that (te_state e = EV_HELD);
     Some (ev_put i (e\<lparr>te_state := EV_RUNNING\<rparr>) h)
   }"

text \<open>
  \<open>TimingEvent::parentDone\<close>; the argument \<open>dn\<close> is \<open>done\<close>, which the override of \<open>DelayEvent\<close>
  calls.
\<close>

definition parentDone ::
  "(nat \<Rightarrow> nat \<Rightarrow> ev_heap \<Rightarrow> ev_heap option) \<Rightarrow> nat \<Rightarrow> nat \<Rightarrow> ev_heap \<Rightarrow> ev_heap option" where
  "parentDone dn startCycle i h = do {
     e \<leftarrow> eh_ev h i;
     let cyc = max (te_cycle e) startCycle;
     if te_isDelay e then do {
       let np = dec32 (te_numParents e);
       let e1 = e\<lparr>te_cycle := cyc, te_numParents := np\<rparr>;
       if np = 0 then dn i (cyc + te_preDelay e) (ev_put i (e1\<lparr>te_state := EV_RUNNING\<rparr>) h)
       else Some (ev_put i e1 h)
     } else do {
       assert_that (te_numParents e \<noteq> 0);
       let np = te_numParents e - 1;
       let e1 = e\<lparr>te_cycle := cyc, te_numParents := np\<rparr>;
       if np = 0 then do {
         assert_that (te_state e = EV_NONE);
         Some (ev_enqueue i (cyc + te_preDelay e) (ev_put i (e1\<lparr>te_state := EV_QUEUED\<rparr>) h))
       } else Some (ev_put i e1 h)
     }
   }"

definition freeEvent :: "nat \<Rightarrow> ev_heap \<Rightarrow> ev_heap" where
  "freeEvent i h = h\<lparr>eh_ev := (eh_ev h)(i := None)\<rparr>"

fun done_ev :: "nat \<Rightarrow> nat \<Rightarrow> nat \<Rightarrow> ev_heap \<Rightarrow> ev_heap option" where
  "done_ev 0 i doneCycle h = None"
| "done_ev (Suc fuel) i doneCycle h = do {
     e \<leftarrow> eh_ev h i;
     assert_that (te_state e = EV_RUNNING);
     cs \<leftarrow> visitChildren e;
     h' \<leftarrow> fold_opt (parentDone (done_ev fuel) (doneCycle + te_postDelay e)) cs
           (ev_put i (e\<lparr>te_state := EV_DONE\<rparr>) h);
     Some (freeEvent i h')
   }"

section \<open>Event recorder\<close>

record TimingRecord =
  tr_addr :: Address
  tr_reqCycle :: nat
  tr_respCycle :: nat
  tr_type :: AccessType
  tr_startEvent :: "nat option"
  tr_endEvent :: "nat option"

definition tr_isValid :: "TimingRecord \<Rightarrow> bool" where
  "tr_isValid r \<longleftrightarrow> tr_startEvent r \<noteq> None"

definition tr_clear :: "TimingRecord \<Rightarrow> TimingRecord" where
  "tr_clear r = r\<lparr>tr_startEvent := None\<rparr>"

record EventRecorder =
  er_tr :: TimingRecord
  er_srcId :: nat
  er_lastGapCycles :: nat
  er_lastStartSlack :: nat

definition pushRecord :: "TimingRecord \<Rightarrow> EventRecorder \<Rightarrow> EventRecorder option" where
  "pushRecord rec er = do {
     assert_that (\<not> tr_isValid (er_tr er));
     assert_that (tr_isValid rec);
     Some (er\<lparr>er_tr := rec\<rparr>)
   }"

definition popRecord :: "EventRecorder \<Rightarrow> TimingRecord \<times> EventRecorder" where
  "popRecord er = (er_tr er, er\<lparr>er_tr := tr_clear (er_tr er)\<rparr>)"

definition hasRecord :: "EventRecorder \<Rightarrow> bool" where
  "hasRecord er \<longleftrightarrow> tr_isValid (er_tr er)"

definition getSlack :: "nat \<Rightarrow> EventRecorder \<Rightarrow> nat" where
  "getSlack origStartCycle er = origStartCycle + er_lastStartSlack er"

definition setGapCycles :: "nat \<Rightarrow> EventRecorder \<Rightarrow> EventRecorder" where
  "setGapCycles g er = er\<lparr>er_lastGapCycles := g\<rparr>"

definition setStartSlack :: "nat \<Rightarrow> EventRecorder \<Rightarrow> EventRecorder" where
  "setStartSlack s er = (if er_lastStartSlack er \<noteq> s then er\<lparr>er_lastStartSlack := s\<rparr> else er)"

end
