(* ===== verification/Coherence.thy ===== *)
theory Coherence
  imports Cache_Arrays Timing_Event
begin

text \<open>
  The MESI coherence controllers of src/src/coherence_ctrls.h and src/src/coherence_ctrls.cpp.

  The simulated hierarchy is one state \<open>sys\<close>: the caches by number (array, state array, lock and
  counters of the bottom controller, directory and lock of the top controller), the memory
  controllers, the states and locks of callers outside the hierarchy, the event recorders by
  source and the event heap. What the constructors and the \<open>setParents\<close>/\<open>setChildren\<close> calls fix
  is the configuration \<open>cfg\<close> of a cache. The virtual calls \<open>parents[i]->access(req)\<close> and
  \<open>children[c]->invalidate(req)\<close> are the function arguments \<open>acc\<close> and \<open>ivl\<close>; the theory Hierarchy
  ties the knot. A lock is held or free; the execution is sequential, so acquiring a held lock is
  a deadlock and yields \<open>None\<close>. The out-parameter \<open>bool* reqWriteback\<close> is passed and returned.

  Cycle numbers are natural numbers. Latencies that the source keeps in 32 bits are truncated.
\<close>

section \<open>State\<close>

record Entry =
  en_numSharers :: nat
  en_sharers :: "nat \<Rightarrow> bool"
  en_exclusive :: bool

definition entry_clear :: Entry where
  "entry_clear = \<lparr>en_numSharers = 0, en_sharers = (\<lambda>_. False), en_exclusive = False\<rparr>"

definition en_isEmpty :: "Entry \<Rightarrow> bool" where
  "en_isEmpty e \<longleftrightarrow> en_numSharers e = 0"

definition en_isExclusive :: "Entry \<Rightarrow> bool" where
  "en_isExclusive e \<longleftrightarrow> en_numSharers e = 1 \<and> en_exclusive e"

definition MAX_CACHE_CHILDREN :: nat where "MAX_CACHE_CHILDREN = 256"

record bcc_prof =
  profGETSHit :: nat
  profGETSMiss :: nat
  profGETXHit :: nat
  profGETXMissIM :: nat
  profGETXMissSM :: nat
  profPUTS :: nat
  profPUTX :: nat
  profINV :: nat
  profINVX :: nat
  profFWD :: nat
  profGETNextLevelLat :: nat
  profGETNetLat :: nat

record 'a cache_state =
  cs_array :: 'a
  cs_bcc :: "nat \<Rightarrow> MESIState"
  cs_bccLock :: bool
  cs_prof :: bcc_prof
  cs_tcc :: "nat \<Rightarrow> Entry"
  cs_tccLock :: bool

record 'a cache_cfg =
  cfg_terminal :: bool
  cfg_nonInclusiveHack :: bool
  cfg_parents :: "mem_object list"
  cfg_parentRTTs :: "nat list"
  cfg_selfId :: nat
  cfg_children :: "nat list"
  cfg_childrenRTTs :: "nat list"
  cfg_numLines :: nat
  cfg_accLat :: nat
  cfg_invLat :: nat
  cfg_ops :: "'a CacheArray"

record ('a, 'm) sys =
  s_caches :: "nat \<Rightarrow> 'a cache_state"
  s_mems :: "nat \<Rightarrow> 'm"
  s_out :: "nat \<Rightarrow> MESIState"
  s_outLocks :: "nat \<Rightarrow> bool"
  s_evRecs :: "nat \<Rightarrow> EventRecorder option"
  s_heap :: ev_heap

type_synonym ('a, 'm) acc_fun = "mem_object \<Rightarrow> MemReq \<Rightarrow> ('a, 'm) sys \<Rightarrow> (nat \<times> ('a, 'm) sys) option"
type_synonym ('a, 'm) inv_fun =
  "nat \<Rightarrow> InvReq \<Rightarrow> bool \<Rightarrow> ('a, 'm) sys \<Rightarrow> (nat \<times> bool \<times> ('a, 'm) sys) option"

definition upd_cache ::
  "nat \<Rightarrow> ('a cache_state \<Rightarrow> 'a cache_state) \<Rightarrow> ('a, 'm) sys \<Rightarrow> ('a, 'm) sys" where
  "upd_cache c f s = s\<lparr>s_caches := (s_caches s)(c := f (s_caches s c))\<rparr>"

definition bcc_state :: "nat \<Rightarrow> nat \<Rightarrow> ('a, 'm) sys \<Rightarrow> MESIState" where
  "bcc_state c lineId s = cs_bcc (s_caches s c) lineId"

definition set_bcc :: "nat \<Rightarrow> nat \<Rightarrow> MESIState \<Rightarrow> ('a, 'm) sys \<Rightarrow> ('a, 'm) sys" where
  "set_bcc c lineId st = upd_cache c (\<lambda>k. k\<lparr>cs_bcc := (cs_bcc k)(lineId := st)\<rparr>)"

definition tcc_entry :: "nat \<Rightarrow> nat \<Rightarrow> ('a, 'm) sys \<Rightarrow> Entry" where
  "tcc_entry c lineId s = cs_tcc (s_caches s c) lineId"

definition set_tcc :: "nat \<Rightarrow> nat \<Rightarrow> Entry \<Rightarrow> ('a, 'm) sys \<Rightarrow> ('a, 'm) sys" where
  "set_tcc c lineId e = upd_cache c (\<lambda>k. k\<lparr>cs_tcc := (cs_tcc k)(lineId := e)\<rparr>)"

definition prof :: "nat \<Rightarrow> (bcc_prof \<Rightarrow> bcc_prof) \<Rightarrow> ('a, 'm) sys \<Rightarrow> ('a, 'm) sys" where
  "prof c f = upd_cache c (\<lambda>k. k\<lparr>cs_prof := f (cs_prof k)\<rparr>)"

fun get_state :: "state_ptr \<Rightarrow> ('a, 'm) sys \<Rightarrow> MESIState" where
  "get_state (Slot c lineId) s = bcc_state c lineId s"
| "get_state (Outside k) s = s_out s k"

fun put_state :: "state_ptr \<Rightarrow> MESIState \<Rightarrow> ('a, 'm) sys \<Rightarrow> ('a, 'm) sys" where
  "put_state (Slot c lineId) st s = set_bcc c lineId st s"
| "put_state (Outside k) st s = s\<lparr>s_out := (s_out s)(k := st)\<rparr>"

fun futex_lock :: "lock_ptr \<Rightarrow> ('a, 'm) sys \<Rightarrow> ('a, 'm) sys option" where
  "futex_lock (BccLock c) s =
     (if cs_bccLock (s_caches s c) then None else Some (upd_cache c (\<lambda>k. k\<lparr>cs_bccLock := True\<rparr>) s))"
| "futex_lock (OutsideLock l) s =
     (if s_outLocks s l then None else Some (s\<lparr>s_outLocks := (s_outLocks s)(l := True)\<rparr>))"

fun futex_unlock :: "lock_ptr \<Rightarrow> ('a, 'm) sys \<Rightarrow> ('a, 'm) sys" where
  "futex_unlock (BccLock c) s = upd_cache c (\<lambda>k. k\<lparr>cs_bccLock := False\<rparr>) s"
| "futex_unlock (OutsideLock l) s = s\<lparr>s_outLocks := (s_outLocks s)(l := False)\<rparr>"

definition tcc_lock :: "nat \<Rightarrow> ('a, 'm) sys \<Rightarrow> ('a, 'm) sys option" where
  "tcc_lock c s =
     (if cs_tccLock (s_caches s c) then None else Some (upd_cache c (\<lambda>k. k\<lparr>cs_tccLock := True\<rparr>) s))"

definition tcc_unlock :: "nat \<Rightarrow> ('a, 'm) sys \<Rightarrow> ('a, 'm) sys" where
  "tcc_unlock c = upd_cache c (\<lambda>k. k\<lparr>cs_tccLock := False\<rparr>)"

section \<open>Bottom controller\<close>

fun parent_hash :: "nat \<Rightarrow> u64 \<Rightarrow> u32 \<Rightarrow> u32" where
  "parent_hash 0 tmp res = res"
| "parent_hash (Suc n) tmp res = parent_hash n (drop_bit 16 tmp) (res XOR ucast (0xffff AND tmp))"

definition getParentId :: "'a cache_cfg \<Rightarrow> Address \<Rightarrow> nat" where
  "getParentId cf lineAddr = unat (parent_hash 4 lineAddr 0) mod length (cfg_parents cf)"

definition lat32 :: "nat \<Rightarrow> nat \<Rightarrow> nat" where
  "lat32 resp cyc = nat ((int resp - int cyc) mod 2 ^ 32)"

definition bcc_isExclusive :: "nat \<Rightarrow> nat \<Rightarrow> ('a, 'm) sys \<Rightarrow> bool" where
  "bcc_isExclusive c lineId s \<longleftrightarrow> bcc_state c lineId s = E \<or> bcc_state c lineId s = M"

definition bcc_isValid :: "nat \<Rightarrow> nat \<Rightarrow> ('a, 'm) sys \<Rightarrow> bool" where
  "bcc_isValid c lineId s \<longleftrightarrow> bcc_state c lineId s \<noteq> I"

definition bcc_req ::
  "'a cache_cfg \<Rightarrow> nat \<Rightarrow> Address \<Rightarrow> AccessType \<Rightarrow> nat \<Rightarrow> nat \<Rightarrow> nat \<Rightarrow> u32 \<Rightarrow> ('a, 'm) sys \<Rightarrow> MemReq" where
  "bcc_req cf c lineAddr type lineId cyc srcId flags s =
     \<lparr>req_lineAddr = lineAddr, req_type = type, req_childId = cfg_selfId cf,
      req_state = Slot c lineId, req_cycle = cyc, req_childLock = Some (BccLock c),
      req_initialState = bcc_state c lineId s, req_srcId = srcId, req_flags = flags\<rparr>"

definition bcc_processEviction ::
  "('a, 'm) acc_fun \<Rightarrow> 'a cache_cfg \<Rightarrow> nat \<Rightarrow> Address \<Rightarrow> nat \<Rightarrow> bool \<Rightarrow> nat \<Rightarrow> nat \<Rightarrow>
   ('a, 'm) sys \<Rightarrow> (nat \<times> ('a, 'm) sys) option" where
  "bcc_processEviction acc cf c wbLineAddr lineId lowerLevelWriteback cyc srcId s = do {
     s1 \<leftarrow> (if lowerLevelWriteback then do {
              assert_that (bcc_state c lineId s = M \<or> bcc_state c lineId s = E);
              Some (set_bcc c lineId M s)
            } else Some s);
     (respCycle, s2) \<leftarrow> (case bcc_state c lineId s1 of
         I \<Rightarrow> Some (cyc, s1)
       | M \<Rightarrow> acc (cfg_parents cf ! getParentId cf wbLineAddr)
               (bcc_req cf c wbLineAddr PUTX lineId cyc srcId 0 s1) s1
       | _ \<Rightarrow> acc (cfg_parents cf ! getParentId cf wbLineAddr)
               (bcc_req cf c wbLineAddr PUTS lineId cyc srcId 0 s1) s1);
     assert_that (bcc_state c lineId s2 = I);
     Some (respCycle, s2)
   }"

text \<open>The request to the next level on a miss, with its latency accounting.\<close>

definition bcc_fetch ::
  "('a, 'm) acc_fun \<Rightarrow> 'a cache_cfg \<Rightarrow> nat \<Rightarrow> Address \<Rightarrow> AccessType \<Rightarrow> nat \<Rightarrow> nat \<Rightarrow> nat \<Rightarrow> u32 \<Rightarrow>
   ('a, 'm) sys \<Rightarrow> (nat \<times> ('a, 'm) sys) option" where
  "bcc_fetch acc cf c lineAddr type lineId cyc srcId flags s = do {
     let parentId = getParentId cf lineAddr;
     (resp, s1) \<leftarrow> acc (cfg_parents cf ! parentId) (bcc_req cf c lineAddr type lineId cyc srcId flags s) s;
     let nextLevelLat = lat32 resp cyc;
     let netLat = cfg_parentRTTs cf ! parentId;
     let s2 = prof c (\<lambda>p. p\<lparr>profGETNextLevelLat := profGETNextLevelLat p + nextLevelLat,
                            profGETNetLat := profGETNetLat p + netLat\<rparr>) s1;
     Some (cyc + trunc32 (nextLevelLat + netLat), s2)
   }"

definition bcc_processAccess ::
  "('a, 'm) acc_fun \<Rightarrow> 'a cache_cfg \<Rightarrow> nat \<Rightarrow> Address \<Rightarrow> nat \<Rightarrow> AccessType \<Rightarrow> nat \<Rightarrow> nat \<Rightarrow> u32 \<Rightarrow>
   ('a, 'm) sys \<Rightarrow> (nat \<times> ('a, 'm) sys) option" where
  "bcc_processAccess acc cf c lineAddr lineId type cyc srcId flags s = do {
     (respCycle, s') \<leftarrow> (case type of
         PUTS \<Rightarrow> do {
           assert_that (bcc_state c lineId s \<noteq> I);
           Some (cyc, prof c (\<lambda>p. p\<lparr>profPUTS := profPUTS p + 1\<rparr>) s)
         }
       | PUTX \<Rightarrow> do {
           assert_that (bcc_state c lineId s = M \<or> bcc_state c lineId s = E);
           let s1 = (if bcc_state c lineId s = E then set_bcc c lineId M s else s);
           Some (cyc, prof c (\<lambda>p. p\<lparr>profPUTX := profPUTX p + 1\<rparr>) s1)
         }
       | GETS \<Rightarrow>
           (if bcc_state c lineId s = I then do {
              (resp, s1) \<leftarrow> bcc_fetch acc cf c lineAddr GETS lineId cyc srcId flags s;
              let s2 = prof c (\<lambda>p. p\<lparr>profGETSMiss := profGETSMiss p + 1\<rparr>) s1;
              assert_that (bcc_state c lineId s2 = S \<or> bcc_state c lineId s2 = E);
              Some (resp, s2)
            } else Some (cyc, prof c (\<lambda>p. p\<lparr>profGETSHit := profGETSHit p + 1\<rparr>) s))
       | GETX \<Rightarrow> do {
           (resp, s2) \<leftarrow>
             (if bcc_state c lineId s = I \<or> bcc_state c lineId s = S then do {
                let s1 = (if bcc_state c lineId s = I
                          then prof c (\<lambda>p. p\<lparr>profGETXMissIM := profGETXMissIM p + 1\<rparr>) s
                          else prof c (\<lambda>p. p\<lparr>profGETXMissSM := profGETXMissSM p + 1\<rparr>) s);
                bcc_fetch acc cf c lineAddr GETX lineId cyc srcId flags s1
              } else do {
                let s1 = (if bcc_state c lineId s = E then set_bcc c lineId M s else s);
                Some (cyc, prof c (\<lambda>p. p\<lparr>profGETXHit := profGETXHit p + 1\<rparr>) s1)
              });
           assert_that (bcc_state c lineId s2 = M);
           Some (resp, s2)
         });
     assert_that (respCycle \<ge> cyc);
     Some (respCycle, s')
   }"

definition bcc_processWritebackOnAccess ::
  "nat \<Rightarrow> nat \<Rightarrow> ('a, 'm) sys \<Rightarrow> ('a, 'm) sys option" where
  "bcc_processWritebackOnAccess c lineId s = do {
     assert_that (bcc_state c lineId s = M \<or> bcc_state c lineId s = E);
     Some (if bcc_state c lineId s = E then set_bcc c lineId M s else s)
   }"

definition bcc_processInval ::
  "nat \<Rightarrow> nat \<Rightarrow> InvType \<Rightarrow> bool \<Rightarrow> ('a, 'm) sys \<Rightarrow> (bool \<times> ('a, 'm) sys) option" where
  "bcc_processInval c lineId type reqWriteback s = do {
     let st = bcc_state c lineId s;
     assert_that (st \<noteq> I);
     case type of
       INVX \<Rightarrow> do {
         assert_that (st = E \<or> st = M);
         Some (if st = M then True else reqWriteback,
               prof c (\<lambda>p. p\<lparr>profINVX := profINVX p + 1\<rparr>) (set_bcc c lineId S s))
       }
     | INV \<Rightarrow> do {
         assert_that (st \<noteq> I);
         Some (if st = M then True else reqWriteback,
               prof c (\<lambda>p. p\<lparr>profINV := profINV p + 1\<rparr>) (set_bcc c lineId I s))
       }
     | FWD \<Rightarrow> do {
         assert_that (st = S);
         Some (reqWriteback, prof c (\<lambda>p. p\<lparr>profFWD := profFWD p + 1\<rparr>) s)
       }
   }"

definition bcc_processNonInclusiveWriteback ::
  "('a, 'm) acc_fun \<Rightarrow> 'a cache_cfg \<Rightarrow> nat \<Rightarrow> Address \<Rightarrow> AccessType \<Rightarrow> nat \<Rightarrow> state_ptr \<Rightarrow> nat \<Rightarrow> u32 \<Rightarrow>
   ('a, 'm) sys \<Rightarrow> (nat \<times> ('a, 'm) sys) option" where
  "bcc_processNonInclusiveWriteback acc cf c lineAddr type cyc state srcId flags s = do {
     assert_that (cfg_nonInclusiveHack cf);
     acc (cfg_parents cf ! getParentId cf lineAddr)
       \<lparr>req_lineAddr = lineAddr, req_type = type, req_childId = cfg_selfId cf, req_state = state,
        req_cycle = cyc, req_childLock = Some (BccLock c), req_initialState = get_state state s,
        req_srcId = srcId, req_flags = flags OR NONINCLWB\<rparr> s
   }"

section \<open>Top controller\<close>

definition tcc_init :: "nat list \<Rightarrow> nat list option" where
  "tcc_init children = do {
     assert_that (\<not> length children > MAX_CACHE_CHILDREN);
     Some children
   }"

text \<open>The loop over the children; \<open>maxCycle\<close>, the writeback flag and \<open>sentInvs\<close> are its variables.\<close>

fun inv_children ::
  "('a, 'm) inv_fun \<Rightarrow> 'a cache_cfg \<Rightarrow> nat \<Rightarrow> nat \<Rightarrow> InvReq \<Rightarrow> nat list \<Rightarrow> nat \<Rightarrow> bool \<Rightarrow> nat \<Rightarrow>
   ('a, 'm) sys \<Rightarrow> (nat \<times> bool \<times> nat \<times> ('a, 'm) sys) option" where
  "inv_children ivl cf c lineId req [] maxCycle wb sentInvs s = Some (maxCycle, wb, sentInvs, s)"
| "inv_children ivl cf c lineId req (i # is) maxCycle wb sentInvs s =
     (if en_sharers (tcc_entry c lineId s) i then do {
        (resp, wb1, s1) \<leftarrow> ivl (cfg_children cf ! i) req wb s;
        let respCycle = resp + cfg_childrenRTTs cf ! i;
        let e = tcc_entry c lineId s1;
        let s2 = (if inv_type req = INV
                  then set_tcc c lineId (e\<lparr>en_sharers := (en_sharers e)(i := False)\<rparr>) s1 else s1);
        inv_children ivl cf c lineId req is (max respCycle maxCycle) wb1 (sentInvs + 1) s2
      } else inv_children ivl cf c lineId req is maxCycle wb sentInvs s)"

definition sendInvalidates ::
  "('a, 'm) inv_fun \<Rightarrow> 'a cache_cfg \<Rightarrow> nat \<Rightarrow> Address \<Rightarrow> nat \<Rightarrow> InvType \<Rightarrow> bool \<Rightarrow> nat \<Rightarrow> nat \<Rightarrow>
   ('a, 'm) sys \<Rightarrow> (nat \<times> bool \<times> ('a, 'm) sys) option" where
  "sendInvalidates ivl cf c lineAddr lineId type reqWriteback cyc srcId s =
     (let e = tcc_entry c lineId s in
      if type = INVX \<and> \<not> en_isExclusive e then Some (cyc, reqWriteback, s)
      else if en_isEmpty e then Some (cyc, reqWriteback, s)
      else do {
        (maxCycle, wb, sentInvs, s1) \<leftarrow>
          inv_children ivl cf c lineId
            \<lparr>inv_lineAddr = lineAddr, inv_type = type, inv_cycle = cyc, inv_srcId = srcId\<rparr>
            [0..<length (cfg_children cf)] cyc reqWriteback 0 s;
        let e1 = tcc_entry c lineId s1;
        assert_that (sentInvs = en_numSharers e1);
        if type = INV then Some (maxCycle, wb, set_tcc c lineId (e1\<lparr>en_numSharers := 0\<rparr>) s1)
        else do {
          assert_that (en_exclusive e1);
          assert_that (en_numSharers e1 = 1);
          Some (maxCycle, wb, set_tcc c lineId (e1\<lparr>en_exclusive := False\<rparr>) s1)
        }
      })"

definition tcc_processEviction ::
  "('a, 'm) inv_fun \<Rightarrow> 'a cache_cfg \<Rightarrow> nat \<Rightarrow> Address \<Rightarrow> nat \<Rightarrow> bool \<Rightarrow> nat \<Rightarrow> nat \<Rightarrow>
   ('a, 'm) sys \<Rightarrow> (nat \<times> bool \<times> ('a, 'm) sys) option" where
  "tcc_processEviction ivl cf c wbLineAddr lineId reqWriteback cyc srcId s =
     (if cfg_nonInclusiveHack cf then Some (cyc, reqWriteback, set_tcc c lineId entry_clear s)
      else sendInvalidates ivl cf c wbLineAddr lineId INV reqWriteback cyc srcId s)"

text \<open>\<open>PUTX\<close> falls through to the code of \<open>PUTS\<close> unless the child keeps the line exclusively.\<close>

definition tcc_put ::
  "nat \<Rightarrow> nat \<Rightarrow> nat \<Rightarrow> state_ptr \<Rightarrow> ('a, 'm) sys \<Rightarrow> ('a, 'm) sys option" where
  "tcc_put c lineId childId childState s = do {
     let e = tcc_entry c lineId s;
     assert_that (en_sharers e childId);
     let s1 = set_tcc c lineId (e\<lparr>en_sharers := (en_sharers e)(childId := False),
                                  en_numSharers := dec32 (en_numSharers e)\<rparr>) s;
     Some (put_state childState I s1)
   }"

definition tcc_gets ::
  "('a, 'm) inv_fun \<Rightarrow> 'a cache_cfg \<Rightarrow> nat \<Rightarrow> Address \<Rightarrow> nat \<Rightarrow> nat \<Rightarrow> bool \<Rightarrow> state_ptr \<Rightarrow> bool \<Rightarrow> nat \<Rightarrow>
   nat \<Rightarrow> u32 \<Rightarrow> ('a, 'm) sys \<Rightarrow> (nat \<times> bool \<times> ('a, 'm) sys) option" where
  "tcc_gets ivl cf c lineAddr lineId childId haveExclusive childState wb cyc srcId flags s =
     (let e = tcc_entry c lineId s in
      if en_isEmpty e \<and> haveExclusive \<and> \<not> has_flag flags NOEXCL then
        Some (cyc, wb, put_state childState E
          (set_tcc c lineId (e\<lparr>en_exclusive := True, en_sharers := (en_sharers e)(childId := True),
                               en_numSharers := 1\<rparr>) s))
      else do {
        assert_that (\<not> en_sharers e childId);
        (respCycle, wb1, s1) \<leftarrow>
          (if en_isExclusive e then sendInvalidates ivl cf c lineAddr lineId INVX wb cyc srcId s
           else Some (cyc, wb, s));
        let e1 = tcc_entry c lineId s1;
        assert_that (\<not> en_isExclusive e1);
        Some (respCycle, wb1, put_state childState S
          (set_tcc c lineId (e1\<lparr>en_sharers := (en_sharers e1)(childId := True),
                                en_numSharers := inc32 (en_numSharers e1),
                                en_exclusive := False\<rparr>) s1))
      })"

definition tcc_getx ::
  "('a, 'm) inv_fun \<Rightarrow> 'a cache_cfg \<Rightarrow> nat \<Rightarrow> Address \<Rightarrow> nat \<Rightarrow> nat \<Rightarrow> bool \<Rightarrow> state_ptr \<Rightarrow> bool \<Rightarrow> nat \<Rightarrow>
   nat \<Rightarrow> ('a, 'm) sys \<Rightarrow> (nat \<times> bool \<times> ('a, 'm) sys) option" where
  "tcc_getx ivl cf c lineAddr lineId childId haveExclusive childState wb cyc srcId s = do {
     assert_that haveExclusive;
     let e = tcc_entry c lineId s;
     s1 \<leftarrow> (if en_sharers e childId then do {
              assert_that (\<not> en_isExclusive e);
              Some (set_tcc c lineId (e\<lparr>en_sharers := (en_sharers e)(childId := False),
                                        en_numSharers := dec32 (en_numSharers e)\<rparr>) s)
            } else Some s);
     (respCycle, wb1, s2) \<leftarrow> sendInvalidates ivl cf c lineAddr lineId INV wb cyc srcId s1;
     let e2 = tcc_entry c lineId s2;
     let e3 = e2\<lparr>en_sharers := (en_sharers e2)(childId := True),
                 en_numSharers := inc32 (en_numSharers e2), en_exclusive := True\<rparr>;
     assert_that (en_numSharers e3 = 1);
     Some (respCycle, wb1, put_state childState M (set_tcc c lineId e3 s2))
   }"

definition tcc_processAccess ::
  "('a, 'm) inv_fun \<Rightarrow> 'a cache_cfg \<Rightarrow> nat \<Rightarrow> Address \<Rightarrow> nat \<Rightarrow> AccessType \<Rightarrow> nat \<Rightarrow> bool \<Rightarrow> state_ptr \<Rightarrow>
   bool \<Rightarrow> nat \<Rightarrow> nat \<Rightarrow> u32 \<Rightarrow> ('a, 'm) sys \<Rightarrow> (nat \<times> bool \<times> ('a, 'm) sys) option" where
  "tcc_processAccess ivl cf c lineAddr lineId type childId haveExclusive childState inducedWriteback
     cyc srcId flags s =
     (case type of
        PUTX \<Rightarrow> do {
          let e = tcc_entry c lineId s;
          assert_that (en_isExclusive e);
          if has_flag flags PUTX_KEEPEXCL then do {
            assert_that (en_sharers e childId);
            assert_that (get_state childState s = M);
            Some (cyc, inducedWriteback, put_state childState E s)
          } else do {
            s' \<leftarrow> tcc_put c lineId childId childState s;
            Some (cyc, inducedWriteback, s')
          }
        }
      | PUTS \<Rightarrow> do {
          s' \<leftarrow> tcc_put c lineId childId childState s;
          Some (cyc, inducedWriteback, s')
        }
      | GETS \<Rightarrow> tcc_gets ivl cf c lineAddr lineId childId haveExclusive childState inducedWriteback
                 cyc srcId flags s
      | GETX \<Rightarrow> tcc_getx ivl cf c lineAddr lineId childId haveExclusive childState inducedWriteback
                 cyc srcId s)"

definition tcc_processInval ::
  "('a, 'm) inv_fun \<Rightarrow> 'a cache_cfg \<Rightarrow> nat \<Rightarrow> Address \<Rightarrow> nat \<Rightarrow> InvType \<Rightarrow> bool \<Rightarrow> nat \<Rightarrow> nat \<Rightarrow>
   ('a, 'm) sys \<Rightarrow> (nat \<times> bool \<times> ('a, 'm) sys) option" where
  "tcc_processInval ivl cf c lineAddr lineId type reqWriteback cyc srcId s =
     (if type = FWD then do {
        assert_that (\<not> cfg_nonInclusiveHack cf);
        Some (cyc, reqWriteback, s)
      } else sendInvalidates ivl cf c lineAddr lineId type reqWriteback cyc srcId s)"

section \<open>Races\<close>

definition CheckForMESIRace ::
  "AccessType \<Rightarrow> MESIState \<Rightarrow> MESIState \<Rightarrow> (AccessType \<times> bool) option" where
  "CheckForMESIRace type state initialState =
     (if state \<noteq> initialState then
        (if type = PUTS \<or> type = PUTX then
           (if state = I then Some (type, True)
            else do {
              assert_that (state = S);
              Some (if type = PUTX then PUTS else type, False)
            })
         else if type = GETX then do {
           assert_that (initialState = S);
           assert_that (state = I);
           Some (type, False)
         }
         else None)
      else Some (type, False))"

section \<open>Non-terminal controller\<close>

text \<open>
  The optional out-parameter \<open>getDoneCycle\<close> is null in every call from \<open>Cache\<close> and is left out.
  A line id of -1 is \<open>None\<close>.
\<close>

definition unlock_child :: "MemReq \<Rightarrow> ('a, 'm) sys \<Rightarrow> ('a, 'm) sys" where
  "unlock_child req s = (case req_childLock req of None \<Rightarrow> s | Some l \<Rightarrow> futex_unlock l s)"

definition lock_child :: "MemReq \<Rightarrow> ('a, 'm) sys \<Rightarrow> ('a, 'm) sys option" where
  "lock_child req s = (case req_childLock req of None \<Rightarrow> Some s | Some l \<Rightarrow> futex_lock l s)"

definition mesi_startAccess ::
  "nat \<Rightarrow> MemReq \<Rightarrow> ('a, 'm) sys \<Rightarrow> (bool \<times> MemReq \<times> ('a, 'm) sys) option" where
  "mesi_startAccess c req s = do {
     assert_that (req_type req = GETS \<or> req_type req = GETX \<or> req_type req = PUTS \<or> req_type req = PUTX);
     s1 \<leftarrow> tcc_lock c (unlock_child req s);
     s2 \<leftarrow> futex_lock (BccLock c) s1;
     (type, skipAccess) \<leftarrow>
       CheckForMESIRace (req_type req) (get_state (req_state req) s2) (req_initialState req);
     Some (skipAccess, req\<lparr>req_type := type\<rparr>, s2)
   }"

definition mesi_shouldAllocate :: "'a cache_cfg \<Rightarrow> MemReq \<Rightarrow> bool option" where
  "mesi_shouldAllocate cf req =
     (if req_type req = GETS \<or> req_type req = GETX then Some True
      else do {
        assert_that (req_type req = PUTS \<or> req_type req = PUTX);
        assert_that (cfg_nonInclusiveHack cf);
        Some False
      })"

definition mesi_processEviction ::
  "('a, 'm) acc_fun \<Rightarrow> ('a, 'm) inv_fun \<Rightarrow> 'a cache_cfg \<Rightarrow> nat \<Rightarrow> MemReq \<Rightarrow> Address \<Rightarrow> nat \<Rightarrow> nat \<Rightarrow>
   ('a, 'm) sys \<Rightarrow> (nat \<times> ('a, 'm) sys) option" where
  "mesi_processEviction acc ivl cf c triggerReq wbLineAddr lineId startCycle s = do {
     (evCycle, lowerLevelWriteback, s1) \<leftarrow>
       tcc_processEviction ivl cf c wbLineAddr lineId False startCycle (req_srcId triggerReq) s;
     bcc_processEviction acc cf c wbLineAddr lineId lowerLevelWriteback evCycle (req_srcId triggerReq) s1
   }"

definition mesi_processAccess ::
  "('a, 'm) acc_fun \<Rightarrow> ('a, 'm) inv_fun \<Rightarrow> 'a cache_cfg \<Rightarrow> nat \<Rightarrow> MemReq \<Rightarrow> nat option \<Rightarrow> nat \<Rightarrow>
   ('a, 'm) sys \<Rightarrow> (nat \<times> ('a, 'm) sys) option" where
  "mesi_processAccess acc ivl cf c req lineId startCycle s =
     (case lineId of
        Some l \<Rightarrow>
          (if (req_type req = PUTS \<or> req_type req = PUTX) \<and> \<not> bcc_isValid c l s then do {
             assert_that (cfg_nonInclusiveHack cf);
             bcc_processNonInclusiveWriteback acc cf c (req_lineAddr req) (req_type req) startCycle
               (req_state req) (req_srcId req) (req_flags req) s
           } else do {
             let isPrefetch = has_flag (req_flags req) PREFETCH;
             assert_that (\<not> isPrefetch \<or> req_type req = GETS);
             let flags = req_flags req AND NOT PREFETCH;
             (respCycle, s1) \<leftarrow> bcc_processAccess acc cf c (req_lineAddr req) l (req_type req)
               startCycle (req_srcId req) flags s;
             if isPrefetch then Some (respCycle, s1)
             else do {
               (respCycle2, lowerLevelWriteback, s2) \<leftarrow>
                 tcc_processAccess ivl cf c (req_lineAddr req) l (req_type req) (req_childId req)
                   (bcc_isExclusive c l s1) (req_state req) False respCycle (req_srcId req) flags s1;
               s3 \<leftarrow> (if lowerLevelWriteback then bcc_processWritebackOnAccess c l s2 else Some s2);
               Some (respCycle2, s3)
             }
           })
      | None \<Rightarrow> do {
          assert_that (cfg_nonInclusiveHack cf);
          assert_that (req_type req = PUTS \<or> req_type req = PUTX);
          bcc_processNonInclusiveWriteback acc cf c (req_lineAddr req) (req_type req) startCycle
            (req_state req) (req_srcId req) (req_flags req) s
        })"

definition mesi_endAccess :: "nat \<Rightarrow> MemReq \<Rightarrow> ('a, 'm) sys \<Rightarrow> ('a, 'm) sys option" where
  "mesi_endAccess c req s = do {
     s1 \<leftarrow> lock_child req s;
     Some (tcc_unlock c (futex_unlock (BccLock c) s1))
   }"

definition mesi_startInv :: "nat \<Rightarrow> ('a, 'm) sys \<Rightarrow> ('a, 'm) sys option" where
  "mesi_startInv c s = futex_lock (BccLock c) s"

definition mesi_processInv ::
  "('a, 'm) inv_fun \<Rightarrow> 'a cache_cfg \<Rightarrow> nat \<Rightarrow> InvReq \<Rightarrow> nat \<Rightarrow> nat \<Rightarrow> bool \<Rightarrow>
   ('a, 'm) sys \<Rightarrow> (nat \<times> bool \<times> ('a, 'm) sys) option" where
  "mesi_processInv ivl cf c req lineId startCycle wb s = do {
     (respCycle, wb1, s1) \<leftarrow>
       tcc_processInval ivl cf c (inv_lineAddr req) lineId (inv_type req) wb startCycle (inv_srcId req) s;
     (wb2, s2) \<leftarrow> bcc_processInval c lineId (inv_type req) wb1 s1;
     Some (respCycle, wb2, futex_unlock (BccLock c) s2)
   }"

definition mesi_numSharers :: "nat \<Rightarrow> ('a, 'm) sys \<Rightarrow> nat \<Rightarrow> nat" where
  "mesi_numSharers c s lineId = en_numSharers (tcc_entry c lineId s)"

section \<open>Terminal controller\<close>

definition term_startAccess ::
  "nat \<Rightarrow> MemReq \<Rightarrow> ('a, 'm) sys \<Rightarrow> (bool \<times> MemReq \<times> ('a, 'm) sys) option" where
  "term_startAccess c req s = do {
     assert_that (req_type req = GETS \<or> req_type req = GETX);
     s1 \<leftarrow> futex_lock (BccLock c) (unlock_child req s);
     (type, skipAccess) \<leftarrow>
       CheckForMESIRace (req_type req) (get_state (req_state req) s1) (req_initialState req);
     Some (skipAccess, req\<lparr>req_type := type\<rparr>, s1)
   }"

definition term_processEviction ::
  "('a, 'm) acc_fun \<Rightarrow> 'a cache_cfg \<Rightarrow> nat \<Rightarrow> MemReq \<Rightarrow> Address \<Rightarrow> nat \<Rightarrow> nat \<Rightarrow>
   ('a, 'm) sys \<Rightarrow> (nat \<times> ('a, 'm) sys) option" where
  "term_processEviction acc cf c triggerReq wbLineAddr lineId startCycle s =
     bcc_processEviction acc cf c wbLineAddr lineId False startCycle (req_srcId triggerReq) s"

definition term_processAccess ::
  "('a, 'm) acc_fun \<Rightarrow> 'a cache_cfg \<Rightarrow> nat \<Rightarrow> MemReq \<Rightarrow> nat option \<Rightarrow> nat \<Rightarrow>
   ('a, 'm) sys \<Rightarrow> (nat \<times> ('a, 'm) sys) option" where
  "term_processAccess acc cf c req lineId startCycle s = do {
     l \<leftarrow> lineId;
     bcc_processAccess acc cf c (req_lineAddr req) l (req_type req) startCycle (req_srcId req)
       (req_flags req) s
   }"

definition term_endAccess :: "nat \<Rightarrow> MemReq \<Rightarrow> ('a, 'm) sys \<Rightarrow> ('a, 'm) sys option" where
  "term_endAccess c req s = do {
     s1 \<leftarrow> lock_child req s;
     Some (futex_unlock (BccLock c) s1)
   }"

definition term_processInv ::
  "nat \<Rightarrow> InvReq \<Rightarrow> nat \<Rightarrow> nat \<Rightarrow> bool \<Rightarrow> ('a, 'm) sys \<Rightarrow> (nat \<times> bool \<times> ('a, 'm) sys) option" where
  "term_processInv c req lineId startCycle wb s = do {
     (wb1, s1) \<leftarrow> bcc_processInval c lineId (inv_type req) wb s;
     Some (startCycle, wb1, futex_unlock (BccLock c) s1)
   }"

section \<open>Virtual dispatch\<close>

definition cc_startAccess where
  "cc_startAccess cf c req s =
     (if cfg_terminal cf then term_startAccess c req s else mesi_startAccess c req s)"

definition cc_shouldAllocate where
  "cc_shouldAllocate cf req = (if cfg_terminal cf then Some True else mesi_shouldAllocate cf req)"

definition cc_processEviction where
  "cc_processEviction acc ivl cf c triggerReq wbLineAddr lineId startCycle s =
     (if cfg_terminal cf then term_processEviction acc cf c triggerReq wbLineAddr lineId startCycle s
      else mesi_processEviction acc ivl cf c triggerReq wbLineAddr lineId startCycle s)"

definition cc_processAccess where
  "cc_processAccess acc ivl cf c req lineId startCycle s =
     (if cfg_terminal cf then term_processAccess acc cf c req lineId startCycle s
      else mesi_processAccess acc ivl cf c req lineId startCycle s)"

definition cc_endAccess where
  "cc_endAccess cf c req s =
     (if cfg_terminal cf then term_endAccess c req s else mesi_endAccess c req s)"

definition cc_processInv where
  "cc_processInv ivl cf c req lineId startCycle wb s =
     (if cfg_terminal cf then term_processInv c req lineId startCycle wb s
      else mesi_processInv ivl cf c req lineId startCycle wb s)"

definition cc_numSharers where
  "cc_numSharers cf c s lineId = (if cfg_terminal cf then 0 else mesi_numSharers c s lineId)"

end
