(* ===== verification/Mem_Ctrls.thy ===== *)
theory Mem_Ctrls
  imports Complex_Main Coherence
begin

text \<open>
  Memory controllers of src/src/mem_ctrls.h and src/src/mem_ctrls.cpp. A controller is reached by the
  virtual call \<open>access\<close>: it writes the state of the requester, may push a timing record for the
  source of the request, and returns a cycle. The type \<open>mem_op\<close> is that method on its private
  state, the event heap and the event recorder of the source.

  The M/D/1 model computes with doubles. Every floating-point operation is the exact rational
  operation followed by the rounding function \<open>rnd\<close>, a parameter; its documented behaviour used
  below is that it is monotone and keeps the integers of 32 bits. The source reads \<open>numPhases\<close> and
  \<open>phaseLength\<close> from the global simulation information; they are fields of the state here.
\<close>

type_synonym 'm mem_op =
  "MemReq \<Rightarrow> 'm \<times> ev_heap \<times> EventRecorder option \<Rightarrow>
   (nat \<times> MESIState \<times> 'm \<times> ev_heap \<times> EventRecorder option) option"

section \<open>Simple memory\<close>

definition mem_grant :: "MemReq \<Rightarrow> MESIState" where
  "mem_grant req = (case req_type req of
     PUTS \<Rightarrow> I | PUTX \<Rightarrow> I | GETS \<Rightarrow> (if req_is NOEXCL req then S else E) | GETX \<Rightarrow> M)"

record SimpleMemory =
  sm_latency :: nat

definition simple_access :: "SimpleMemory mem_op" where
  "simple_access req ms = (case ms of (m, h, er) \<Rightarrow> do {
     let respCycle = req_cycle req + sm_latency m;
     assert_that (respCycle > req_cycle req);
     Some (respCycle, mem_grant req, m, h, er)
   })"

section \<open>M/D/1 memory\<close>

record MD1Memory =
  md_lastPhase :: nat
  md_maxRequestsPerCycle :: rat
  md_smoothedPhaseAccesses :: rat
  md_zeroLoadLatency :: nat
  md_curLatency :: nat
  md_profReads :: nat
  md_profWrites :: nat
  md_profTotalRdLat :: nat
  md_profTotalWrLat :: nat
  md_profLoad :: nat
  md_profUpdates :: nat
  md_profClampedLoads :: nat
  md_curPhaseAccesses :: nat
  md_numPhases :: nat
  md_phaseLength :: nat

definition md1_new :: "(rat \<Rightarrow> rat) \<Rightarrow> nat \<Rightarrow> nat \<Rightarrow> nat \<Rightarrow> nat \<Rightarrow> nat \<Rightarrow> MD1Memory option" where
  "md1_new rnd requestSize megacyclesPerSecond megabytesPerSecond zeroLoadLatency phaseLength = do {
     let bytesPerCycle = rnd (of_nat megabytesPerSecond / of_nat megacyclesPerSecond);
     let maxRequestsPerCycle = rnd (bytesPerCycle / of_nat requestSize);
     assert_that (maxRequestsPerCycle > 0);
     Some \<lparr>md_lastPhase = 0, md_maxRequestsPerCycle = maxRequestsPerCycle,
           md_smoothedPhaseAccesses = 0, md_zeroLoadLatency = zeroLoadLatency,
           md_curLatency = zeroLoadLatency, md_profReads = 0, md_profWrites = 0,
           md_profTotalRdLat = 0, md_profTotalWrLat = 0, md_profLoad = 0, md_profUpdates = 0,
           md_profClampedLoads = 0, md_curPhaseAccesses = 0, md_numPhases = 0,
           md_phaseLength = phaseLength\<rparr>
   }"

definition updateLatency :: "(rat \<Rightarrow> rat) \<Rightarrow> MD1Memory \<Rightarrow> MD1Memory" where
  "updateLatency rnd m =
     (let phaseCycles = trunc32 ((md_numPhases m - md_lastPhase m) * md_phaseLength m) in
      if phaseCycles < 10000 then m
      else
        (let smoothed = rnd (rnd (of_nat (md_curPhaseAccesses m) * (1 / 2)) +
                             rnd (md_smoothedPhaseAccesses m * (1 / 2)));
             requestsPerCycle = rnd (smoothed / of_nat phaseCycles);
             load0 = rnd (requestsPerCycle / md_maxRequestsPerCycle m);
             clamped = load0 > rnd (95 / 100);
             load1 = (if clamped then rnd (95 / 100) else load0);
             latMultiplier = rnd (1 + rnd (rnd (1 / 2 * load1) / rnd (1 - load1)));
             curLatency = trunc32 (nat \<lfloor>rnd (latMultiplier * of_nat (md_zeroLoadLatency m))\<rfloor>);
             intLoad = trunc32 (nat \<lfloor>rnd (load1 * 100)\<rfloor>)
         in m\<lparr>md_smoothedPhaseAccesses := smoothed,
              md_profClampedLoads := md_profClampedLoads m + (if clamped then 1 else 0),
              md_curLatency := curLatency, md_profLoad := md_profLoad m + intLoad,
              md_profUpdates := md_profUpdates m + 1, md_curPhaseAccesses := 0,
              md_lastPhase := md_numPhases m\<rparr>))"

definition md1_account :: "AccessType \<Rightarrow> MD1Memory \<Rightarrow> MD1Memory" where
  "md1_account t m = (case t of
     PUTS \<Rightarrow> m
   | PUTX \<Rightarrow> m\<lparr>md_profWrites := md_profWrites m + 1,
               md_profTotalWrLat := md_profTotalWrLat m + md_curLatency m,
               md_curPhaseAccesses := inc32 (md_curPhaseAccesses m)\<rparr>
   | _ \<Rightarrow> m\<lparr>md_profReads := md_profReads m + 1,
            md_profTotalRdLat := md_profTotalRdLat m + md_curLatency m,
            md_curPhaseAccesses := inc32 (md_curPhaseAccesses m)\<rparr>)"

definition md1_access :: "(rat \<Rightarrow> rat) \<Rightarrow> MD1Memory mem_op" where
  "md1_access rnd req ms = (case ms of (m, h, er) \<Rightarrow>
     (let m1 = (if md_numPhases m > md_lastPhase m then updateLatency rnd m else m);
          m2 = md1_account (req_type req) m1
      in Some (req_cycle req + (if req_type req = PUTS then 0 else md_curLatency m2),
               mem_grant req, m2, h, er)))"

section \<open>The contract of a memory controller\<close>

text \<open>
  A recorder without a record, or with one valid record of a request that is not older than the
  given cycle and whose first event has not been scheduled.
\<close>

definition heap_ok :: "ev_heap \<Rightarrow> bool" where
  "heap_ok h \<longleftrightarrow> (\<forall>i\<ge>eh_next h. eh_ev h i = None)"

definition live_event :: "ev_heap \<Rightarrow> nat \<Rightarrow> bool" where
  "live_event h i \<longleftrightarrow> (\<exists>e. eh_ev h i = Some e \<and> te_state e = EV_NONE)"

definition rec_ok :: "nat \<Rightarrow> ev_heap \<Rightarrow> EventRecorder option \<Rightarrow> bool" where
  "rec_ok cyc h er = (case er of None \<Rightarrow> True
     | Some r \<Rightarrow> (case tr_startEvent (er_tr r) of None \<Rightarrow> True
         | Some i \<Rightarrow> live_event h i \<and> tr_reqCycle (er_tr r) \<ge> cyc))"

definition rec_none :: "EventRecorder option \<Rightarrow> bool" where
  "rec_none er = (case er of None \<Rightarrow> True | Some r \<Rightarrow> \<not> hasRecord r)"

definition heap_le :: "ev_heap \<Rightarrow> ev_heap \<Rightarrow> bool" where
  "heap_le h h' \<longleftrightarrow> heap_ok h' \<and> (\<forall>i. live_event h i \<longrightarrow> live_event h' i)"

locale memory_ctrl =
  fixes mop :: "'m mem_op" and minv :: "'m \<Rightarrow> bool"
  assumes mem_total: "minv m \<Longrightarrow> heap_ok h \<Longrightarrow> rec_none er \<Longrightarrow>
      \<exists>resp m' h' er'. mop req (m, h, er) = Some (resp, mem_grant req, m', h', er') \<and>
        req_cycle req \<le> resp \<and> minv m' \<and> heap_le h h' \<and> rec_ok (req_cycle req) h' er' \<and>
        (er' = None \<longleftrightarrow> er = None)"

lemma heap_le_refl [simp]: "heap_ok h \<Longrightarrow> heap_le h h"
  by (simp add: heap_le_def)

lemma heap_le_trans: "heap_le h h' \<Longrightarrow> heap_le h' h'' \<Longrightarrow> heap_le h h''"
  by (simp add: heap_le_def)

lemma rec_none_ok [simp]: "rec_none er \<Longrightarrow> rec_ok cyc h er"
  by (auto simp: rec_none_def rec_ok_def hasRecord_def tr_isValid_def split: option.splits)

interpretation simple_mem: memory_ctrl simple_access "\<lambda>m. sm_latency m > 0"
  by unfold_locales (simp add: simple_access_def Let_def)

interpretation md1_mem: memory_ctrl "md1_access rnd" "\<lambda>_. True"
  by unfold_locales (simp add: md1_access_def Let_def)

text \<open>
  The throttled latency is never below the unloaded one, and never above the one at the load at
  which the code clamps.
\<close>

definition md1_multiplier :: "(rat \<Rightarrow> rat) \<Rightarrow> rat \<Rightarrow> rat" where
  "md1_multiplier rnd load = rnd (1 + rnd (rnd (1 / 2 * load) / rnd (1 - load)))"

definition md1_latency :: "(rat \<Rightarrow> rat) \<Rightarrow> rat \<Rightarrow> nat \<Rightarrow> rat" where
  "md1_latency rnd load zeroLoadLatency = rnd (md1_multiplier rnd load * of_nat zeroLoadLatency)"

definition rnd_ok :: "(rat \<Rightarrow> rat) \<Rightarrow> bool" where
  "rnd_ok rnd \<longleftrightarrow> mono rnd \<and> (\<forall>k<2 ^ 32. rnd (of_nat k) = of_nat k) \<and>
     0 < rnd (1 - rnd (95 / 100))"

lemma rnd_okD:
  assumes "rnd_ok rnd"
  shows "x \<le> y \<Longrightarrow> rnd x \<le> rnd y" "rnd 0 = 0" "rnd 1 = 1" "0 < rnd (1 - rnd (95 / 100))"
proof -
  have i: "k < 2 ^ 32 \<Longrightarrow> rnd (of_nat k) = of_nat k" for k using assms by (simp add: rnd_ok_def)
  show "rnd 0 = 0" "rnd 1 = 1" using i [of 0] i [of 1] by simp_all
qed (use assms in \<open>auto simp: rnd_ok_def mono_def\<close>)

lemma md1_multiplier_mono:
  assumes r: "rnd_ok rnd" and l: "0 \<le> load" "load \<le> rnd (95 / 100)"
  shows "1 \<le> md1_multiplier rnd load" "md1_multiplier rnd load \<le> md1_multiplier rnd (rnd (95 / 100))"
proof -
  note R = rnd_okD [OF r]
  have n: "0 \<le> rnd (1 / 2 * load)" using R(1) [of 0 "1 / 2 * load"] R(2) l by simp
  have d: "rnd (1 - rnd (95 / 100)) \<le> rnd (1 - load)" using R(1) l by simp
  then have "0 \<le> rnd (1 / 2 * load) / rnd (1 - load)" using n R(4) by simp
  then have "0 \<le> rnd (rnd (1 / 2 * load) / rnd (1 - load))" using R(1) [of 0] R(2) by simp
  then have "rnd 1 \<le> md1_multiplier rnd load" unfolding md1_multiplier_def by (intro R(1)) simp
  then show "1 \<le> md1_multiplier rnd load" using R(3) by simp
  have "rnd (1 / 2 * load) / rnd (1 - load) \<le> rnd (1 / 2 * rnd (95 / 100)) / rnd (1 - rnd (95 / 100))"
    using n d R(4) R(1) [of "1 / 2 * load" "1 / 2 * rnd (95 / 100)"] l by (intro frac_le) simp_all
  then show "md1_multiplier rnd load \<le> md1_multiplier rnd (rnd (95 / 100))"
    unfolding md1_multiplier_def by (intro R(1) add_left_mono) simp
qed

lemma md1_latency_bounds:
  assumes r: "rnd_ok rnd" and l: "0 \<le> load" "load \<le> rnd (95 / 100)" and z: "z < 2 ^ 32"
  shows "of_nat z \<le> md1_latency rnd load z" "md1_latency rnd load z \<le> md1_latency rnd (rnd (95 / 100)) z"
proof -
  note R = rnd_okD [OF r] and M = md1_multiplier_mono [OF r l]
  have "rnd (of_nat z) \<le> md1_latency rnd load z"
    unfolding md1_latency_def using M(1) mult_right_mono [OF M(1), of "of_nat z"] by (intro R(1)) simp
  then show "of_nat z \<le> md1_latency rnd load z" using r z by (simp add: rnd_ok_def)
  show "md1_latency rnd load z \<le> md1_latency rnd (rnd (95 / 100)) z"
    unfolding md1_latency_def by (intro R(1) mult_right_mono M(2)) simp
qed

lemma nat_floor_trunc:
  assumes "of_nat z \<le> q" "q \<le> b" "b < (2 :: rat) ^ 32"
  shows "z \<le> trunc32 (nat \<lfloor>q\<rfloor>)" "of_nat (trunc32 (nat \<lfloor>q\<rfloor>)) \<le> b"
proof -
  have f: "int z \<le> \<lfloor>q\<rfloor>" using assms(1) by (simp add: le_floor_iff)
  have "q < of_int (2 ^ 32)" using assms(2,3) by simp
  then have "\<lfloor>q\<rfloor> < int (2 ^ 32)" by (simp only: floor_less_iff) simp
  then have "nat \<lfloor>q\<rfloor> < 2 ^ 32" using f by (simp only: nat_less_iff)
  then have t: "trunc32 (nat \<lfloor>q\<rfloor>) = nat \<lfloor>q\<rfloor>" by (rule trunc32_id)
  show "z \<le> trunc32 (nat \<lfloor>q\<rfloor>)" using t f by linarith
  have "of_nat (nat \<lfloor>q\<rfloor>) = (of_int \<lfloor>q\<rfloor> :: rat)" using f by simp
  then show "of_nat (trunc32 (nat \<lfloor>q\<rfloor>)) \<le> b"
    using t of_int_floor_le [of q] assms(2) by linarith
qed

lemma updateLatency_bounds:
  assumes r: "rnd_ok rnd" and m: "0 \<le> md_smoothedPhaseAccesses m" "0 < md_maxRequestsPerCycle m"
    and z: "md_zeroLoadLatency m < 2 ^ 32"
    and fits: "md1_latency rnd (rnd (95 / 100)) (md_zeroLoadLatency m) < 2 ^ 32"
    and "10000 \<le> trunc32 ((md_numPhases m - md_lastPhase m) * md_phaseLength m)"
  shows "md_zeroLoadLatency m \<le> md_curLatency (updateLatency rnd m)"
    and "of_nat (md_curLatency (updateLatency rnd m)) \<le>
      md1_latency rnd (rnd (95 / 100)) (md_zeroLoadLatency m)"
proof -
  note R = rnd_okD [OF r]
  define pc where "pc = trunc32 ((md_numPhases m - md_lastPhase m) * md_phaseLength m)"
  define sm where "sm = rnd (rnd (of_nat (md_curPhaseAccesses m) * (1 / 2)) +
    rnd (md_smoothedPhaseAccesses m * (1 / 2)))"
  define l0 where "l0 = rnd (rnd (sm / of_nat pc) / md_maxRequestsPerCycle m)"
  define l1 where "l1 = (if l0 > rnd (95 / 100) then rnd (95 / 100) else l0)"
  have pos: "0 \<le> x \<Longrightarrow> 0 \<le> rnd x" for x using R(1) [of 0 x] R(2) by simp
  have "0 \<le> sm" unfolding sm_def using m by (intro pos add_nonneg_nonneg) simp_all
  then have "0 \<le> l0" unfolding l0_def using m by (intro pos divide_nonneg_pos divide_nonneg_nonneg) simp_all
  moreover have "0 \<le> rnd (95 / 100)" by (rule pos) simp
  ultimately have l: "0 \<le> l1" "l1 \<le> rnd (95 / 100)" by (auto simp: l1_def)
  have "md_curLatency (updateLatency rnd m) = trunc32 (nat \<lfloor>md1_latency rnd l1 (md_zeroLoadLatency m)\<rfloor>)"
    using assms(6) unfolding updateLatency_def Let_def md1_latency_def md1_multiplier_def
      l1_def l0_def sm_def pc_def by simp
  then show "md_zeroLoadLatency m \<le> md_curLatency (updateLatency rnd m)"
    and "of_nat (md_curLatency (updateLatency rnd m)) \<le>
      md1_latency rnd (rnd (95 / 100)) (md_zeroLoadLatency m)"
    using nat_floor_trunc [OF md1_latency_bounds [OF r l z] fits] by simp_all
qed

lemma rnd_ok_exact: "rnd_ok (\<lambda>x. x)"
  by (simp add: rnd_ok_def mono_def)

end
