(* ===== verification/Init_Cache.thy ===== *)
theory Init_Cache
  imports Network Cache_Arrays Mem_Ctrls
begin

text \<open>
  The builders of src/src/init.cpp: \<open>BuildCacheBank\<close>, \<open>BuildDDRMemory\<close>, \<open>BuildMemoryController\<close> and
  \<open>BuildCacheGroup\<close>. The objects they allocate are values of datatypes whose constructors are the
  constructors the source calls, with the arguments it passes; every panic and failed assertion of
  the builders is \<open>None\<close>. The hash of the configuration prefix (\<open>_Fnv_hash_bytes\<close> of the C++ library)
  is a parameter.
\<close>

section \<open>Global parameters\<close>

record zinfo =
  zi_lineSize :: nat
  zi_traceDriven :: bool
  zi_numCores :: nat
  zi_numProcs :: nat
  zi_numDomains :: nat
  zi_freqMHz :: nat
  zi_outputDir :: string

section \<open>Objects\<close>

datatype HashObj = IdHF | H3HF nat nat nat | SHA1HF nat

datatype PartMapperObj =
  CorePM nat | InstrDataPM | InstrDataCorePM nat | ProcessPM nat | InstrDataProcessPM nat | ProcessGroupPM

text \<open>A utility monitor: lines of the bank, sampled lines, ways, mapper and buckets.\<close>

datatype MonitorObj = UMon nat nat nat PartMapperObj nat

datatype ReplObj =
  LRU_rp bool nat | LFU_rp nat | LRUProfViol_rp nat | TreeLRU_rp nat nat | NRU_rp nat nat | Rand_rp nat
| WayPart_rp MonitorObj PartMapperObj nat nat bool
| IdealLRUPart_rp MonitorObj PartMapperObj nat nat
| Vantage_rp MonitorObj PartMapperObj nat nat nat nat nat nat bool

datatype ArrayObj = SetAssoc_arr nat nat | Z_arr nat nat nat | IdealLRU_arr nat | IdealLRUPart_arr nat

datatype CacheKind =
  SimpleCache | TimingCache_k nat nat nat nat nat | TracingCache_k string | FilterCache_k nat

record bank =
  b_name :: string
  b_kind :: CacheKind
  b_terminal :: bool
  b_nonInclusiveHack :: bool
  b_numLines :: nat
  b_array :: ArrayObj
  b_hash :: "HashObj option"
  b_rp :: ReplObj
  b_partInterval :: "nat option"
  b_accLat :: nat
  b_invLat :: nat

definition bank_lines :: "bank \<Rightarrow> nat" where
  "bank_lines b = (case b_array b of SetAssoc_arr n _ \<Rightarrow> n | Z_arr n _ _ \<Rightarrow> n | IdealLRU_arr n \<Rightarrow> n | IdealLRUPart_arr n \<Rightarrow> n)"

datatype BaseCache = CacheBank bank | TraceDriverProxy string | StreamPrefetcherObj string

section \<open>Cache banks\<close>

text \<open>
  Number of hash functions and ways; only the zcache has a number of candidates of its own.
\<close>

definition array_geometry :: "string \<Rightarrow> nat \<Rightarrow> nat \<Rightarrow> (nat \<times> nat) option" where
  "array_geometry arrayType ways numLines =
     (if arrayType = ''SetAssoc'' then Some (1, ways)
      else if arrayType = ''Z'' then do { assert_that (ways > 1); Some (ways, ways) }
      else if arrayType = ''IdealLRU'' \<or> arrayType = ''IdealLRUPart'' then Some (0, numLines)
      else None)"

text \<open>A division by zero ways and the number of leading zeros of no sets are undefined.\<close>

definition set_bits :: "nat \<Rightarrow> nat \<Rightarrow> (nat \<times> nat) option" where
  "set_bits numLines ways = do {
     assert_that (ways \<noteq> 0);
     let numSets = numLines div ways;
     assert_that (numSets \<noteq> 0);
     let setBits = 31 - builtin_clz (of_nat numSets);
     assert_that (2 ^ setBits = numSets);
     Some (numSets, setBits)
   }"

definition build_hash ::
  "(string \<Rightarrow> nat) \<Rightarrow> string \<Rightarrow> string \<Rightarrow> string \<Rightarrow> nat \<Rightarrow> nat \<Rightarrow> HashObj option option" where
  "build_hash fnv pfx arrayType hashType numHashes setBits =
     (if numHashes \<noteq> 0 then
        if hashType = ''None'' then do {
          assert_that (arrayType \<noteq> ''Z'');
          assert_that (numHashes = 1);
          Some (Some IdHF)
        }
        else if hashType = ''H3'' then Some (Some (H3HF numHashes setBits (trunc64 (0xCAC7EAFFA1 + fnv pfx))))
        else if hashType = ''SHA1'' then Some (Some (SHA1HF numHashes))
        else None
      else Some None)"

definition build_partMapper :: "zinfo \<Rightarrow> string \<Rightarrow> PartMapperObj option" where
  "build_partMapper zi partMapper =
     (if partMapper = ''Core'' then Some (CorePM (zi_numCores zi))
      else if partMapper = ''InstrData'' then Some InstrDataPM
      else if partMapper = ''InstrDataCore'' then Some (InstrDataCorePM (zi_numCores zi))
      else if partMapper = ''Process'' then Some (ProcessPM (zi_numProcs zi))
      else if partMapper = ''InstrDataProcess'' then Some (InstrDataProcessPM (zi_numProcs zi))
      else if partMapper = ''ProcessGroup'' then Some ProcessGroupPM
      else None)"

definition build_partRepl ::
  "libconfig \<Rightarrow> zinfo \<Rightarrow> string \<Rightarrow> string \<Rightarrow> string \<Rightarrow> nat \<Rightarrow> nat \<Rightarrow> nat \<Rightarrow> (ReplObj \<times> nat) option" where
  "build_partRepl cfg zi pfx replType arrayType numLines ways candidates = do {
     assert_that (\<not> (replType = ''WayPart'' \<and> arrayType \<noteq> ''SetAssoc''));
     partMapper \<leftarrow> get_str cfg (pfx @ ''repl.partMapper'') ''Core'';
     pm \<leftarrow> build_partMapper zi partMapper;
     umonLines \<leftarrow> get_u32 cfg (pfx @ ''repl.umonLines'') 256;
     umonWays \<leftarrow> get_u32 cfg (pfx @ ''repl.umonWays'') ways;
     buckets \<leftarrow> (if replType = ''WayPart'' then Some ways else get_u32 cfg (pfx @ ''repl.buckets'') 256);
     let mon = UMon numLines umonLines umonWays pm buckets;
     prp \<leftarrow>
       (if replType = ''WayPart'' then do {
          testMode \<leftarrow> get_bool cfg (pfx @ ''repl.testMode'') False;
          Some (WayPart_rp mon pm numLines ways testMode)
        }
        else if replType = ''IdealLRUPart'' then Some (IdealLRUPart_rp mon pm numLines buckets)
        else do {
          let assoc = (if arrayType = ''Z'' then candidates else ways);
          smoothTransients \<leftarrow> get_bool cfg (pfx @ ''repl.smoothTransients'') False;
          Some (Vantage_rp mon pm numLines assoc 85 10 50 buckets smoothTransients)
        });
     interval \<leftarrow> get_u32 cfg (pfx @ ''repl.interval'') 5000;
     Some (prp, interval)
   }"

definition build_repl ::
  "libconfig \<Rightarrow> zinfo \<Rightarrow> string \<Rightarrow> string \<Rightarrow> string \<Rightarrow> bool \<Rightarrow> nat \<Rightarrow> nat \<Rightarrow> nat \<Rightarrow> (ReplObj \<times> nat option) option" where
  "build_repl cfg zi pfx replType arrayType isTerminal numLines ways candidates =
     (if replType = ''LRU'' \<or> replType = ''LRUNoSh'' then Some (LRU_rp (replType = ''LRU'' \<and> \<not> isTerminal) numLines, None)
      else if replType = ''LFU'' then Some (LFU_rp numLines, None)
      else if replType = ''LRUProfViol'' then Some (LRUProfViol_rp numLines, None)
      else if replType = ''TreeLRU'' then Some (TreeLRU_rp numLines candidates, None)
      else if replType = ''NRU'' then Some (NRU_rp numLines candidates, None)
      else if replType = ''Rand'' then Some (Rand_rp candidates, None)
      else if replType = ''WayPart'' \<or> replType = ''Vantage'' \<or> replType = ''IdealLRUPart'' then
        map_option (\<lambda>(rp, ivl). (rp, Some ivl)) (build_partRepl cfg zi pfx replType arrayType numLines ways candidates)
      else None)"

definition build_array ::
  "string \<Rightarrow> string \<Rightarrow> HashObj option \<Rightarrow> ReplObj \<Rightarrow> nat \<Rightarrow> nat \<Rightarrow> nat \<Rightarrow> ArrayObj option" where
  "build_array arrayType replType hf rp numLines ways candidates =
     (if arrayType = ''SetAssoc'' then Some (SetAssoc_arr numLines ways)
      else if arrayType = ''Z'' then Some (Z_arr numLines ways candidates)
      else if arrayType = ''IdealLRU'' then do {
        assert_that (replType = ''LRU'');
        assert_that (hf = None);
        Some (IdealLRU_arr numLines)
      }
      else if arrayType = ''IdealLRUPart'' then do {
        assert_that (hf = None);
        assert_that (case rp of IdealLRUPart_rp _ _ _ _ \<Rightarrow> True | _ \<Rightarrow> False);
        Some (IdealLRUPart_arr numLines)
      }
      else None)"

definition build_kind ::
  "libconfig \<Rightarrow> zinfo \<Rightarrow> string \<Rightarrow> string \<Rightarrow> string \<Rightarrow> string \<times> string \<times> string \<Rightarrow> bool \<Rightarrow> nat \<Rightarrow> nat \<Rightarrow> nat \<Rightarrow> nat \<Rightarrow> CacheKind option" where
  "build_kind cfg zi pfx name type ahr isTerminal domain numSets ways candidates =
     (case ahr of (arrayType, hashType, replType) \<Rightarrow>
      if \<not> isTerminal then
        if type = ''Simple'' then Some SimpleCache
        else if type = ''Timing'' then do {
          mshrs \<leftarrow> get_u32 cfg (pfx @ ''mshrs'') 16;
          tagLat \<leftarrow> get_u32 cfg (pfx @ ''tagLat'') 5;
          timingCandidates \<leftarrow> get_u32 cfg (pfx @ ''timingCandidates'') candidates;
          Some (TimingCache_k mshrs tagLat ways timingCandidates domain)
        }
        else if type = ''Tracing'' then do {
          traceFile \<leftarrow> get_str cfg (pfx @ ''traceFile'') [];
          Some (TracingCache_k (if traceFile = [] then zi_outputDir zi @ ''/'' @ name @ ''.trace'' else traceFile))
        }
        else None
      else do {
        assert_that (type = ''Simple'');
        assert_that (\<not> (arrayType \<noteq> ''SetAssoc'' \<or> hashType \<noteq> ''None'' \<or> replType \<noteq> ''LRU''));
        Some (FilterCache_k numSets)
      })"

definition BuildCacheBank ::
  "(string \<Rightarrow> nat) \<Rightarrow> libconfig \<Rightarrow> zinfo \<Rightarrow> string \<Rightarrow> string \<Rightarrow> nat \<Rightarrow> bool \<Rightarrow> nat \<Rightarrow> BaseCache option" where
  "BuildCacheBank fnv cfg zi pfx name bankSize isTerminal domain = do {
     type \<leftarrow> get_str cfg (pfx @ ''type'') ''Simple'';
     if type = ''TraceDriven'' then do {
       assert_that (zi_traceDriven zi);
       assert_that isTerminal;
       Some (TraceDriverProxy name)
     } else do {
       let lineSize = zi_lineSize zi;
       assert_that (lineSize > 0);
       assert_that (\<not> bankSize mod lineSize \<noteq> 0);
       let numLines = bankSize div lineSize;
       ways0 \<leftarrow> get_u32 cfg (pfx @ ''array.ways'') 4;
       arrayType \<leftarrow> get_str cfg (pfx @ ''array.type'') ''SetAssoc'';
       candidates \<leftarrow> (if arrayType = ''Z'' then get_u32 cfg (pfx @ ''array.candidates'') 16 else Some ways0);
       (numHashes, ways) \<leftarrow> array_geometry arrayType ways0 numLines;
       (numSets, setBits) \<leftarrow> set_bits numLines ways;
       hashType \<leftarrow> get_str cfg (pfx @ ''array.hash'') (if arrayType = ''Z'' then ''H3'' else ''None'');
       hf \<leftarrow> build_hash fnv pfx arrayType hashType numHashes setBits;
       replType \<leftarrow> get_str cfg (pfx @ ''repl.type'') (if arrayType = ''IdealLRUPart'' then ''IdealLRUPart'' else ''LRU'');
       (rp, interval) \<leftarrow> build_repl cfg zi pfx replType arrayType isTerminal numLines ways candidates;
       array \<leftarrow> build_array arrayType replType hf rp numLines ways candidates;
       latency \<leftarrow> get_u32 cfg (pfx @ ''latency'') 10;
       let accLat = (if isTerminal then 0 else latency);
       let invLat = latency;
       nonInclusiveHack \<leftarrow> get_bool cfg (pfx @ ''nonInclusiveHack'') False;
       assert_that (\<not> nonInclusiveHack \<or> (type = ''Simple'' \<and> \<not> isTerminal));
       kind \<leftarrow> build_kind cfg zi pfx name type (arrayType, hashType, replType) isTerminal domain numSets ways candidates;
       Some (CacheBank \<lparr>b_name = name, b_kind = kind, b_terminal = isTerminal, b_nonInclusiveHack = nonInclusiveHack,
         b_numLines = numLines, b_array = array, b_hash = hf, b_rp = rp, b_partInterval = interval,
         b_accLat = accLat, b_invLat = invLat\<rparr>)
     }
   }"

section \<open>Memory controllers\<close>

record DDRParams =
  ddr_ranksPerChannel :: nat
  ddr_banksPerRank :: nat
  ddr_pageSize :: nat
  ddr_tech :: string
  ddr_addrMapping :: string
  ddr_deferWrites :: bool
  ddr_closedPage :: bool
  ddr_maxRowHits :: nat
  ddr_queueDepth :: nat
  ddr_controllerLatency :: nat

datatype MemCtrlObj =
  SimpleMem nat
| MD1Mem nat nat nat nat
| WeaveMD1Mem nat nat nat nat nat nat
| WeaveSimpleMem nat nat nat
| DDRMem DDRParams nat
| DRAMSimMem string string string string nat nat nat nat
| DetailedMem string nat nat nat

definition BuildDDRMemory :: "libconfig \<Rightarrow> nat \<Rightarrow> string \<Rightarrow> MemCtrlObj option" where
  "BuildDDRMemory cfg domain pfx = do {
     ranksPerChannel \<leftarrow> get_u32 cfg (pfx @ ''ranksPerChannel'') 4;
     banksPerRank \<leftarrow> get_u32 cfg (pfx @ ''banksPerRank'') 8;
     pageSize \<leftarrow> get_u32 cfg (pfx @ ''pageSize'') (8 * 1024);
     tech \<leftarrow> get_str cfg (pfx @ ''tech'') ''DDR3-1333-CL10'';
     addrMapping \<leftarrow> get_str cfg (pfx @ ''addrMapping'') ''rank:col:bank'';
     deferWrites \<leftarrow> get_bool cfg (pfx @ ''deferWrites'') True;
     closedPage \<leftarrow> get_bool cfg (pfx @ ''closedPage'') True;
     maxRowHits \<leftarrow> get_u32 cfg (pfx @ ''maxRowHits'') 4;
     queueDepth \<leftarrow> get_u32 cfg (pfx @ ''queueDepth'') 16;
     controllerLatency \<leftarrow> get_u32 cfg (pfx @ ''controllerLatency'') 10;
     Some (DDRMem \<lparr>ddr_ranksPerChannel = ranksPerChannel, ddr_banksPerRank = banksPerRank, ddr_pageSize = pageSize,
       ddr_tech = tech, ddr_addrMapping = addrMapping, ddr_deferWrites = deferWrites, ddr_closedPage = closedPage,
       ddr_maxRowHits = maxRowHits, ddr_queueDepth = queueDepth, ddr_controllerLatency = controllerLatency\<rparr> domain)
   }"

text \<open>The product \<open>1000000 * frequency\<close> is computed in \<open>uint32_t\<close>.\<close>

definition BuildMemoryController :: "libconfig \<Rightarrow> nat \<Rightarrow> nat \<Rightarrow> nat \<Rightarrow> MemCtrlObj option" where
  "BuildMemoryController cfg lineSize frequency domain = do {
     type \<leftarrow> get_str cfg ''sys.mem.type'' ''Simple'';
     latency \<leftarrow> (if type = ''DDR'' then Some (2 ^ 32 - 1) else get_u32 cfg ''sys.mem.latency'' 100);
     if type = ''Simple'' then Some (SimpleMem latency)
     else if type = ''MD1'' then do {
       bandwidth \<leftarrow> get_u32 cfg ''sys.mem.bandwidth'' 6400;
       Some (MD1Mem lineSize frequency bandwidth latency)
     }
     else if type = ''WeaveMD1'' then do {
       bandwidth \<leftarrow> get_u32 cfg ''sys.mem.bandwidth'' 6400;
       boundLatency \<leftarrow> get_u32 cfg ''sys.mem.boundLatency'' latency;
       Some (WeaveMD1Mem lineSize frequency bandwidth latency boundLatency domain)
     }
     else if type = ''WeaveSimple'' then do {
       boundLatency \<leftarrow> get_u32 cfg ''sys.mem.boundLatency'' 100;
       Some (WeaveSimpleMem latency boundLatency domain)
     }
     else if type = ''DDR'' then BuildDDRMemory cfg domain ''sys.mem.''
     else if type = ''DRAMSim'' then do {
       let cpuFreqHz = trunc32 (1000000 * frequency);
       capacity \<leftarrow> get_u32 cfg ''sys.mem.capacityMB'' 16384;
       dramTechIni \<leftarrow> get_str_mandatory cfg ''sys.mem.techIni'';
       dramSystemIni \<leftarrow> get_str_mandatory cfg ''sys.mem.systemIni'';
       outputDir \<leftarrow> get_str_mandatory cfg ''sys.mem.outputDir'';
       traceName \<leftarrow> get_str_mandatory cfg ''sys.mem.traceName'';
       Some (DRAMSimMem dramTechIni dramSystemIni outputDir traceName capacity cpuFreqHz latency domain)
     }
     else if type = ''Detailed'' then do {
       mcfg \<leftarrow> get_str cfg ''sys.mem.paramFile'' [];
       Some (DetailedMem mcfg lineSize frequency domain)
     }
     else None
   }"

section \<open>Cache groups\<close>

text \<open>
  A group is a list of caches, each a list of banks. A bank is an index of the list of all base
  caches built so far.
\<close>

type_synonym CacheGroup = "nat list list"

definition bank_name :: "string \<Rightarrow> nat \<Rightarrow> nat \<Rightarrow> nat \<Rightarrow> string" where
  "bank_name name banks i j = name @ ''-'' @ show_nat i @ (if banks > 1 then ''b'' @ show_nat j else [])"

definition BuildCacheGroup ::
  "(string \<Rightarrow> nat) \<Rightarrow> libconfig \<Rightarrow> zinfo \<Rightarrow> string \<Rightarrow> bool \<Rightarrow> BaseCache list \<Rightarrow> (CacheGroup \<times> BaseCache list) option" where
  "BuildCacheGroup fnv cfg zi name isTerminal objs = do {
     let pfx = ''sys.caches.'' @ name @ ''.'';
     isPrefetcher \<leftarrow> get_bool cfg (pfx @ ''isPrefetcher'') False;
     if isPrefetcher then do {
       prefetchers \<leftarrow> get_u32 cfg (pfx @ ''prefetchers'') 1;
       let bs = map (\<lambda>i. StreamPrefetcherObj (name @ ''-'' @ show_nat i)) [0..<prefetchers];
       Some (map (\<lambda>i. [length objs + i]) [0..<prefetchers], objs @ bs)
     } else do {
       size \<leftarrow> get_u32 cfg (pfx @ ''size'') (64 * 1024);
       banks \<leftarrow> get_u32 cfg (pfx @ ''banks'') 1;
       caches \<leftarrow> get_u32 cfg (pfx @ ''caches'') 1;
       assert_that (banks \<noteq> 0);
       let bankSize = size div banks;
       assert_that (\<not> size mod banks \<noteq> 0);
       bs \<leftarrow> mapM (\<lambda>(i, j). BuildCacheBank fnv cfg zi pfx (bank_name name banks i j) bankSize isTerminal
                (trunc32 (trunc32 (i * banks + j) * zi_numDomains zi) div trunc32 (caches * banks)))
              (List.product [0..<caches] [0..<banks]);
       Some (map (\<lambda>i. map (\<lambda>j. length objs + i * banks + j) [0..<banks]) [0..<caches], objs @ bs)
     }
   }"

end
