(* ===== verification/Init_System.thy ===== *)
theory Init_System
  imports Init_Cache Coherence
begin

text \<open>
  \<open>InitSystem\<close> of src/src/init.cpp: the tree of cache groups is read from the configuration, the
  groups are built breadth first from the last-level cache, banks are connected to the banks of
  their parent cache, and the terminal caches are handed out to the cores. The unordered maps of the
  source are association lists (their order is never observed); a null entry of \<open>cMap\<close> that the
  source would dereference is \<open>None\<close>. A base cache is its index in the list of all of them.
\<close>

section \<open>The tree of groups\<close>

definition parseChildren :: "string \<Rightarrow> string list list option" where
  "parseChildren children = do {
     concatGroups \<leftarrow> ParseList read_word children '' '';
     mapM (\<lambda>cg. ParseList read_word cg ''|'') concatGroups
   }"

fun add_children :: "string \<Rightarrow> string list \<Rightarrow> (string \<times> string) list \<Rightarrow> (string \<times> string) list option" where
  "add_children grp [] parentMap = Some parentMap"
| "add_children grp (child # children) parentMap =
     (if map_of parentMap child \<noteq> None then None
      else add_children grp children (parentMap @ [(child, grp)]))"

fun read_groups ::
  "libconfig \<Rightarrow> string list \<Rightarrow> (string \<times> string list list) list \<Rightarrow> (string \<times> string) list \<Rightarrow>
   ((string \<times> string list list) list \<times> (string \<times> string) list) option" where
  "read_groups cfg [] childMap parentMap = Some (childMap, parentMap)"
| "read_groups cfg (grp # groups) childMap parentMap = do {
     assert_that (grp \<noteq> ''mem'');
     assert_that (map_of childMap grp = None);
     children \<leftarrow> get_str cfg (''sys.caches.'' @ grp @ ''.children'') [];
     cVec \<leftarrow> parseChildren children;
     parentMap' \<leftarrow> add_children grp (concat cVec) parentMap;
     read_groups cfg groups (childMap @ [(grp, cVec)]) parentMap'
   }"

definition children_of :: "(string \<times> string list list) list \<Rightarrow> string \<Rightarrow> string list list" where
  "children_of childMap grp = (case map_of childMap grp of None \<Rightarrow> [] | Some cVec \<Rightarrow> cVec)"

definition isTerminal :: "(string \<times> string list list) list \<Rightarrow> string \<Rightarrow> bool" where
  "isTerminal childMap grp \<longleftrightarrow> length (children_of childMap grp) = 0"

definition find_llc ::
  "(string \<times> string list list) list \<Rightarrow> (string \<times> string) list \<Rightarrow> string list \<Rightarrow> string option" where
  "find_llc childMap parentMap groups = do {
     assert_that (list_all (\<lambda>(child, _). child \<in> set groups) parentMap);
     let parentless = filter (\<lambda>g. map_of parentMap g = None) (map fst childMap);
     assert_that (length parentless = 1);
     Some (hd parentless)
   }"

text \<open>
  The fringe loop. Every round builds a group that was not built before, so as many rounds as there
  are groups are enough.
\<close>

fun build_groups ::
  "nat \<Rightarrow> (string \<Rightarrow> bool \<Rightarrow> BaseCache list \<Rightarrow> (CacheGroup \<times> BaseCache list) option) \<Rightarrow>
   (string \<times> string list list) list \<Rightarrow> string list \<Rightarrow> (string \<times> CacheGroup) list \<Rightarrow> BaseCache list \<Rightarrow>
   ((string \<times> CacheGroup) list \<times> BaseCache list) option" where
  "build_groups fuel build childMap [] cMap objs = Some (cMap, objs)"
| "build_groups 0 build childMap (grp # fringe) cMap objs = None"
| "build_groups (Suc fuel) build childMap (grp # fringe) cMap objs = do {
     assert_that (map_of cMap grp = None);
     (cg, objs') \<leftarrow> build grp (isTerminal childMap grp) objs;
     build_groups fuel build childMap (fringe @ concat (children_of childMap grp)) (cMap @ [(grp, cg)]) objs'
   }"

section \<open>Memory controllers\<close>

datatype MemUnit = MemCtrl string MemCtrlObj | SplitAddr "(string \<times> MemCtrlObj) list"

definition build_mems :: "libconfig \<Rightarrow> zinfo \<Rightarrow> MemUnit list option" where
  "build_mems cfg zi = do {
     memControllers \<leftarrow> get_u32 cfg ''sys.mem.controllers'' 1;
     assert_that (memControllers > 0);
     mems \<leftarrow> mapM (\<lambda>i. map_option (Pair (''mem-'' @ show_nat i))
                (BuildMemoryController cfg (zi_lineSize zi) (zi_freqMHz zi) (trunc32 (i * zi_numDomains zi) div memControllers)))
              [0..<memControllers];
     splitAddrs \<leftarrow> (if memControllers > 1 then get_bool cfg ''sys.mem.splitAddrs'' True else Some False);
     Some (if splitAddrs then [SplitAddr mems] else map (\<lambda>(n, m). MemCtrl n m) mems)
   }"

definition mem_name :: "MemUnit \<Rightarrow> string" where
  "mem_name m = (case m of MemCtrl n _ \<Rightarrow> n | SplitAddr _ \<Rightarrow> ''mem-splitter'')"

section \<open>Connections\<close>

text \<open>What the objects hold after \<open>setParents\<close>, \<open>setChildren\<close>, \<open>setSourceId\<close> and \<open>setFlags\<close>.\<close>

record wiring =
  w_objs :: "BaseCache list"
  w_mems :: "MemUnit list"
  w_parents :: "nat \<Rightarrow> mem_object list"
  w_parentRTTs :: "nat \<Rightarrow> nat list"
  w_childId :: "nat \<Rightarrow> nat"
  w_children :: "nat \<Rightarrow> nat list"
  w_childrenRTTs :: "nat \<Rightarrow> nat list"
  w_srcId :: "nat \<Rightarrow> nat"
  w_flags :: "nat \<Rightarrow> u32"

definition obj_name :: "BaseCache \<Rightarrow> string" where
  "obj_name b = (case b of CacheBank k \<Rightarrow> b_name k | TraceDriverProxy n \<Rightarrow> n | StreamPrefetcherObj n \<Rightarrow> n)"

definition mem_object_name :: "wiring \<Rightarrow> mem_object \<Rightarrow> string" where
  "mem_object_name w ob = (case ob of CacheObj c \<Rightarrow> obj_name (w_objs w ! c) | MemObj k \<Rightarrow> mem_name (w_mems w ! k))"

definition rtt :: "Network option \<Rightarrow> string \<Rightarrow> string \<Rightarrow> nat" where
  "rtt network src dst = (case network of None \<Rightarrow> 0 | Some n \<Rightarrow> getRTT n src dst)"

definition setParents :: "Network option \<Rightarrow> nat \<Rightarrow> mem_object list \<Rightarrow> nat \<Rightarrow> wiring \<Rightarrow> wiring option" where
  "setParents network childId parents c w = do {
     assert_that (case w_objs w ! c of
         CacheBank _ \<Rightarrow> True
       | TraceDriverProxy _ \<Rightarrow> length parents = 1
       | StreamPrefetcherObj _ \<Rightarrow> length parents = 1 \<and> network = None);
     Some (w\<lparr>w_parents := (w_parents w)(c := parents), w_childId := (w_childId w)(c := childId),
       w_parentRTTs := (w_parentRTTs w)(c := map (\<lambda>p. rtt network (obj_name (w_objs w ! c)) (mem_object_name w p)) parents)\<rparr>)
   }"

definition setChildren :: "Network option \<Rightarrow> nat list \<Rightarrow> nat \<Rightarrow> wiring \<Rightarrow> wiring option" where
  "setChildren network children p w = do {
     children' \<leftarrow> (case w_objs w ! p of
         CacheBank k \<Rightarrow> (if b_terminal k then None else tcc_init children)
       | TraceDriverProxy _ \<Rightarrow> None
       | StreamPrefetcherObj _ \<Rightarrow> do { assert_that (length children = 1); assert_that (network = None); Some children });
     Some (w\<lparr>w_children := (w_children w)(p := children'),
       w_childrenRTTs := (w_childrenRTTs w)(p := map (\<lambda>c. rtt network (obj_name (w_objs w ! p)) (obj_name (w_objs w ! c))) children')\<rparr>)
   }"

fun foldM :: "('b \<Rightarrow> 's \<Rightarrow> 's option) \<Rightarrow> 'b list \<Rightarrow> 's \<Rightarrow> 's option" where
  "foldM f [] s = Some s"
| "foldM f (x # xs) s = do { s' \<leftarrow> f x s; foldM f xs s' }"

text \<open>The banks of one parent cache and the banks of its children.\<close>

definition connect_link :: "Network option \<Rightarrow> nat list \<times> nat list \<Rightarrow> wiring \<Rightarrow> wiring option" where
  "connect_link network link w = (case link of (parentBanks, childBanks) \<Rightarrow> do {
     w1 \<leftarrow> foldM (\<lambda>(childId, c). setParents network childId (map CacheObj parentBanks) c)
            (zip [0..<length childBanks] childBanks) w;
     foldM (setChildren network childBanks) parentBanks w1
   })"

definition connect_mem :: "Network option \<Rightarrow> nat list \<Rightarrow> wiring \<Rightarrow> wiring option" where
  "connect_mem network llcBanks w =
     foldM (\<lambda>(childId, c). setParents network childId (map MemObj [0..<length (w_mems w)]) c)
       (zip [0..<length llcBanks] llcBanks) w"

text \<open>Interleaved groups take turns, concatenated groups follow each other.\<close>

definition interleave :: "(string \<times> CacheGroup) list \<Rightarrow> string list \<Rightarrow> CacheGroup option" where
  "interleave cMap childVec =
     (if childVec = [] then Some []
      else do {
        groups \<leftarrow> mapM (map_of cMap) childVec;
        let vecSize = length (hd groups);
        assert_that (list_all (\<lambda>g. length g = vecSize) groups);
        Some (concat (map (\<lambda>i. map (\<lambda>g. g ! i) groups) [0..<vecSize]))
      })"

definition linearize :: "(string \<times> CacheGroup) list \<Rightarrow> string list list \<Rightarrow> CacheGroup option" where
  "linearize cMap childVecs = map_option concat (mapM (interleave cMap) childVecs)"

definition group_links :: "CacheGroup \<Rightarrow> CacheGroup \<Rightarrow> (nat list \<times> nat list) list option" where
  "group_links parentCaches childCaches = do {
     let parents = length parentCaches;
     assert_that (parents \<noteq> 0);
     let children = length childCaches;
     assert_that (children \<noteq> 0);
     let childrenPerParent = children div parents;
     assert_that (\<not> children mod parents \<noteq> 0);
     Some (map (\<lambda>p. (parentCaches ! p, concat (take childrenPerParent (drop (p * childrenPerParent) childCaches))))
       [0..<parents])
   }"

definition connect_group ::
  "Network option \<Rightarrow> (string \<times> string list list) list \<Rightarrow> (string \<times> CacheGroup) list \<Rightarrow> string \<Rightarrow> wiring \<Rightarrow> wiring option" where
  "connect_group network childMap cMap grp w =
     (if isTerminal childMap grp then Some w
      else do {
        parentCaches \<leftarrow> map_of cMap grp;
        childCaches \<leftarrow> linearize cMap (children_of childMap grp);
        links \<leftarrow> group_links parentCaches childCaches;
        foldM (connect_link network) links w
      })"

text \<open>Terminal groups have single banks; the source looks at the first cache of the group.\<close>

definition check_terminal :: "(string \<times> string list list) list \<Rightarrow> (string \<times> CacheGroup) list \<Rightarrow> string \<Rightarrow> bool" where
  "check_terminal childMap cMap grp \<longleftrightarrow>
     (if isTerminal childMap grp then
        (case map_of cMap grp of None \<Rightarrow> False | Some cg \<Rightarrow> cg \<noteq> [] \<and> length (hd cg) = 1)
      else True)"

section \<open>Cores\<close>

datatype CoreKind = SimpleCore_k | TimingCore_k nat | OOOCore_k

datatype CoreObj = NullCoreObj string | CoreObj CoreKind string nat nat nat

record core_state =
  k_assigned :: "string \<rightharpoonup> nat"
  k_coreIdx :: nat
  k_cores :: "CoreObj list"
  k_wiring :: wiring

definition take_cache :: "(string \<times> CacheGroup) list \<Rightarrow> string \<Rightarrow> core_state \<Rightarrow> (nat \<times> core_state) option" where
  "take_cache cMap grp k = do {
     cg \<leftarrow> map_of cMap grp;
     used \<leftarrow> k_assigned k grp;
     assert_that (\<not> used \<ge> length cg);
     assert_that (cg ! used \<noteq> []);
     let c = cg ! used ! 0;
     assert_that (case w_objs (k_wiring k) ! c of
       CacheBank b \<Rightarrow> (case b_kind b of FilterCache_k _ \<Rightarrow> True | _ \<Rightarrow> False) | _ \<Rightarrow> False);
     Some (c, k\<lparr>k_assigned := (k_assigned k)(grp \<mapsto> used + 1),
       k_wiring := (k_wiring k)\<lparr>w_srcId := (w_srcId (k_wiring k))(c := k_coreIdx k)\<rparr>\<rparr>)
   }"

definition set_ifetch :: "nat \<Rightarrow> core_state \<Rightarrow> core_state" where
  "set_ifetch c k = k\<lparr>k_wiring := (k_wiring k)\<lparr>w_flags := (w_flags (k_wiring k))(c := IFETCH OR NOEXCL)\<rparr>\<rparr>"

definition core_kind :: "string \<Rightarrow> nat \<Rightarrow> nat \<Rightarrow> nat \<Rightarrow> CoreKind option" where
  "core_kind type j cores numDomains =
     (if type = ''Simple'' then Some SimpleCore_k
      else if type = ''Timing'' then Some (TimingCore_k (trunc32 (j * numDomains) div cores))
      else if type = ''OOO'' then Some OOOCore_k
      else None)"

definition build_core ::
  "zinfo \<Rightarrow> (string \<times> CacheGroup) list \<Rightarrow> string \<Rightarrow> string \<Rightarrow> string \<Rightarrow> string \<Rightarrow> nat \<Rightarrow> nat \<Rightarrow> core_state \<Rightarrow> core_state option" where
  "build_core zi cMap grp type icache dcache cores j k = do {
     let name = grp @ ''-'' @ show_nat j;
     (ic, k1) \<leftarrow> take_cache cMap icache k;
     let k2 = set_ifetch ic k1;
     (dc, k3) \<leftarrow> take_cache cMap dcache k2;
     kind \<leftarrow> core_kind type j cores (zi_numDomains zi);
     Some (k3\<lparr>k_cores := k_cores k3 @ [CoreObj kind name ic dc (k_coreIdx k3)], k_coreIdx := k_coreIdx k3 + 1\<rparr>)
   }"

definition build_core_group ::
  "libconfig \<Rightarrow> zinfo \<Rightarrow> (string \<times> string) list \<Rightarrow> (string \<times> CacheGroup) list \<Rightarrow> string \<Rightarrow> core_state \<Rightarrow> core_state option" where
  "build_core_group cfg zi parentMap cMap grp k = do {
     assert_that (map_of parentMap grp = None);
     let pfx = ''sys.cores.'' @ grp @ ''.'';
     cores \<leftarrow> get_u32 cfg (pfx @ ''cores'') 1;
     type \<leftarrow> get_str cfg (pfx @ ''type'') ''Simple'';
     assert_that (type \<in> set [''Simple'', ''Timing'', ''OOO'', ''Null'']);
     if type \<noteq> ''Null'' then do {
       icache \<leftarrow> get_str_mandatory cfg (pfx @ ''icache'');
       dcache \<leftarrow> get_str_mandatory cfg (pfx @ ''dcache'');
       assert_that (k_assigned k icache \<noteq> None);
       assert_that (k_assigned k dcache \<noteq> None);
       foldM (build_core zi cMap grp type icache dcache cores) [0..<cores] k
     } else
       Some (k\<lparr>k_cores := k_cores k @ map (\<lambda>j. NullCoreObj (grp @ ''-'' @ show_nat j)) [0..<cores],
         k_coreIdx := k_coreIdx k + cores\<rparr>)
   }"

definition build_cores ::
  "libconfig \<Rightarrow> zinfo \<Rightarrow> string list \<Rightarrow> (string \<times> string list list) list \<Rightarrow> (string \<times> string) list \<Rightarrow> (string \<times> CacheGroup) list \<Rightarrow>
   wiring \<Rightarrow> (CoreObj list \<times> wiring) option" where
  "build_cores cfg zi groups childMap parentMap cMap w = do {
     let k0 = \<lparr>k_assigned = map_of (map (\<lambda>g. (g, 0)) (filter (isTerminal childMap) groups)), k_coreIdx = 0, k_cores = [], k_wiring = w\<rparr>;
     k \<leftarrow> foldM (build_core_group cfg zi parentMap cMap) (subgroups cfg ''sys.cores'') k0;
     assert_that (list_all (\<lambda>g. isTerminal childMap g \<longrightarrow> k_assigned k g = map_option length (map_of cMap g)) groups);
     assert_that (zi_numCores zi = k_coreIdx k);
     Some (k_cores k, k_wiring k)
   }"

text \<open>The proxy caches of a trace-driven simulation.\<close>

definition build_proxies ::
  "string list \<Rightarrow> (string \<times> string list list) list \<Rightarrow> (string \<times> CacheGroup) list \<Rightarrow> wiring \<Rightarrow> nat list option" where
  "build_proxies groups childMap cMap w = do {
     cgs \<leftarrow> mapM (map_of cMap) (filter (isTerminal childMap) groups);
     assert_that (list_all (\<lambda>cv. length cv = 1 \<and>
       (case w_objs w ! hd cv of TraceDriverProxy _ \<Rightarrow> True | _ \<Rightarrow> False)) (concat cgs));
     Some (map hd (concat cgs))
   }"

section \<open>The system\<close>

record system =
  sys_groups :: "(string \<times> CacheGroup) list"
  sys_wiring :: wiring
  sys_cores :: "CoreObj list"
  sys_proxies :: "nat list"

definition wiring_new :: "BaseCache list \<Rightarrow> MemUnit list \<Rightarrow> wiring" where
  "wiring_new objs mems = \<lparr>w_objs = objs, w_mems = mems, w_parents = (\<lambda>_. []), w_parentRTTs = (\<lambda>_. []),
     w_childId = (\<lambda>_. 0), w_children = (\<lambda>_. []), w_childrenRTTs = (\<lambda>_. []), w_srcId = (\<lambda>_. 2 ^ 32 - 1), w_flags = (\<lambda>_. 0)\<rparr>"

text \<open>Caches and memories, connected.\<close>

definition init_hierarchy ::
  "(string \<Rightarrow> nat) \<Rightarrow> libconfig \<Rightarrow> zinfo \<Rightarrow> Network option \<Rightarrow>
   ((string \<times> string list list) list \<times> (string \<times> string) list \<times> (string \<times> CacheGroup) list \<times> wiring) option" where
  "init_hierarchy fnv cfg zi network = do {
     let groups = subgroups cfg ''sys.caches'';
     (childMap, parentMap) \<leftarrow> read_groups cfg groups [] [];
     llc \<leftarrow> find_llc childMap parentMap groups;
     (cMap, objs) \<leftarrow> build_groups (length groups) (BuildCacheGroup fnv cfg zi) childMap [llc] [] [];
     llcCaches \<leftarrow> map_of cMap llc;
     assert_that (\<not> length llcCaches \<noteq> 1);
     mems \<leftarrow> build_mems cfg zi;
     w1 \<leftarrow> connect_mem network (hd llcCaches) (wiring_new objs mems);
     w2 \<leftarrow> foldM (connect_group network childMap cMap) groups w1;
     assert_that (list_all (check_terminal childMap cMap) groups);
     Some (childMap, parentMap, cMap, w2)
   }"

definition InitSystem ::
  "(string \<Rightarrow> nat) \<Rightarrow> (string \<Rightarrow> string option) \<Rightarrow> libconfig \<Rightarrow> zinfo \<Rightarrow> system option" where
  "InitSystem fnv files cfg zi = do {
     networkFile \<leftarrow> get_str cfg ''sys.networkFile'' [];
     network \<leftarrow> (if networkFile \<noteq> [] then map_option Some (net_new (files networkFile)) else Some None);
     (childMap, parentMap, cMap, w) \<leftarrow> init_hierarchy fnv cfg zi network;
     let groups = subgroups cfg ''sys.caches'';
     if \<not> zi_traceDriven zi then do {
       (cores, w') \<leftarrow> build_cores cfg zi groups childMap parentMap cMap w;
       Some \<lparr>sys_groups = cMap, sys_wiring = w', sys_cores = cores, sys_proxies = []\<rparr>
     } else do {
       proxies \<leftarrow> build_proxies groups childMap cMap w;
       _ \<leftarrow> get_str_mandatory cfg ''sim.traceFile'';
       Some \<lparr>sys_groups = cMap, sys_wiring = w, sys_cores = [], sys_proxies = proxies\<rparr>
     }
   }"

end
