(* ===== verification/Hierarchy.thy ===== *)
theory Hierarchy
  imports Mem_Ctrls
begin

text \<open>
  The cache of src/src/cache.h and src/src/cache.cpp on top of the controllers, and the hierarchy that
  the virtual calls \<open>access\<close> and \<open>invalidate\<close> build from caches and memory controllers.

  An access travels up at most as many levels as the hierarchy has, an invalidation travels down;
  the fuel of \<open>hier_access\<close> and \<open>hier_invalidate\<close> counts these levels. The theory Hierarchy_Cache
  shows that the number of levels is enough.
\<close>

section \<open>Timing records\<close>

definition set_array :: "nat \<Rightarrow> 'a \<Rightarrow> ('a, 'm) sys \<Rightarrow> ('a, 'm) sys" where
  "set_array c a = upd_cache c (\<lambda>k. k\<lparr>cs_array := a\<rparr>)"

definition set_rec :: "nat \<Rightarrow> EventRecorder \<Rightarrow> ('a, 'm) sys \<Rightarrow> ('a, 'm) sys" where
  "set_rec src er s = s\<lparr>s_evRecs := (s_evRecs s)(src := Some er)\<rparr>"

text \<open>The record left by the writeback, if any; \<open>None\<close> stands for the cleared \<open>wbAcc\<close>.\<close>

definition take_record :: "nat \<Rightarrow> ('a, 'm) sys \<Rightarrow> TimingRecord option \<times> ('a, 'm) sys" where
  "take_record src s = (case s_evRecs s src of
     None \<Rightarrow> (None, s)
   | Some er \<Rightarrow>
       (if hasRecord er then (let (r, er') = popRecord er in (Some r, set_rec src er' s))
        else (None, s)))"

definition connect_records ::
  "nat \<Rightarrow> nat \<Rightarrow> nat \<Rightarrow> nat \<Rightarrow> nat \<Rightarrow> ev_heap \<Rightarrow> (nat \<times> ev_heap) option" where
  "connect_records reqCycle wbCycle wbStart accCycle accStart h0 = do {
     let (startEv, h1) = ev_alloc (delay_new 0) h0;
     let (dWbEv, h2) = ev_alloc (delay_new (wbCycle - reqCycle)) h1;
     let (dAccEv, h3) = ev_alloc (delay_new (accCycle - reqCycle)) h2;
     h4 \<leftarrow> setMinStartCycle startEv reqCycle h3;
     h5 \<leftarrow> setMinStartCycle dWbEv reqCycle h4;
     h6 \<leftarrow> setMinStartCycle dAccEv reqCycle h5;
     (c1, h7) \<leftarrow> addChild startEv dWbEv h6;
     (_, h8) \<leftarrow> addChild c1 wbStart h7;
     (c2, h9) \<leftarrow> addChild startEv dAccEv h8;
     (_, h10) \<leftarrow> addChild c2 accStart h9;
     Some (startEv, h10)
   }"

definition stitch_records ::
  "nat \<Rightarrow> nat \<Rightarrow> TimingRecord option \<Rightarrow> ('a, 'm) sys \<Rightarrow> ('a, 'm) sys option" where
  "stitch_records reqCycle src wbAcc s = (case wbAcc of
     None \<Rightarrow> Some s
   | Some wb \<Rightarrow> do {
       er \<leftarrow> s_evRecs s src;
       if \<not> hasRecord er then do {
         er' \<leftarrow> pushRecord (wb\<lparr>tr_endEvent := None\<rparr>) er;
         Some (set_rec src er' s)
       } else do {
         let (acc, er1) = popRecord er;
         assert_that (tr_reqCycle wb \<ge> reqCycle);
         assert_that (tr_reqCycle acc \<ge> reqCycle);
         wbStart \<leftarrow> tr_startEvent wb;
         accStart \<leftarrow> tr_startEvent acc;
         (startEv, h) \<leftarrow> connect_records reqCycle (tr_reqCycle wb) wbStart (tr_reqCycle acc) accStart (s_heap s);
         er2 \<leftarrow> pushRecord (acc\<lparr>tr_reqCycle := reqCycle, tr_startEvent := Some startEv\<rparr>) er1;
         Some ((set_rec src er2 s)\<lparr>s_heap := h\<rparr>)
       }
     })"

section \<open>Cache\<close>

text \<open>The allocation of a line on a miss: choose a victim, evict it, insert the new address.\<close>

definition cache_allocate ::
  "('a, 'm) acc_fun \<Rightarrow> ('a, 'm) inv_fun \<Rightarrow> 'a cache_cfg \<Rightarrow> nat \<Rightarrow> MemReq \<Rightarrow> nat \<Rightarrow>
   ('a, 'm) sys \<Rightarrow> (nat \<times> ('a, 'm) sys) option" where
  "cache_allocate acc ivl cf c req respCycle s = do {
     ((lineId, wbLineAddr), a1) \<leftarrow>
       ca_preinsert (cfg_ops cf) (cc_numSharers cf c s) (\<lambda>l. bcc_isValid c l s) (req_lineAddr req) req
         (cs_array (s_caches s c));
     (_, s2) \<leftarrow> cc_processEviction acc ivl cf c req wbLineAddr lineId respCycle (set_array c a1 s);
     a2 \<leftarrow> ca_postinsert (cfg_ops cf) (req_lineAddr req) req lineId (cs_array (s_caches s2 c));
     Some (lineId, set_array c a2 s2)
   }"

definition cache_access ::
  "('a, 'm) acc_fun \<Rightarrow> ('a, 'm) inv_fun \<Rightarrow> 'a cache_cfg \<Rightarrow> nat \<Rightarrow> MemReq \<Rightarrow>
   ('a, 'm) sys \<Rightarrow> (nat \<times> ('a, 'm) sys) option" where
  "cache_access acc ivl cf c req s = do {
     (skipAccess, req1, s1) \<leftarrow> cc_startAccess cf c req s;
     (respCycle, s6) \<leftarrow>
       (if skipAccess then Some (req_cycle req, s1)
        else do {
          let updateReplacement = (req_type req1 = GETS \<or> req_type req1 = GETX);
          (found, a1) \<leftarrow> ca_lookup (cfg_ops cf) (req_lineAddr req1) (Some req1) updateReplacement
            (cs_array (s_caches s1 c));
          let s2 = set_array c a1 s1;
          let respCycle = req_cycle req + cfg_accLat cf;
          (lineId, s3) \<leftarrow> (case found of
              Some l \<Rightarrow> Some (Some l, s2)
            | None \<Rightarrow> do {
                alloc \<leftarrow> cc_shouldAllocate cf req1;
                if alloc then do {
                  (l, s3) \<leftarrow> cache_allocate acc ivl cf c req1 respCycle s2;
                  Some (Some l, s3)
                } else Some (None, s2)
              });
          let (wbAcc, s4) = take_record (req_srcId req) s3;
          (respCycle2, s5) \<leftarrow> cc_processAccess acc ivl cf c req1 lineId respCycle s4;
          s6 \<leftarrow> stitch_records (req_cycle req) (req_srcId req) wbAcc s5;
          Some (respCycle2, s6)
        });
     s7 \<leftarrow> cc_endAccess cf c req1 s6;
     assert_that (respCycle \<ge> req_cycle req);
     Some (respCycle, s7)
   }"

definition cache_invalidate ::
  "('a, 'm) inv_fun \<Rightarrow> 'a cache_cfg \<Rightarrow> nat \<Rightarrow> InvReq \<Rightarrow> bool \<Rightarrow>
   ('a, 'm) sys \<Rightarrow> (nat \<times> bool \<times> ('a, 'm) sys) option" where
  "cache_invalidate ivl cf c req wb s = do {
     s1 \<leftarrow> mesi_startInv c s;
     (found, a1) \<leftarrow> ca_lookup (cfg_ops cf) (inv_lineAddr req) None False (cs_array (s_caches s1 c));
     lineId \<leftarrow> found;
     cc_processInv ivl cf c req lineId (inv_cycle req + cfg_invLat cf) wb (set_array c a1 s1)
   }"

section \<open>The hierarchy\<close>

definition mem_access :: "'m mem_op \<Rightarrow> nat \<Rightarrow> MemReq \<Rightarrow> ('a, 'm) sys \<Rightarrow> (nat \<times> ('a, 'm) sys) option" where
  "mem_access mop k req s = do {
     (resp, st, m, h, er) \<leftarrow> mop req (s_mems s k, s_heap s, s_evRecs s (req_srcId req));
     Some (resp, put_state (req_state req) st
       (s\<lparr>s_mems := (s_mems s)(k := m), s_heap := h,
          s_evRecs := (s_evRecs s)(req_srcId req := er)\<rparr>))
   }"

fun hier_invalidate :: "(nat \<Rightarrow> 'a cache_cfg) \<Rightarrow> nat \<Rightarrow> ('a, 'm) inv_fun" where
  "hier_invalidate cfg 0 c req wb s = None"
| "hier_invalidate cfg (Suc fuel) c req wb s =
     cache_invalidate (hier_invalidate cfg fuel) (cfg c) c req wb s"

fun hier_access ::
  "(nat \<Rightarrow> 'a cache_cfg) \<Rightarrow> (nat \<Rightarrow> 'm mem_op) \<Rightarrow> nat \<Rightarrow> nat \<Rightarrow> ('a, 'm) acc_fun" where
  "hier_access cfg mop depth 0 ob req s = None"
| "hier_access cfg mop depth (Suc fuel) ob req s = (case ob of
     MemObj k \<Rightarrow> mem_access (mop k) k req s
   | CacheObj c \<Rightarrow> cache_access (hier_access cfg mop depth fuel) (hier_invalidate cfg depth) (cfg c) c req s)"

text \<open>A sequence of requests, each to the object it is sent to.\<close>

fun hier_run ::
  "(nat \<Rightarrow> 'a cache_cfg) \<Rightarrow> (nat \<Rightarrow> 'm mem_op) \<Rightarrow> nat \<Rightarrow> nat \<Rightarrow> (nat \<times> MemReq) list \<Rightarrow>
   ('a, 'm) sys \<Rightarrow> ('a, 'm) sys option" where
  "hier_run cfg mop depth fuel [] s = Some s"
| "hier_run cfg mop depth fuel ((c, req) # rs) s = do {
     (_, s') \<leftarrow> hier_access cfg mop depth fuel (CacheObj c) req s;
     hier_run cfg mop depth fuel rs s'
   }"

end
