(* ===== verification/Hierarchy_Inv.thy ===== *)
theory Hierarchy_Inv
  imports Hierarchy
begin

text \<open>
  The coherence invariant of a hierarchy of inclusive caches, and invalidations. For an address the
  hierarchy is seen through three functions: the state a cache has for it (\<open>line_state\<close>, \<open>I\<close> if the
  address is not in the cache), the sharers its directory lists (\<open>line_sharer\<close>) and whether the
  directory entry is exclusive (\<open>line_excl\<close>). \<open>node_ok\<close> is the invariant between a cache and its
  children for one address.
\<close>

section \<open>The view of one address\<close>

definition excl :: "MESIState \<Rightarrow> bool" where
  "excl x \<longleftrightarrow> x = E \<or> x = M"

definition home :: "(nat \<Rightarrow> 'a cache_cfg) \<Rightarrow> nat \<Rightarrow> Address \<Rightarrow> mem_object" where
  "home cfg c A = cfg_parents (cfg c) ! getParentId (cfg c) A"

definition line_of ::
  "(nat \<Rightarrow> 'a cache_cfg) \<Rightarrow> ('a \<Rightarrow> nat \<Rightarrow> Address) \<Rightarrow> ('a, 'm) sys \<Rightarrow> nat \<Rightarrow> Address \<Rightarrow> nat option" where
  "line_of cfg tags s c A =
     List.find (\<lambda>l. tags (cs_array (s_caches s c)) l = A) [0..<cfg_numLines (cfg c)]"

definition line_state ::
  "(nat \<Rightarrow> 'a cache_cfg) \<Rightarrow> ('a \<Rightarrow> nat \<Rightarrow> Address) \<Rightarrow> ('a, 'm) sys \<Rightarrow> nat \<Rightarrow> Address \<Rightarrow> MESIState" where
  "line_state cfg tags s c A = (case line_of cfg tags s c A of None \<Rightarrow> I | Some l \<Rightarrow> bcc_state c l s)"

definition line_sharer ::
  "(nat \<Rightarrow> 'a cache_cfg) \<Rightarrow> ('a \<Rightarrow> nat \<Rightarrow> Address) \<Rightarrow> ('a, 'm) sys \<Rightarrow> nat \<Rightarrow> Address \<Rightarrow> nat \<Rightarrow> bool" where
  "line_sharer cfg tags s p A i =
     (case line_of cfg tags s p A of None \<Rightarrow> False | Some l \<Rightarrow> en_sharers (tcc_entry p l s) i)"

definition line_excl ::
  "(nat \<Rightarrow> 'a cache_cfg) \<Rightarrow> ('a \<Rightarrow> nat \<Rightarrow> Address) \<Rightarrow> ('a, 'm) sys \<Rightarrow> nat \<Rightarrow> Address \<Rightarrow> bool" where
  "line_excl cfg tags s p A =
     (case line_of cfg tags s p A of None \<Rightarrow> False | Some l \<Rightarrow> en_isExclusive (tcc_entry p l s))"

section \<open>The invariant\<close>

definition entry_ok :: "nat \<Rightarrow> Entry \<Rightarrow> bool" where
  "entry_ok n e \<longleftrightarrow> en_numSharers e = card {i. en_sharers e i} \<and> {i. en_sharers e i} \<subseteq> {..<n} \<and>
     (en_exclusive e \<longrightarrow> en_numSharers e \<le> 1)"

definition lines_ok ::
  "(nat \<Rightarrow> 'a cache_cfg) \<Rightarrow> ('a \<Rightarrow> nat \<Rightarrow> Address) \<Rightarrow> ('a, 'm) sys \<Rightarrow> nat \<Rightarrow> bool" where
  "lines_ok cfg tags s c \<longleftrightarrow>
     (let n = cfg_numLines (cfg c); t = tags (cs_array (s_caches s c)) in
      (\<forall>i<n. \<forall>j<n. t i = t j \<longrightarrow> t i \<noteq> 0 \<longrightarrow> i = j) \<and>
      (\<forall>l<n. entry_ok (length (cfg_children (cfg c))) (tcc_entry c l s) \<and>
         (t l = 0 \<longrightarrow> bcc_state c l s = I \<and> en_numSharers (tcc_entry c l s) = 0)))"

text \<open>
  Between cache \<open>p\<close> and its child number \<open>i\<close>, for one address: the directory lists the child iff
  the child has the address and fetches it from \<open>p\<close>; then \<open>p\<close> has it, too; if the child may write
  it, the entry is exclusive and \<open>p\<close> may write it; and the sharer of an exclusive entry may write
  it.
\<close>

definition edge_ok ::
  "(nat \<Rightarrow> 'a cache_cfg) \<Rightarrow> Address \<Rightarrow> (nat \<Rightarrow> MESIState) \<Rightarrow> (nat \<Rightarrow> nat \<Rightarrow> bool) \<Rightarrow> (nat \<Rightarrow> bool) \<Rightarrow>
   nat \<Rightarrow> nat \<Rightarrow> bool" where
  "edge_ok cfg A st sh ex p i \<longleftrightarrow>
     (let c = cfg_children (cfg p) ! i; mine = (home cfg c A = CacheObj p) in
      (sh p i \<longleftrightarrow> mine \<and> st c \<noteq> I) \<and>
      (mine \<and> st c \<noteq> I \<longrightarrow> st p \<noteq> I) \<and>
      (mine \<and> excl (st c) \<longrightarrow> ex p \<and> excl (st p)) \<and>
      (ex p \<and> sh p i \<longrightarrow> excl (st c)))"

definition node_ok ::
  "(nat \<Rightarrow> 'a cache_cfg) \<Rightarrow> ('a \<Rightarrow> nat \<Rightarrow> Address) \<Rightarrow> ('a, 'm) sys \<Rightarrow> Address \<Rightarrow> nat \<Rightarrow> bool" where
  "node_ok cfg tags s A p \<longleftrightarrow>
     (\<forall>i<length (cfg_children (cfg p)).
        edge_ok cfg A (\<lambda>c. line_state cfg tags s c A) (\<lambda>q. line_sharer cfg tags s q A)
          (\<lambda>q. line_excl cfg tags s q A) p i)"

text \<open>Effect of an invalidation on the state of a cache.\<close>

fun down :: "InvType \<Rightarrow> MESIState \<Rightarrow> MESIState" where
  "down INV x = I"
| "down INVX x = (if excl x then S else x)"
| "down FWD x = x"

section \<open>Updates and the view\<close>

lemma upd_cache_simps [simp]:
  "s_caches (upd_cache c f s) = (s_caches s)(c := f (s_caches s c))"
  "s_mems (upd_cache c f s) = s_mems s" "s_out (upd_cache c f s) = s_out s"
  "s_outLocks (upd_cache c f s) = s_outLocks s" "s_evRecs (upd_cache c f s) = s_evRecs s"
  "s_heap (upd_cache c f s) = s_heap s"
  by (simp_all add: upd_cache_def)

lemma line_of_iff:
  assumes "lines_ok cfg tags s c" "A \<noteq> 0"
  shows "line_of cfg tags s c A = Some l \<longleftrightarrow>
    l < cfg_numLines (cfg c) \<and> tags (cs_array (s_caches s c)) l = A"
proof
  assume "line_of cfg tags s c A = Some l"
  then show "l < cfg_numLines (cfg c) \<and> tags (cs_array (s_caches s c)) l = A"
    by (auto simp: line_of_def dest: find_Some_cond)
next
  assume l: "l < cfg_numLines (cfg c) \<and> tags (cs_array (s_caches s c)) l = A"
  then obtain m where m: "line_of cfg tags s c A = Some m"
    by (cases "line_of cfg tags s c A") (auto simp: line_of_def find_None_iff)
  then have "m < cfg_numLines (cfg c)" "tags (cs_array (s_caches s c)) m = A"
    by (auto simp: line_of_def dest: find_Some_cond)
  then have "m = l" using assms l by (auto simp: lines_ok_def Let_def)
  then show "line_of cfg tags s c A = Some l" using m by simp
qed

lemma line_of_Some: "line_of cfg tags s c A = Some l \<Longrightarrow>
    l < cfg_numLines (cfg c) \<and> tags (cs_array (s_caches s c)) l = A"
  by (auto simp: line_of_def dest: find_Some_cond)

text \<open>Two states in which a cache has the same tags, states and directory.\<close>

definition same_cache :: "('a \<Rightarrow> nat \<Rightarrow> Address) \<Rightarrow> ('a, 'm) sys \<Rightarrow> ('a, 'm) sys \<Rightarrow> nat \<Rightarrow> bool" where
  "same_cache tags s s' c \<longleftrightarrow>
     tags (cs_array (s_caches s' c)) = tags (cs_array (s_caches s c)) \<and>
     cs_bcc (s_caches s' c) = cs_bcc (s_caches s c) \<and> cs_tcc (s_caches s' c) = cs_tcc (s_caches s c)"

lemma same_cache_view:
  assumes "same_cache tags s s' c"
  shows "line_of cfg tags s' c = line_of cfg tags s c"
    and "line_state cfg tags s' c = line_state cfg tags s c"
    and "line_sharer cfg tags s' c = line_sharer cfg tags s c"
    and "line_excl cfg tags s' c = line_excl cfg tags s c"
    and "lines_ok cfg tags s' c = lines_ok cfg tags s c"
proof -
  have b: "bcc_state c l s' = bcc_state c l s" "tcc_entry c l s' = tcc_entry c l s" for l
    using assms by (simp_all add: same_cache_def bcc_state_def tcc_entry_def)
  show l: "line_of cfg tags s' c = line_of cfg tags s c"
    using assms by (simp add: fun_eq_iff line_of_def same_cache_def)
  show "line_state cfg tags s' c = line_state cfg tags s c"
    "line_sharer cfg tags s' c = line_sharer cfg tags s c"
    "line_excl cfg tags s' c = line_excl cfg tags s c"
    by (simp_all add: fun_eq_iff line_state_def line_sharer_def line_excl_def l b split: option.splits)
  show "lines_ok cfg tags s' c = lines_ok cfg tags s c"
    using assms by (simp add: lines_ok_def b same_cache_def)
qed

lemma same_cache_refl [simp]: "same_cache tags s s c"
  by (simp add: same_cache_def)

lemma same_cache_trans: "same_cache tags s s' c \<Longrightarrow> same_cache tags s' s'' c \<Longrightarrow> same_cache tags s s'' c"
  by (simp add: same_cache_def)

lemmas upd_defs = set_bcc_def set_tcc_def prof_def set_array_def tcc_unlock_def

lemma view_fields [simp]:
  "cs_array (s_caches (set_bcc c l x s) d) = cs_array (s_caches s d)"
  "cs_array (s_caches (set_tcc c l e s) d) = cs_array (s_caches s d)"
  "cs_array (s_caches (prof c f s) d) = cs_array (s_caches s d)"
  "cs_array (s_caches (tcc_unlock c s) d) = cs_array (s_caches s d)"
  "cs_array (s_caches (set_array c a s) d) = (if d = c then a else cs_array (s_caches s d))"
  "bcc_state d m (set_bcc c l x s) = (if d = c \<and> m = l then x else bcc_state d m s)"
  "bcc_state d m (set_tcc c l e s) = bcc_state d m s"
  "bcc_state d m (prof c f s) = bcc_state d m s"
  "bcc_state d m (tcc_unlock c s) = bcc_state d m s"
  "bcc_state d m (set_array c a s) = bcc_state d m s"
  "tcc_entry d m (set_bcc c l x s) = tcc_entry d m s"
  "tcc_entry d m (set_tcc c l e s) = (if d = c \<and> m = l then e else tcc_entry d m s)"
  "tcc_entry d m (prof c f s) = tcc_entry d m s"
  "tcc_entry d m (tcc_unlock c s) = tcc_entry d m s"
  "tcc_entry d m (set_array c a s) = tcc_entry d m s"
  by (simp_all add: upd_defs bcc_state_def tcc_entry_def)

lemma futex_unlock_fields [simp]:
  "cs_array (s_caches (futex_unlock lk s) d) = cs_array (s_caches s d)"
  "bcc_state d m (futex_unlock lk s) = bcc_state d m s"
  "tcc_entry d m (futex_unlock lk s) = tcc_entry d m s"
  by (cases lk; simp add: bcc_state_def tcc_entry_def)+

lemma lock_fields [simp]:
  "bcc_state d m (upd_cache c (\<lambda>k. k\<lparr>cs_bccLock := b\<rparr>) s) = bcc_state d m s"
  "tcc_entry d m (upd_cache c (\<lambda>k. k\<lparr>cs_bccLock := b\<rparr>) s) = tcc_entry d m s"
  "bcc_state d m (upd_cache c (\<lambda>k. k\<lparr>cs_tccLock := b\<rparr>) s) = bcc_state d m s"
  "tcc_entry d m (upd_cache c (\<lambda>k. k\<lparr>cs_tccLock := b\<rparr>) s) = tcc_entry d m s"
  by (simp_all add: bcc_state_def tcc_entry_def)

lemma same_cacheI:
  assumes "tags (cs_array (s_caches s' c)) = tags (cs_array (s_caches s c))"
    and "\<And>l. bcc_state c l s' = bcc_state c l s" "\<And>l. tcc_entry c l s' = tcc_entry c l s"
  shows "same_cache tags s s' c"
  using assms by (simp add: same_cache_def fun_eq_iff bcc_state_def tcc_entry_def)

lemma set_bcc_line [simp]:
  "line_of cfg tags (set_bcc c l x s) d A = line_of cfg tags s d A"
  "line_sharer cfg tags (set_bcc c l x s) d A = line_sharer cfg tags s d A"
  "line_excl cfg tags (set_bcc c l x s) d A = line_excl cfg tags s d A"
  by (simp_all add: fun_eq_iff line_of_def line_sharer_def line_excl_def split: option.splits)

lemma line_of_other:
  "line_of cfg tags s c A = Some l \<Longrightarrow> line_of cfg tags s c B = Some l \<longleftrightarrow> B = A"
  using line_of_Some [of cfg tags s c A l] line_of_Some [of cfg tags s c B l] by auto

lemma set_bcc_state:
  assumes "line_of cfg tags s c A = Some l"
  shows "line_state cfg tags (set_bcc c l x s) d B =
    (if d = c \<and> B = A then x else line_state cfg tags s d B)"
  using assms line_of_other [OF assms, of B] by (auto simp: line_state_def split: option.splits)

lemma set_bcc_lines_ok:
  assumes "line_of cfg tags s c A = Some l" "A \<noteq> 0"
  shows "lines_ok cfg tags (set_bcc c l x s) d = lines_ok cfg tags s d"
  using line_of_Some [OF assms(1)] assms(2) by (auto simp: lines_ok_def Let_def)

lemma set_tcc_line [simp]:
  "line_of cfg tags (set_tcc c l e s) d A = line_of cfg tags s d A"
  "line_state cfg tags (set_tcc c l e s) d A = line_state cfg tags s d A"
  by (simp_all add: line_of_def line_state_def split: option.splits)

lemma set_tcc_entry:
  assumes "line_of cfg tags s c A = Some l"
  shows "line_sharer cfg tags (set_tcc c l e s) d B =
      (if d = c \<and> B = A then en_sharers e else line_sharer cfg tags s d B)"
    and "line_excl cfg tags (set_tcc c l e s) d B =
      (if d = c \<and> B = A then en_isExclusive e else line_excl cfg tags s d B)"
  using assms line_of_other [OF assms, of B]
  by (auto simp: fun_eq_iff line_sharer_def line_excl_def split: option.splits)

lemma set_tcc_lines_ok:
  assumes "line_of cfg tags s c A = Some l" "A \<noteq> 0" "lines_ok cfg tags s d"
    and "entry_ok (length (cfg_children (cfg c))) e"
  shows "lines_ok cfg tags (set_tcc c l e s) d"
  using line_of_Some [OF assms(1)] assms(2-4) by (auto simp: lines_ok_def Let_def)

lemma prof_view [simp]:
  "line_of cfg tags (prof c f s) d A = line_of cfg tags s d A"
  "line_state cfg tags (prof c f s) d A = line_state cfg tags s d A"
  "line_sharer cfg tags (prof c f s) d A = line_sharer cfg tags s d A"
  "line_excl cfg tags (prof c f s) d A = line_excl cfg tags s d A"
  "lines_ok cfg tags (prof c f s) d = lines_ok cfg tags s d"
  by (simp_all add: fun_eq_iff line_of_def line_state_def line_sharer_def line_excl_def lines_ok_def
           split: option.splits)

text \<open>What an invalidation leaves alone everywhere: arrays, locks, and all that is not a cache.\<close>

definition frame :: "('a, 'm) sys \<Rightarrow> ('a, 'm) sys \<Rightarrow> bool" where
  "frame s s' \<longleftrightarrow>
     (\<forall>d. cs_array (s_caches s' d) = cs_array (s_caches s d) \<and>
          cs_bccLock (s_caches s' d) = cs_bccLock (s_caches s d) \<and>
          cs_tccLock (s_caches s' d) = cs_tccLock (s_caches s d)) \<and>
     s_mems s' = s_mems s \<and> s_out s' = s_out s \<and> s_outLocks s' = s_outLocks s \<and>
     s_evRecs s' = s_evRecs s \<and> s_heap s' = s_heap s"

lemma frame_refl [simp]: "frame s s"
  by (simp add: frame_def)

lemma frame_trans: "frame s s' \<Longrightarrow> frame s' s'' \<Longrightarrow> frame s s''"
  by (simp add: frame_def)

lemma frame_upd [simp]:
  "frame s (set_bcc c l x s)" "frame s (set_tcc c l e s)" "frame s (prof c f s)"
  by (simp_all add: frame_def upd_defs)

lemma frame_line_of: "frame s s' \<Longrightarrow> line_of cfg tags s' c A = line_of cfg tags s c A"
  by (simp add: frame_def line_of_def)

section \<open>Topology\<close>

text \<open>Cache \<open>d\<close> reaches cache \<open>c\<close> when it follows the parents that serve address \<open>A\<close>.\<close>

inductive below :: "(nat \<Rightarrow> 'a cache_cfg) \<Rightarrow> nat set \<Rightarrow> Address \<Rightarrow> nat \<Rightarrow> nat \<Rightarrow> bool"
  for cfg :: "nat \<Rightarrow> 'a cache_cfg" and caches :: "nat set" and A :: Address where
  below_refl: "c \<in> caches \<Longrightarrow> below cfg caches A c c"
| below_step: "d \<in> caches \<Longrightarrow> home cfg d A = CacheObj d' \<Longrightarrow> below cfg caches A d' c \<Longrightarrow>
    below cfg caches A d c"

inductive_cases belowE: "below cfg caches A d c"

text \<open>
  The shape of a hierarchy: every cache has parents, a parent that is a cache lists it as a child
  under its own number, every child has the cache as a parent, and levels increase towards the
  memories.
\<close>

locale topology =
  fixes cfg :: "nat \<Rightarrow> 'a cache_cfg" and caches :: "nat set" and lvl :: "nat \<Rightarrow> nat" and depth :: nat
  assumes inclusive: "c \<in> caches \<Longrightarrow> \<not> cfg_nonInclusiveHack (cfg c)"
    and has_parents: "c \<in> caches \<Longrightarrow> cfg_parents (cfg c) \<noteq> []"
    and parent_cache: "c \<in> caches \<Longrightarrow> CacheObj p \<in> set (cfg_parents (cfg c)) \<Longrightarrow>
      p \<in> caches \<and> \<not> cfg_terminal (cfg p) \<and> cfg_selfId (cfg c) < length (cfg_children (cfg p)) \<and>
      cfg_children (cfg p) ! cfg_selfId (cfg c) = c \<and> lvl c < lvl p"
    and child_cache: "p \<in> caches \<Longrightarrow> i < length (cfg_children (cfg p)) \<Longrightarrow>
      cfg_children (cfg p) ! i \<in> caches \<and>
      CacheObj p \<in> set (cfg_parents (cfg (cfg_children (cfg p) ! i))) \<and>
      cfg_selfId (cfg (cfg_children (cfg p) ! i)) = i"
    and no_children: "p \<in> caches \<Longrightarrow> cfg_terminal (cfg p) \<Longrightarrow> cfg_children (cfg p) = []"
    and few_children: "p \<in> caches \<Longrightarrow> length (cfg_children (cfg p)) \<le> MAX_CACHE_CHILDREN"
    and levels: "c \<in> caches \<Longrightarrow> lvl c < depth"
begin

lemma home_parent: "c \<in> caches \<Longrightarrow> home cfg c A \<in> set (cfg_parents (cfg c))"
  using has_parents by (auto simp: home_def getParentId_def intro!: nth_mem mod_less_divisor)

lemma home_cache:
  assumes "c \<in> caches" "home cfg c A = CacheObj p"
  shows "p \<in> caches" "\<not> cfg_terminal (cfg p)" "cfg_selfId (cfg c) < length (cfg_children (cfg p))"
    "cfg_children (cfg p) ! cfg_selfId (cfg c) = c" "lvl c < lvl p"
  using parent_cache [of c p] home_parent [of c A] assms by auto

lemma below_caches: "below cfg caches A d c \<Longrightarrow> d \<in> caches \<and> c \<in> caches"
  by (induction rule: below.induct) auto

lemma below_lvl: "below cfg caches A d c \<Longrightarrow> lvl d \<le> lvl c \<and> (lvl d = lvl c \<longrightarrow> d = c)"
  by (induction rule: below.induct) (auto dest: home_cache(5))

lemma below_lvl_less: "below cfg caches A d c \<Longrightarrow> d \<noteq> c \<Longrightarrow> lvl d < lvl c"
  using below_lvl [of A d c] by force

text \<open>The last step of the way from \<open>d\<close> up to \<open>c\<close> leads through a child of \<open>c\<close>.\<close>

lemma below_last:
  assumes "below cfg caches A d c"
  shows "d = c \<or> (\<exists>e. e \<in> caches \<and> home cfg e A = CacheObj c \<and> below cfg caches A d e)"
  using assms
proof (induction rule: below.induct)
  case (below_step d d')
  then show ?case using below.intros by blast
qed simp

lemma below_first: "below cfg caches A d c \<Longrightarrow>
    d = c \<or> (\<exists>e. home cfg d A = CacheObj e \<and> below cfg caches A e c)"
  by (auto elim: belowE)

lemma below_trans: "below cfg caches A d c \<Longrightarrow> below cfg caches A c b \<Longrightarrow> below cfg caches A d b"
  by (induction rule: below.induct) (auto intro: below.intros)

lemma below_child: "e \<in> caches \<Longrightarrow> home cfg e A = CacheObj c \<Longrightarrow> below cfg caches A d e \<Longrightarrow>
    below cfg caches A d c"
  by (rule below_trans) (auto intro: below.intros dest: home_cache(1))

text \<open>Ways up are unique, so the caches below two different children are different.\<close>

lemma below_linear:
  assumes "below cfg caches A d b" "below cfg caches A d c"
  shows "below cfg caches A b c \<or> below cfg caches A c b"
  using assms
proof (induction rule: below.induct)
  case below_refl
  then show ?case by simp
next
  case (below_step d d')
  then show ?case using below_first [OF below_step.prems] by (auto intro: below.intros)
qed

lemma siblings_disjoint:
  assumes "below cfg caches A d b" "below cfg caches A d c"
    and "home cfg b A = CacheObj p" "home cfg c A = CacheObj p"
  shows "b = c"
proof -
  have *: "u = v" if "below cfg caches A u v" "home cfg u A = CacheObj p" "home cfg v A = CacheObj p" for u v
  proof (rule ccontr)
    assume "u \<noteq> v"
    then have "below cfg caches A p v" using below_first [OF that(1)] that(2) by auto
    then have "lvl p \<le> lvl v" using below_lvl by blast
    then show False using home_cache(5) [of v A p] that(3) below_caches [OF that(1)] by simp
  qed
  from below_linear [OF assms(1,2)] show ?thesis using * [of b c] * [of c b] assms(3,4) by blast
qed

lemma not_below_child:
  assumes "home cfg e A = CacheObj p" "e \<in> caches"
  shows "\<not> below cfg caches A p e"
  using below_lvl [of A p e] home_cache(5) [OF assms(2,1)] by auto

text \<open>The invariant at \<open>q\<close> depends on \<open>q\<close> and on the children that fetch the address from it.\<close>

lemma node_ok_cong:
  assumes "node_ok cfg tags s A q" "q \<in> caches"
    and "line_state cfg tags s' q A = line_state cfg tags s q A"
      "line_sharer cfg tags s' q A = line_sharer cfg tags s q A"
      "line_excl cfg tags s' q A = line_excl cfg tags s q A"
    and "\<And>e. e \<in> caches \<Longrightarrow> home cfg e A = CacheObj q \<Longrightarrow>
      line_state cfg tags s' e A = line_state cfg tags s e A"
  shows "node_ok cfg tags s' A q"
  using assms child_cache [OF assms(2)] by (auto simp: node_ok_def edge_ok_def Let_def)

end

end
