(* ===== verification/Hierarchy_Inval.thy ===== *)
theory Hierarchy_Inval
  imports Hierarchy_Inv
begin

text \<open>
  Invalidations and downgrades. The locale \<open>hierarchy\<close> adds to a topology the contracts of the
  arrays and of the memory controllers. The theory shows what \<open>sendInvalidates\<close> and
  \<open>hier_invalidate\<close> do to the view of the address: the caches below the invalidated one lose the
  line or its exclusivity, every other cache and every other address is left alone.
\<close>

locale hierarchy = topology cfg caches lvl depth
  for cfg :: "nat \<Rightarrow> 'a cache_cfg" and caches :: "nat set" and lvl :: "nat \<Rightarrow> nat" and depth :: nat +
  fixes tags :: "'a \<Rightarrow> nat \<Rightarrow> Address" and ainv :: "nat \<Rightarrow> 'a \<Rightarrow> bool"
    and apend :: "nat \<Rightarrow> Address \<Rightarrow> nat \<Rightarrow> 'a \<Rightarrow> bool"
    and mop :: "nat \<Rightarrow> 'm mem_op" and minv :: "nat \<Rightarrow> 'm \<Rightarrow> bool"
  assumes arrays: "c \<in> caches \<Longrightarrow>
      cache_array (cfg_ops (cfg c)) (ainv c) (apend c) tags (cfg_numLines (cfg c))"
    and memories: "memory_ctrl (mop k) (minv k)"
begin

abbreviation st where "st \<equiv> line_state cfg tags"
abbreviation sh where "sh \<equiv> line_sharer cfg tags"
abbreviation ex where "ex \<equiv> line_excl cfg tags"
abbreviation blw where "blw \<equiv> below cfg caches"
abbreviation lok where "lok \<equiv> lines_ok cfg tags"
abbreviation nok where "nok \<equiv> node_ok cfg tags"

definition inval_pre :: "Address \<Rightarrow> InvType \<Rightarrow> nat \<Rightarrow> ('a, 'm) sys \<Rightarrow> bool" where
  "inval_pre A ty c s \<longleftrightarrow> c \<in> caches \<and> A \<noteq> 0 \<and> (ty = INV \<or> ty = INVX) \<and> st s c A \<noteq> I \<and>
     (ty = INVX \<longrightarrow> excl (st s c A)) \<and>
     (\<forall>q. blw A q c \<longrightarrow> ainv q (cs_array (s_caches s q)) \<and> lok s q \<and> nok s A q \<and>
        \<not> cs_bccLock (s_caches s q))"

definition inval_post :: "Address \<Rightarrow> InvType \<Rightarrow> nat \<Rightarrow> ('a, 'm) sys \<Rightarrow> ('a, 'm) sys \<Rightarrow> bool" where
  "inval_post A ty c s s' \<longleftrightarrow> frame s s' \<and> (\<forall>q. \<not> blw A q c \<longrightarrow> same_cache tags s s' q) \<and>
     (\<forall>q B. B \<noteq> 0 \<longrightarrow> B \<noteq> A \<longrightarrow> st s' q B = st s q B \<and> sh s' q B = sh s q B \<and> ex s' q B = ex s q B) \<and>
     (\<forall>q. blw A q c \<longrightarrow> st s' q A = down ty (st s q A) \<and> nok s' A q \<and> lok s' q)"

definition inval_spec :: "('a, 'm) inv_fun \<Rightarrow> Address \<Rightarrow> InvType \<Rightarrow> nat \<Rightarrow> bool" where
  "inval_spec ivl A ty c \<longleftrightarrow> (\<forall>wb s cyc src. inval_pre A ty c s \<longrightarrow>
     (\<exists>resp wb' s'.
        ivl c \<lparr>inv_lineAddr = A, inv_type = ty, inv_cycle = cyc, inv_srcId = src\<rparr> wb s = Some (resp, wb', s') \<and>
        cyc \<le> resp \<and> inval_post A ty c s s' \<and> (wb' \<longleftrightarrow> wb \<or> (\<exists>d. blw A d c \<and> st s d A = M))))"

lemma inval_specD:
  assumes "inval_spec ivl A ty c" "inval_pre A ty c s"
  shows "\<exists>resp wb' s'.
    ivl c \<lparr>inv_lineAddr = A, inv_type = ty, inv_cycle = cyc, inv_srcId = src\<rparr> wb s = Some (resp, wb', s') \<and>
    cyc \<le> resp \<and> inval_post A ty c s s' \<and> (wb' \<longleftrightarrow> wb \<or> (\<exists>d. blw A d c \<and> st s d A = M))"
  using assms by (simp add: inval_spec_def)

lemma nok_frame:
  assumes "nok s A q" "q \<in> caches" "same_cache tags s s' q"
    and "\<And>e. e \<in> caches \<Longrightarrow> home cfg e A = CacheObj q \<Longrightarrow> same_cache tags s s' e"
  shows "nok s' A q"
  using assms(1,2)
proof (rule node_ok_cong)
  show "st s' q A = st s q A" "sh s' q A = sh s q A" "ex s' q A = ex s q A"
    using same_cache_view [OF assms(3)] by simp_all
  show "st s' e A = st s e A" if "e \<in> caches" "home cfg e A = CacheObj q" for e
    using same_cache_view(2) [OF assms(4) [OF that]] by simp
qed

lemma inval_pre_frame:
  assumes "inval_pre A ty e s" "frame s s'" "\<And>q. blw A q e \<Longrightarrow> same_cache tags s s' q"
  shows "inval_pre A ty e s'"
proof -
  have "blw A e e" using assms(1) by (auto simp: inval_pre_def intro: below_refl)
  then have e: "st s' e A = st s e A" using same_cache_view(2) [OF assms(3)] by simp
  have "nok s' A q" if q: "blw A q e" for q
  proof (rule nok_frame [of s])
    show "nok s A q" "q \<in> caches" using assms(1) q below_caches by (auto simp: inval_pre_def)
    show "same_cache tags s s' q" using assms(3) q .
    show "same_cache tags s s' d" if "d \<in> caches" "home cfg d A = CacheObj q" for d
      using assms(3) below_step [OF that q] .
  qed
  moreover have "lok s' q" if "blw A q e" for q
    using same_cache_view(5) [OF assms(3) [OF that]] assms(1) that by (auto simp: inval_pre_def)
  ultimately show ?thesis using assms(1,2) e by (simp add: inval_pre_def frame_def)
qed

definition affected :: "Address \<Rightarrow> nat \<Rightarrow> Entry \<Rightarrow> nat set \<Rightarrow> nat \<Rightarrow> bool" where
  "affected A p e J q \<longleftrightarrow> (\<exists>i\<in>J. en_sharers e i \<and> blw A q (cfg_children (cfg p) ! i))"

definition clear_sharers :: "InvType \<Rightarrow> nat set \<Rightarrow> Entry \<Rightarrow> Entry" where
  "clear_sharers ty J e = e\<lparr>en_sharers := (\<lambda>i. en_sharers e i \<and> \<not> (ty = INV \<and> i \<in> J))\<rparr>"

text \<open>
  The effect of invalidating the sharers in \<open>J\<close> of the entry of line \<open>l\<close> of \<open>p\<close>, which becomes
  \<open>e'\<close>.
\<close>

definition send_post ::
  "Address \<Rightarrow> InvType \<Rightarrow> nat \<Rightarrow> nat \<Rightarrow> nat set \<Rightarrow> Entry \<Rightarrow> ('a, 'm) sys \<Rightarrow> ('a, 'm) sys \<Rightarrow> bool" where
  "send_post A ty p l J e' s s' \<longleftrightarrow> frame s s' \<and>
     (\<forall>q. q \<noteq> p \<longrightarrow> \<not> affected A p (tcc_entry p l s) J q \<longrightarrow> same_cache tags s s' q) \<and>
     (\<forall>m. bcc_state p m s' = bcc_state p m s) \<and> (\<forall>m. m \<noteq> l \<longrightarrow> tcc_entry p m s' = tcc_entry p m s) \<and>
     tcc_entry p l s' = e' \<and>
     (\<forall>q B. q \<noteq> p \<longrightarrow> B \<noteq> 0 \<longrightarrow> B \<noteq> A \<longrightarrow> st s' q B = st s q B \<and> sh s' q B = sh s q B \<and> ex s' q B = ex s q B) \<and>
     (\<forall>q. affected A p (tcc_entry p l s) J q \<longrightarrow> st s' q A = down ty (st s q A) \<and> nok s' A q \<and> lok s' q)"

abbreviation loop_post where
  "loop_post A ty p l J s \<equiv> send_post A ty p l J (clear_sharers ty J (tcc_entry p l s)) s"

lemma loop_refl:
  assumes "\<forall>i\<in>J. \<not> en_sharers (tcc_entry p l s) i"
  shows "loop_post A ty p l J s s"
proof -
  have "clear_sharers ty J (tcc_entry p l s) = tcc_entry p l s"
    unfolding clear_sharers_def using assms by (auto intro!: Entry.equality ext)
  then show ?thesis using assms by (auto simp: send_post_def affected_def)
qed

lemma loop_step:
  assumes post: "inval_post A ty (cfg_children (cfg p) ! i) s s1"
    and i: "home cfg (cfg_children (cfg p) ! i) A = CacheObj p" "cfg_children (cfg p) ! i \<in> caches"
      "en_sharers (tcc_entry p l s) i"
    and s2: "s2 = (if ty = INV then set_tcc p l
      ((tcc_entry p l s1)\<lparr>en_sharers := (en_sharers (tcc_entry p l s1))(i := False)\<rparr>) s1 else s1)"
  shows "loop_post A ty p l {i} s s2"
proof -
  let ?ch = "cfg_children (cfg p) ! i"
  have p: "\<not> blw A p ?ch" using not_below_child [OF i(1,2)] .
  then have sp: "same_cache tags s s1 p" using post by (simp add: inval_post_def)
  have e: "tcc_entry p m s1 = tcc_entry p m s" "bcc_state p m s1 = bcc_state p m s" for m
    using sp by (simp_all add: same_cache_def tcc_entry_def bcc_state_def)
  have o: "same_cache tags s1 s2 q" if "q \<noteq> p" for q
    unfolding s2 using that by (auto intro: same_cacheI)
  have aff: "affected A p (tcc_entry p l s) {i} q \<longleftrightarrow> blw A q ?ch" for q
    using i(3) by (simp add: affected_def)
  have 1: "frame s s2"
    using post unfolding s2 inval_post_def by (auto intro: frame_trans)
  have 2: "same_cache tags s s2 q" if "q \<noteq> p" "\<not> blw A q ?ch" for q
    using post that o by (auto simp: inval_post_def intro: same_cache_trans)
  have 3: "tcc_entry p l s2 = clear_sharers ty {i} (tcc_entry p l s)"
    unfolding s2 clear_sharers_def by (auto simp: e fun_eq_iff intro!: Entry.equality)
  have 4: "st s2 q A = down ty (st s q A) \<and> nok s2 A q \<and> lok s2 q" if q: "blw A q ?ch" for q
  proof -
    have qp: "q \<noteq> p" "q \<in> caches" using q p below_caches by auto
    have "st s1 q A = down ty (st s q A)" "nok s1 A q" "lok s1 q"
      using post q by (auto simp: inval_post_def)
    moreover have "nok s2 A q"
    proof (rule nok_frame [of s1])
      show "same_cache tags s1 s2 d" if "d \<in> caches" "home cfg d A = CacheObj q" for d
        using o [of d] below_step [OF that q] p by auto
    qed (use calculation qp o in auto)
    ultimately show ?thesis using same_cache_view [OF o [OF qp(1)]] by simp
  qed
  have 5: "st s2 q B = st s q B \<and> sh s2 q B = sh s q B \<and> ex s2 q B = ex s q B"
    if "q \<noteq> p" "B \<noteq> 0" "B \<noteq> A" for q B
    using post that same_cache_view [OF o [OF that(1)]] by (simp add: inval_post_def)
  show ?thesis
    unfolding send_post_def aff using 1 2 3 4 5 e by (simp add: s2)
qed

lemma loop_trans:
  assumes 1: "loop_post A ty p l J s s1" and 2: "loop_post A ty p l K s1 s2" and JK: "J \<inter> K = {}"
    and kids: "\<forall>i\<in>J \<union> K. en_sharers (tcc_entry p l s) i \<longrightarrow>
      home cfg (cfg_children (cfg p) ! i) A = CacheObj p \<and> cfg_children (cfg p) ! i \<in> caches"
    and inj: "inj_on (\<lambda>i. cfg_children (cfg p) ! i) (J \<union> K)"
  shows "loop_post A ty p l (J \<union> K) s s2"
proof -
  let ?e = "tcc_entry p l s"
  have e1: "tcc_entry p l s1 = clear_sharers ty J ?e" using 1 by (simp add: send_post_def)
  then have K: "en_sharers (tcc_entry p l s1) i = en_sharers ?e i" if "i \<in> K" for i
    using that JK by (auto simp: clear_sharers_def)
  have aK: "affected A p (tcc_entry p l s1) K q = affected A p ?e K q" for q
    using K by (auto simp: affected_def)
  have aJK: "affected A p ?e (J \<union> K) q \<longleftrightarrow> affected A p ?e J q \<or> affected A p ?e K q" for q
    by (auto simp: affected_def)
  have np: "\<not> affected A p ?e (J \<union> K) p" using kids not_below_child by (auto simp: affected_def)
  have disj: "\<not> affected A p ?e K q" if "affected A p ?e J q" for q
  proof
    assume "affected A p ?e K q"
    with that obtain i j where ij: "i \<in> J" "j \<in> K" "en_sharers ?e i" "en_sharers ?e j"
      "blw A q (cfg_children (cfg p) ! i)" "blw A q (cfg_children (cfg p) ! j)"
      by (auto simp: affected_def)
    then have "cfg_children (cfg p) ! i = cfg_children (cfg p) ! j"
      using kids siblings_disjoint by blast
    then have "i = j" using inj ij by (auto dest: inj_onD)
    then show False using ij JK by blast
  qed
  have frame: "frame s s2" using 1 2 by (auto simp: send_post_def intro: frame_trans)
  have same: "same_cache tags s s2 q" if "q \<noteq> p" "\<not> affected A p ?e (J \<union> K) q" for q
    using 1 2 that aK aJK same_cache_trans [of tags s s1 q s2] by (simp add: send_post_def)
  have keep: "same_cache tags s1 s2 q" if "affected A p ?e J q" for q
  proof -
    have "q \<noteq> p" using that np aJK by blast
    then show ?thesis using 2 aK disj [OF that] by (simp add: send_post_def)
  qed
  have J: "st s2 q A = down ty (st s q A) \<and> nok s2 A q \<and> lok s2 q" if q: "affected A p ?e J q" for q
  proof -
    have "st s1 q A = down ty (st s q A)" "nok s1 A q" "lok s1 q"
      using 1 q by (auto simp: send_post_def)
    moreover have "nok s2 A q"
    proof (rule nok_frame [of s1])
      show "q \<in> caches" using q below_caches by (auto simp: affected_def)
      show "same_cache tags s1 s2 d" if "d \<in> caches" "home cfg d A = CacheObj q" for d
        using q that keep [of d] below_step [OF that] unfolding affected_def by blast
    qed (use calculation keep [OF q] in auto)
    ultimately show ?thesis using same_cache_view [OF keep [OF q]] by simp
  qed
  have K': "st s2 q A = down ty (st s q A) \<and> nok s2 A q \<and> lok s2 q" if q: "affected A p ?e K q" for q
  proof -
    have "q \<noteq> p" "\<not> affected A p ?e J q" using q np aJK disj by auto
    then have "same_cache tags s s1 q" using 1 by (simp add: send_post_def)
    then show ?thesis using 2 q aK same_cache_view(2) [of tags s s1 q cfg] by (simp add: send_post_def)
  qed
  have "clear_sharers ty K (clear_sharers ty J ?e) = clear_sharers ty (J \<union> K) ?e"
    by (auto simp: clear_sharers_def fun_eq_iff intro!: Entry.equality)
  then show ?thesis
    unfolding send_post_def using frame same J K' aJK 1 2 e1 by (simp add: send_post_def)
qed

lemma children_inj: "p \<in> caches \<Longrightarrow> inj_on (\<lambda>i. cfg_children (cfg p) ! i) {..<length (cfg_children (cfg p))}"
  by (rule inj_onI) (metis child_cache lessThan_iff)

lemma inv_children_ok:
  assumes p: "p \<in> caches"
    and spec: "\<And>i. i < length (cfg_children (cfg p)) \<Longrightarrow>
      home cfg (cfg_children (cfg p) ! i) A = CacheObj p \<Longrightarrow> inval_spec ivl A ty (cfg_children (cfg p) ! i)"
    and "distinct is" "set is \<subseteq> {..<length (cfg_children (cfg p))}"
    and "\<And>i. i \<in> set is \<Longrightarrow> en_sharers (tcc_entry p l s) i \<Longrightarrow>
      home cfg (cfg_children (cfg p) ! i) A = CacheObj p \<and> inval_pre A ty (cfg_children (cfg p) ! i) s"
  shows "\<exists>mc' wb' s'. inv_children ivl (cfg p) p l
        \<lparr>inv_lineAddr = A, inv_type = ty, inv_cycle = cyc, inv_srcId = src\<rparr> is mc wb n s =
      Some (mc', wb', n + card {i \<in> set is. en_sharers (tcc_entry p l s) i}, s') \<and> mc \<le> mc' \<and>
    loop_post A ty p l (set is) s s' \<and>
    (wb' \<longleftrightarrow> wb \<or> (\<exists>d. affected A p (tcc_entry p l s) (set is) d \<and> st s d A = M))"
  using assms(3-)
proof (induction "is" arbitrary: mc wb n s)
  case Nil
  then show ?case using loop_refl [of "{}" p l s A ty] by (simp add: affected_def)
next
  case (Cons i "is")
  let ?ch = "\<lambda>i. cfg_children (cfg p) ! i" and ?e = "tcc_entry p l s"
  let ?req = "\<lparr>inv_lineAddr = A, inv_type = ty, inv_cycle = cyc, inv_srcId = src\<rparr>"
  have i: "i < length (cfg_children (cfg p))" "i \<notin> set is" using Cons.prems by auto
  show ?case
  proof (cases "en_sharers ?e i")
    case False
    have IH: "\<And>j. j \<in> set is \<Longrightarrow> en_sharers ?e j \<Longrightarrow>
        home cfg (?ch j) A = CacheObj p \<and> inval_pre A ty (?ch j) s"
      using Cons.prems(3) by simp
    have "affected A p ?e (set (i # is)) = affected A p ?e (set is)"
      "clear_sharers ty (set (i # is)) ?e = clear_sharers ty (set is) ?e"
      using False by (auto simp: affected_def clear_sharers_def fun_eq_iff intro!: Entry.equality)
    then have "loop_post A ty p l (set (i # is)) s = loop_post A ty p l (set is) s"
      "affected A p ?e (set (i # is)) = affected A p ?e (set is)"
      by (simp_all add: send_post_def fun_eq_iff)
    moreover have "{j \<in> set (i # is). en_sharers ?e j} = {j \<in> set is. en_sharers ?e j}"
      using False by auto
    ultimately show ?thesis using False Cons.IH [OF _ _ IH, of mc wb n] Cons.prems(1,2) by simp
  next
    case True
    have pre: "home cfg (?ch i) A = CacheObj p" "inval_pre A ty (?ch i) s"
      using Cons.prems(3) [of i] True by simp_all
    obtain resp wb1 s1 where iv: "ivl (?ch i) ?req wb s = Some (resp, wb1, s1)"
      "inval_post A ty (?ch i) s s1" "wb1 \<longleftrightarrow> wb \<or> (\<exists>d. blw A d (?ch i) \<and> st s d A = M)"
      using inval_specD [OF spec [OF i(1) pre(1)] pre(2)] by blast
    define s2 where "s2 = (if ty = INV then set_tcc p l
      ((tcc_entry p l s1)\<lparr>en_sharers := (en_sharers (tcc_entry p l s1))(i := False)\<rparr>) s1 else s1)"
    have chi: "?ch i \<in> caches" using child_cache [OF p i(1)] by simp
    have step: "loop_post A ty p l {i} s s2"
      using loop_step [OF iv(2) pre(1) chi True s2_def] .
    then have e2: "tcc_entry p l s2 = clear_sharers ty {i} ?e" by (simp add: send_post_def)
    have sh2: "en_sharers (tcc_entry p l s2) j = en_sharers ?e j" if "j \<in> set is" for j
      using that i(2) e2 by (auto simp: clear_sharers_def)
    have rest: "same_cache tags s s2 q" if j: "j \<in> set is" "en_sharers ?e j" "blw A q (?ch j)" for j q
    proof -
      have hj: "home cfg (?ch j) A = CacheObj p" using Cons.prems(3) [of j] j by simp
      have "j < length (cfg_children (cfg p))" using Cons.prems(2) j(1) by auto
      then have "?ch i \<noteq> ?ch j" using children_inj [OF p] i j(1) by (auto dest: inj_onD)
      then have "\<not> blw A q (?ch i)" using siblings_disjoint [OF _ j(3) pre(1) hj] by blast
      moreover have "q \<noteq> p" using j(3) hj not_below_child [OF hj] below_caches by blast
      ultimately show ?thesis using step by (auto simp: send_post_def affected_def)
    qed
    have IH: "\<And>j. j \<in> set is \<Longrightarrow> en_sharers (tcc_entry p l s2) j \<Longrightarrow>
        home cfg (?ch j) A = CacheObj p \<and> inval_pre A ty (?ch j) s2"
      using Cons.prems(3) sh2 inval_pre_frame [of A ty _ s s2] rest step
      by (auto simp: send_post_def)
    obtain mc' wb' s' where r: "inv_children ivl (cfg p) p l ?req is (max (resp + cfg_childrenRTTs (cfg p) ! i) mc)
        wb1 (n + 1) s2 = Some (mc', wb', n + 1 + card {j \<in> set is. en_sharers (tcc_entry p l s2) j}, s')"
      "max (resp + cfg_childrenRTTs (cfg p) ! i) mc \<le> mc'" "loop_post A ty p l (set is) s2 s'"
      "wb' \<longleftrightarrow> wb1 \<or> (\<exists>d. affected A p (tcc_entry p l s2) (set is) d \<and> st s2 d A = M)"
      using Cons.IH [OF _ _ IH, of "max (resp + cfg_childrenRTTs (cfg p) ! i) mc" wb1 "n + 1"] Cons.prems(1,2)
      by auto
    have post: "loop_post A ty p l ({i} \<union> set is) s s'"
    proof -
      have "\<forall>j\<in>{i} \<union> set is. en_sharers ?e j \<longrightarrow> home cfg (?ch j) A = CacheObj p \<and> ?ch j \<in> caches"
        using Cons.prems(2,3) child_cache [OF p] by auto
      moreover have "inj_on ?ch ({i} \<union> set is)"
        by (rule inj_on_subset [OF children_inj [OF p]]) (use Cons.prems(2) in auto)
      ultimately show ?thesis using loop_trans [OF step r(3)] i(2)
        by (auto simp: send_post_def e2 clear_sharers_def)
    qed
    have cnt: "n + 1 + card {j \<in> set is. en_sharers (tcc_entry p l s2) j} =
        n + card {j \<in> set (i # is). en_sharers ?e j}"
    proof -
      have "{j \<in> set (i # is). en_sharers ?e j} = insert i {j \<in> set is. en_sharers (tcc_entry p l s2) j}"
        using True sh2 by auto
      then show ?thesis using i(2) by simp
    qed
    have wbs: "(\<exists>d. affected A p (tcc_entry p l s2) (set is) d \<and> st s2 d A = M) \<longleftrightarrow>
        (\<exists>d. affected A p ?e (set is) d \<and> st s d A = M)"
      using sh2 rest same_cache_view(2) [of tags s s2 _ cfg] unfolding affected_def by metis
    have "inv_children ivl (cfg p) p l ?req (i # is) mc wb n s = Some (mc', wb', n + card {j \<in> set (i # is). en_sharers ?e j}, s')"
      using True iv(1) r(1) cnt by (simp add: s2_def Let_def)
    then show ?thesis using r(2,4) iv(3) post wbs True
      by (auto simp: affected_def)
  qed
qed

lemma not_affected_self:
  assumes "\<And>i. i \<in> J \<Longrightarrow> en_sharers e i \<Longrightarrow>
    home cfg (cfg_children (cfg p) ! i) A = CacheObj p \<and> cfg_children (cfg p) ! i \<in> caches"
  shows "\<not> affected A p e J p"
  using assms not_below_child by (auto simp: affected_def)

lemma send_post_entry:
  assumes post: "send_post A ty p l J e1 s s1" and self: "\<not> affected A p (tcc_entry p l s) J p"
  shows "send_post A ty p l J e' s (set_tcc p l e' s1)"
proof -
  let ?s2 = "set_tcc p l e' s1" and ?aff = "affected A p (tcc_entry p l s) J"
  have o: "same_cache tags s1 ?s2 q" if "q \<noteq> p" for q using that by (auto intro: same_cacheI)
  have nok: "nok ?s2 A q" if q: "?aff q" for q
  proof (rule nok_frame [of s1])
    show "nok s1 A q" using post q by (simp add: send_post_def)
    show "q \<in> caches" using q below_caches by (auto simp: affected_def)
    show "same_cache tags s1 ?s2 q" using o self q by metis
    show "same_cache tags s1 ?s2 d" if "d \<in> caches" "home cfg d A = CacheObj q" for d
      using o [of d] q self below_step [OF that] unfolding affected_def by blast
  qed
  have v: "st ?s2 q B = st s1 q B" "sh ?s2 q B = sh s1 q B" "ex ?s2 q B = ex s1 q B" "lok ?s2 q = lok s1 q"
    if "q \<noteq> p" for q B using same_cache_view [OF o [OF that]] by simp_all
  have same: "same_cache tags s ?s2 q" if "q \<noteq> p" "\<not> ?aff q" for q
    using post that o [OF that(1)] same_cache_trans [of tags s s1 q ?s2] by (simp add: send_post_def)
  have "frame s ?s2" using post frame_trans [of s s1 ?s2] by (simp add: send_post_def)
  moreover have "st ?s2 q A = down ty (st s q A) \<and> nok ?s2 A q \<and> lok ?s2 q" if "?aff q" for q
    using that post nok [OF that] v [of q] self by (cases "q = p") (auto simp: send_post_def)
  ultimately show ?thesis using post same v unfolding send_post_def by simp
qed

definition sent_entry :: "InvType \<Rightarrow> Entry \<Rightarrow> Entry" where
  "sent_entry ty e =
     (if ty = INV then e\<lparr>en_sharers := (\<lambda>_. False), en_numSharers := 0\<rparr> else e\<lparr>en_exclusive := False\<rparr>)"

lemma sendInvalidates_ok:
  fixes s :: "('a, 'm) sys"
  assumes p: "p \<in> caches" and ty: "ty = INV \<or> ty = INVX"
    and e: "entry_ok (length (cfg_children (cfg p))) (tcc_entry p l s)"
    and spec: "\<And>i. i < length (cfg_children (cfg p)) \<Longrightarrow>
      home cfg (cfg_children (cfg p) ! i) A = CacheObj p \<Longrightarrow> inval_spec ivl A ty (cfg_children (cfg p) ! i)"
    and pre: "\<And>i. en_sharers (tcc_entry p l s) i \<Longrightarrow> ty = INVX \<longrightarrow> en_isExclusive (tcc_entry p l s) \<Longrightarrow>
      home cfg (cfg_children (cfg p) ! i) A = CacheObj p \<and> inval_pre A ty (cfg_children (cfg p) ! i) s"
  shows "\<exists>mc wb' s'. sendInvalidates ivl (cfg p) p A l ty wb cyc src s = Some (mc, wb', s') \<and> cyc \<le> mc \<and>
    (if ty = INVX \<and> \<not> en_isExclusive (tcc_entry p l s) then s' = s \<and> wb' = wb
     else send_post A ty p l {..<length (cfg_children (cfg p))} (sent_entry ty (tcc_entry p l s)) s s' \<and>
       (wb' \<longleftrightarrow> wb \<or> (\<exists>d. affected A p (tcc_entry p l s) {..<length (cfg_children (cfg p))} d \<and> st s d A = M)))"
proof -
  let ?e = "tcc_entry p l s" and ?n = "length (cfg_children (cfg p))"
  let ?J = "{..<?n}"
  have sub: "{i. en_sharers ?e i} \<subseteq> ?J" "finite {i. en_sharers ?e i}"
    using e by (auto simp: entry_ok_def intro: finite_subset)
  consider (skip) "ty = INVX" "\<not> en_isExclusive ?e"
    | (empty) "ty = INV" "en_isEmpty ?e" | (send) "ty = INVX \<longrightarrow> en_isExclusive ?e" "\<not> en_isEmpty ?e"
    using ty by (cases "en_isExclusive ?e"; cases "en_isEmpty ?e") (auto simp: en_isEmpty_def en_isExclusive_def)
  then show ?thesis
  proof cases
    case skip
    then show ?thesis by (simp add: sendInvalidates_def Let_def)
  next
    case empty
    then have none: "\<forall>i. \<not> en_sharers ?e i" using e sub(2) by (simp add: entry_ok_def en_isEmpty_def)
    have "sent_entry ty ?e = clear_sharers ty ?J ?e"
      using none empty by (auto simp: sent_entry_def clear_sharers_def en_isEmpty_def intro!: Entry.equality ext)
    then show ?thesis using empty none loop_refl [of ?J p l s A ty]
      by (simp add: sendInvalidates_def Let_def affected_def)
  next
    case send
    have pre': "\<And>i. i \<in> set [0..<?n] \<Longrightarrow> en_sharers ?e i \<Longrightarrow>
        home cfg (cfg_children (cfg p) ! i) A = CacheObj p \<and> inval_pre A ty (cfg_children (cfg p) ! i) s"
      using pre send(1) by blast
    have J: "set [0..<?n] = ?J" by auto
    have cnt: "card {i \<in> ?J. en_sharers ?e i} = en_numSharers ?e"
    proof -
      have "{i \<in> ?J. en_sharers ?e i} = {i. en_sharers ?e i}" using sub(1) by auto
      then show ?thesis using e by (simp add: entry_ok_def)
    qed
    have "\<exists>mc' wb' s'. inv_children ivl (cfg p) p l
        \<lparr>inv_lineAddr = A, inv_type = ty, inv_cycle = cyc, inv_srcId = src\<rparr> [0..<?n] cyc wb 0 s =
        Some (mc', wb', 0 + card {i \<in> set [0..<?n]. en_sharers ?e i}, s') \<and> cyc \<le> mc' \<and>
        loop_post A ty p l (set [0..<?n]) s s' \<and>
        (wb' \<longleftrightarrow> wb \<or> (\<exists>d. affected A p ?e (set [0..<?n]) d \<and> st s d A = M))"
      by (rule inv_children_ok [OF p spec _ _ pre']) auto
    then obtain mc wb' s1 where r: "inv_children ivl (cfg p) p l
        \<lparr>inv_lineAddr = A, inv_type = ty, inv_cycle = cyc, inv_srcId = src\<rparr> [0..<?n] cyc wb 0 s =
        Some (mc, wb', en_numSharers ?e, s1)" "cyc \<le> mc" "loop_post A ty p l ?J s s1"
      "wb' \<longleftrightarrow> wb \<or> (\<exists>d. affected A p ?e ?J d \<and> st s d A = M)"
      unfolding J cnt by auto
    have e1: "tcc_entry p l s1 = clear_sharers ty ?J ?e" using r(3) by (simp add: send_post_def)
    have self: "\<not> affected A p ?e ?J p"
      using pre' child_cache [OF p] by (intro not_affected_self) auto
    have ent: "sent_entry ty ?e = (if ty = INV then (tcc_entry p l s1)\<lparr>en_numSharers := 0\<rparr>
        else (tcc_entry p l s1)\<lparr>en_exclusive := False\<rparr>)"
      using sub(1) by (auto simp: e1 sent_entry_def clear_sharers_def intro!: Entry.equality ext)
    have "sendInvalidates ivl (cfg p) p A l ty wb cyc src s = Some (mc, wb', set_tcc p l (sent_entry ty ?e) s1)"
      using r(1) send ty unfolding ent
      by (auto simp: sendInvalidates_def Let_def e1 clear_sharers_def en_isExclusive_def)
    then show ?thesis using send_post_entry [OF r(3) self, of "sent_entry ty ?e"] r(2,4) send(1) by auto
  qed
qed

text \<open>The invariant between a cache and the child that fetches the address from it.\<close>

lemma nok_home:
  assumes "nok s A c" "d \<in> caches" "home cfg d A = CacheObj c"
  shows "sh s c A (cfg_selfId (cfg d)) \<longleftrightarrow> st s d A \<noteq> I" "st s d A \<noteq> I \<Longrightarrow> st s c A \<noteq> I"
    "excl (st s d A) \<Longrightarrow> ex s c A \<and> excl (st s c A)" "ex s c A \<Longrightarrow> st s d A \<noteq> I \<Longrightarrow> excl (st s d A)"
proof -
  note h = home_cache [OF assms(2,3)]
  have "edge_ok cfg A (\<lambda>c. st s c A) (\<lambda>q. sh s q A) (\<lambda>q. ex s q A) c (cfg_selfId (cfg d))"
    using assms(1) h(3) by (simp add: node_ok_def)
  then show "sh s c A (cfg_selfId (cfg d)) \<longleftrightarrow> st s d A \<noteq> I" "st s d A \<noteq> I \<Longrightarrow> st s c A \<noteq> I"
    "excl (st s d A) \<Longrightarrow> ex s c A \<and> excl (st s c A)" "ex s c A \<Longrightarrow> st s d A \<noteq> I \<Longrightarrow> excl (st s d A)"
    using h(4) assms(3) by (auto simp: edge_ok_def Let_def)
qed

lemma nok_sharer:
  assumes "nok s A c" "c \<in> caches" "i < length (cfg_children (cfg c))" "sh s c A i"
  shows "home cfg (cfg_children (cfg c) ! i) A = CacheObj c" "cfg_children (cfg c) ! i \<in> caches"
    "cfg_selfId (cfg (cfg_children (cfg c) ! i)) = i"
  using assms child_cache [OF assms(2,3)] by (auto simp: node_ok_def edge_ok_def Let_def)

text \<open>What a cache may do with the line bounds what the caches below it may do.\<close>

lemma below_states:
  assumes "blw A d c" "\<And>q. blw A q c \<Longrightarrow> nok s A q"
  shows "st s d A \<noteq> I \<Longrightarrow> st s c A \<noteq> I" "excl (st s d A) \<Longrightarrow> excl (st s c A)"
proof -
  have "(st s d A \<noteq> I \<longrightarrow> st s c A \<noteq> I) \<and> (excl (st s d A) \<longrightarrow> excl (st s c A))"
    using assms
  proof (induction rule: below.induct)
    case (below_step d d' c)
    have "nok s A d'" using below_step by blast
    from nok_home [OF this below_step.hyps(1,2)] show ?case using below_step by blast
  qed simp
  then show "st s d A \<noteq> I \<Longrightarrow> st s c A \<noteq> I" "excl (st s d A) \<Longrightarrow> excl (st s c A)" by blast+
qed

text \<open>The state after the children of \<open>c\<close> have been dealt with and before \<open>c\<close> changes its own state.\<close>

definition inval_mid :: "Address \<Rightarrow> InvType \<Rightarrow> nat \<Rightarrow> nat \<Rightarrow> ('a, 'm) sys \<Rightarrow> ('a, 'm) sys \<Rightarrow> bool" where
  "inval_mid A ty c l s s2 \<longleftrightarrow>
     frame (upd_cache c (\<lambda>k. k\<lparr>cs_bccLock := True\<rparr>) s) s2 \<and>
     (\<forall>q. q \<noteq> c \<longrightarrow> \<not> blw A q c \<longrightarrow> same_cache tags s s2 q) \<and>
     (\<forall>m. bcc_state c m s2 = bcc_state c m s) \<and> (\<forall>m. m \<noteq> l \<longrightarrow> tcc_entry c m s2 = tcc_entry c m s) \<and>
     entry_ok (length (cfg_children (cfg c))) (tcc_entry c l s2) \<and> \<not> en_isExclusive (tcc_entry c l s2) \<and>
     en_sharers (tcc_entry c l s2) = (if ty = INV then (\<lambda>_. False) else en_sharers (tcc_entry c l s)) \<and>
     (\<forall>q B. q \<noteq> c \<longrightarrow> B \<noteq> 0 \<longrightarrow> B \<noteq> A \<longrightarrow> st s2 q B = st s q B \<and> sh s2 q B = sh s q B \<and> ex s2 q B = ex s q B) \<and>
     (\<forall>q. q \<noteq> c \<longrightarrow> blw A q c \<longrightarrow> st s2 q A = down ty (st s q A) \<and> nok s2 A q \<and> lok s2 q)"

lemma inval_mid_finish:
  assumes pre: "inval_pre A ty c s" and l: "line_of cfg tags s c A = Some l"
    and mid: "inval_mid A ty c l s s2"
    and s': "s' = futex_unlock (BccLock c) (prof c f (set_bcc c l (down ty (st s c A)) s2))"
  shows "inval_post A ty c s s'"
proof -
  have c: "c \<in> caches" "A \<noteq> 0" "ty = INV \<or> ty = INVX" "lok s c" "nok s A c" "\<not> cs_bccLock (s_caches s c)"
    using pre below_refl [of c caches cfg A] by (auto simp: inval_pre_def)
  have fr: "frame s s'" using mid c(6) unfolding s' inval_mid_def
    by (auto simp: frame_def upd_defs split: if_splits)
  have l2: "line_of cfg tags s2 c A = Some l" "line_of cfg tags s' d B = line_of cfg tags s d B"
    "tags (cs_array (s_caches s2 c)) = tags (cs_array (s_caches s c))" for d B
    using l mid frame_line_of [OF fr] by (auto simp: inval_mid_def frame_def line_of_def)
  have oth: "same_cache tags s2 s' q" if "q \<noteq> c" for q
    unfolding s' using that by (auto intro: same_cacheI)
  note v = same_cache_view [OF oth]
  have cst: "st s' c B = (if B = A then down ty (st s c A) else st s c B)" for B
    using l line_of_other [OF l, of B] l2(2) mid unfolding s'
    by (auto simp: line_state_def inval_mid_def split: option.splits)
  have csh: "sh s' c B = (if B = A then en_sharers (tcc_entry c l s2) else sh s c B)"
    "ex s' c B = (if B = A then False else ex s c B)" for B
    using l line_of_other [OF l, of B] l2(2) [of c B] mid unfolding s'
    by (auto simp: fun_eq_iff line_sharer_def line_excl_def inval_mid_def split: option.splits)
  have low: "st s' q A = down ty (st s q A) \<and> lok s' q \<and> nok s' A q" if q: "blw A q c" "q \<noteq> c" for q
  proof -
    have "nok s' A q"
    proof (rule nok_frame [of s2])
      show "nok s2 A q" "q \<in> caches" using mid q below_caches by (auto simp: inval_mid_def)
      show "same_cache tags s2 s' q" using oth q by simp
      show "same_cache tags s2 s' d" if "d \<in> caches" "home cfg d A = CacheObj q" for d
        using oth [of d] below_lvl_less [OF q] home_cache(5) [OF that] by (cases "d = c") auto
    qed
    then show ?thesis using mid q v [OF q(2)] by (simp add: inval_mid_def)
  qed
  have lokc: "lok s' c"
    using c(4) mid line_of_Some [OF l] c(2) l2(3) unfolding s'
    by (auto simp: lines_ok_def Let_def inval_mid_def)
  have chd: "st s' e A = down ty (st s e A)" if "e \<in> caches" "home cfg e A = CacheObj c" for e
    using low [of e] below_step [OF that below_refl [OF c(1)]] home_cache(5) [OF that] by auto
  have shl: "sh s c A = en_sharers (tcc_entry c l s)" using l by (auto simp: line_sharer_def)
  have "nok s' A c"
    unfolding node_ok_def
  proof (intro allI impI)
    fix i assume i: "i < length (cfg_children (cfg c))"
    let ?e = "cfg_children (cfg c) ! i"
    have old: "edge_ok cfg A (\<lambda>c. st s c A) (\<lambda>q. sh s q A) (\<lambda>q. ex s q A) c i"
      using c(5) i by (simp add: node_ok_def)
    have e: "?e \<in> caches" using child_cache [OF c(1) i] by simp
    have mine: "home cfg ?e A = CacheObj c \<Longrightarrow> st s' ?e A = down ty (st s ?e A)" using chd e by blast
    show "edge_ok cfg A (\<lambda>c. st s' c A) (\<lambda>q. sh s' q A) (\<lambda>q. ex s' q A) c i"
      using old mine c(3) mid pre unfolding edge_ok_def Let_def csh cst shl inval_mid_def inval_pre_def
      by (cases "home cfg ?e A = CacheObj c") (auto simp: excl_def split: if_splits)
  qed
  then have below: "st s' q A = down ty (st s q A) \<and> nok s' A q \<and> lok s' q" if "blw A q c" for q
    using low [OF that] cst [of A] lokc by (cases "q = c") auto
  have "same_cache tags s s' q" if "\<not> blw A q c" for q
  proof -
    have "q \<noteq> c" using that below_refl [OF c(1)] by metis
    then show ?thesis using mid that oth same_cache_trans [of tags s s2 q s'] by (simp add: inval_mid_def)
  qed
  moreover have "st s' q B = st s q B \<and> sh s' q B = sh s q B \<and> ex s' q B = ex s q B"
    if "B \<noteq> 0" "B \<noteq> A" for q B
    using that cst [of B] csh [of B] v [of q] mid by (cases "q = c") (simp_all add: inval_mid_def)
  ultimately show ?thesis unfolding inval_post_def using fr below by blast
qed

abbreviation locked :: "nat \<Rightarrow> ('a, 'm) sys \<Rightarrow> ('a, 'm) sys" where
  "locked c s \<equiv> upd_cache c (\<lambda>k. k\<lparr>cs_bccLock := True\<rparr>) s"

lemma same_locked: "same_cache tags s (locked c s) q"
  by (rule same_cacheI) simp_all

lemma locked_view [simp]:
  "st (locked c s) q = st s q" "sh (locked c s) q = sh s q" "ex (locked c s) q = ex s q"
  "lok (locked c s) q = lok s q" "line_of cfg tags (locked c s) q = line_of cfg tags s q"
  by (rule same_cache_view [OF same_locked])+

lemma inval_pre_child:
  assumes pre: "inval_pre A ty c s" and e: "e \<in> caches" "home cfg e A = CacheObj c"
    and sh: "sh s c A (cfg_selfId (cfg e))" "ty = INVX \<Longrightarrow> ex s c A"
  shows "inval_pre A ty e (locked c s)"
proof -
  note h = home_cache [OF e]
  have "nok s A c" using pre below_refl [of c caches cfg A] by (auto simp: inval_pre_def)
  from nok_home [OF this e] have "st s e A \<noteq> I" "ty = INVX \<Longrightarrow> excl (st s e A)" using sh by auto
  moreover have "ainv q (cs_array (s_caches (locked c s) q)) \<and> lok (locked c s) q \<and>
      nok (locked c s) A q \<and> \<not> cs_bccLock (s_caches (locked c s) q)" if q: "blw A q e" for q
  proof -
    have qc: "q \<noteq> c" "blw A q c" "q \<in> caches"
      using below_lvl [OF q] h(5) below_child [OF e q] below_caches [OF q] by auto
    then have "nok (locked c s) A q" using pre by (auto simp: inval_pre_def intro: nok_frame same_locked)
    then show ?thesis using pre qc by (auto simp: inval_pre_def)
  qed
  ultimately show ?thesis using pre e(1) unfolding inval_pre_def by auto
qed

lemma inval_mid_skip:
  assumes pre: "inval_pre A ty c s" and l: "line_of cfg tags s c A = Some l"
    and none: "\<And>q. blw A q c \<Longrightarrow> q \<noteq> c \<Longrightarrow> down ty (st s q A) = st s q A"
    and e: "\<not> ex s c A" "ty = INV \<Longrightarrow> sh s c A = (\<lambda>_. False)"
  shows "inval_mid A ty c l s (locked c s)"
proof -
  have c: "c \<in> caches" "lok s c" using pre below_refl [of c caches cfg A] by (auto simp: inval_pre_def)
  have "nok (locked c s) A q" if "blw A q c" for q
    using pre that below_caches [OF that] by (auto simp: inval_pre_def intro: nok_frame same_locked)
  moreover have "entry_ok (length (cfg_children (cfg c))) (tcc_entry c l s)"
    using c(2) line_of_Some [OF l] by (simp add: lines_ok_def Let_def)
  moreover have "\<not> en_isExclusive (tcc_entry c l s)" "ty = INV \<Longrightarrow> en_sharers (tcc_entry c l s) = (\<lambda>_. False)"
    using e l by (auto simp: line_excl_def line_sharer_def fun_eq_iff)
  ultimately show ?thesis using none pre same_locked unfolding inval_mid_def
    by (auto simp: inval_pre_def)
qed

lemma affected_sub:
  assumes "nok s A c" "c \<in> caches" "sh s c A = en_sharers e"
    and "affected A c e {..<length (cfg_children (cfg c))} q"
  shows "blw A q c \<and> q \<noteq> c"
proof -
  obtain i where i: "i < length (cfg_children (cfg c))" "sh s c A i" "blw A q (cfg_children (cfg c) ! i)"
    using assms(3,4) by (auto simp: affected_def)
  note h = nok_sharer [OF assms(1,2) i(1,2)]
  show ?thesis using below_child [OF h(2,1) i(3)] not_below_child [OF h(1,2)] i(3) by auto
qed

text \<open>A cache below \<open>c\<close> hears of the invalidation or does not have the line.\<close>

lemma affected_or_invalid:
  assumes "\<And>q. blw A q c \<Longrightarrow> nok s A q" "sh s c A = en_sharers e" "blw A q c" "q \<noteq> c"
  shows "affected A c e {..<length (cfg_children (cfg c))} q \<or> st s q A = I"
proof -
  obtain d where d: "d \<in> caches" "home cfg d A = CacheObj c" "blw A q d"
    using below_last [OF assms(3)] assms(4) by blast
  note h = home_cache [OF d(1,2)]
  have "nok s A c" using assms(1) below_refl [OF h(1)] by blast
  note n = nok_home(1) [OF this d(1,2)]
  have "st s q A = I" if "st s d A = I"
    using below_states(1) [OF d(3), of s] that assms(1) below_child [OF d(1,2)] by auto
  moreover have "affected A c e {..<length (cfg_children (cfg c))} q" if "st s d A \<noteq> I"
    unfolding affected_def
    by (rule bexI [of _ "cfg_selfId (cfg d)"]) (use n that d(3) h(3,4) assms(2) in auto)
  ultimately show ?thesis by blast
qed

lemma affected_up:
  assumes "nok s A c" "c \<in> caches" "sh s c A = en_sharers e" "q \<noteq> c"
    and "d \<in> caches" "home cfg d A = CacheObj q" "affected A c e {..<length (cfg_children (cfg c))} d"
  shows "affected A c e {..<length (cfg_children (cfg c))} q"
proof -
  obtain i where i: "i < length (cfg_children (cfg c))" "sh s c A i" "blw A d (cfg_children (cfg c) ! i)"
    using assms(3,7) by (auto simp: affected_def)
  have "d \<noteq> cfg_children (cfg c) ! i" using nok_sharer(1) [OF assms(1,2) i(1,2)] assms(4,6) by auto
  then have "blw A q (cfg_children (cfg c) ! i)" using below_first [OF i(3)] assms(6) by auto
  then show ?thesis using i assms(3) by (auto simp: affected_def)
qed

lemma inval_mid_send:
  assumes pre: "inval_pre A ty c s" and l: "line_of cfg tags s c A = Some l"
    and post: "send_post A ty c l {..<length (cfg_children (cfg c))} (sent_entry ty (tcc_entry c l s)) (locked c s) s2"
  shows "inval_mid A ty c l s s2"
proof -
  let ?n = "length (cfg_children (cfg c))" and ?e = "tcc_entry c l s"
  let ?aff = "affected A c ?e {..<?n}"
  have c: "c \<in> caches" "lok s c" "nok s A c" "ty = INV \<or> ty = INVX"
    using pre below_refl [of c caches cfg A] by (auto simp: inval_pre_def)
  have n: "\<And>q. blw A q c \<Longrightarrow> nok s A q" using pre by (simp add: inval_pre_def)
  have e: "entry_ok ?n ?e" using c(2) line_of_Some [OF l] by (simp add: lines_ok_def Let_def)
  have shl: "sh s c A = en_sharers ?e" using l by (auto simp: line_sharer_def)
  have e1: "tcc_entry c l (locked c s) = ?e" by simp
  have same: "same_cache tags s s2 d" if "d \<noteq> c" "\<not> ?aff d" for d
    using post that same_cache_trans [OF same_locked [of s c d], of s2] unfolding send_post_def e1 by simp
  have low: "st s2 q A = down ty (st s q A) \<and> nok s2 A q \<and> lok s2 q" if q: "blw A q c" "q \<noteq> c" for q
  proof (cases "?aff q")
    case True
    then show ?thesis using post unfolding send_post_def e1 by simp
  next
    case False
    have "nok s2 A q"
    proof (rule nok_frame [OF n [OF q(1)]])
      show "q \<in> caches" "same_cache tags s s2 q" using below_caches [OF q(1)] same [OF q(2) False] by auto
      show "same_cache tags s s2 d" if d: "d \<in> caches" "home cfg d A = CacheObj q" for d
        using same [of d] affected_up [OF c(3,1) shl q(2) d] False below_lvl_less [OF q] home_cache(5) [OF d]
        by (cases "d = c") auto
    qed
    moreover have "st s q A = I" using affected_or_invalid [OF n shl q] False by blast
    ultimately show ?thesis using same_cache_view [OF same [OF q(2) False]] pre q c(4)
      by (auto simp: inval_pre_def excl_def)
  qed
  have "entry_ok ?n (sent_entry ty ?e)" "\<not> en_isExclusive (sent_entry ty ?e)"
    using e by (auto simp: sent_entry_def entry_ok_def en_isExclusive_def)
  moreover have "same_cache tags s s2 q" if "q \<noteq> c" "\<not> blw A q c" for q
    using same [OF that(1)] affected_sub [OF c(3,1) shl] that(2) by blast
  ultimately show ?thesis using post low c(4) unfolding inval_mid_def send_post_def e1
    by (simp add: sent_entry_def)
qed

lemma not_excl_below:
  assumes "\<And>q. blw A q c \<Longrightarrow> nok s A q" "\<not> ex s c A" "blw A q c" "q \<noteq> c"
  shows "\<not> excl (st s q A)"
proof -
  obtain d where d: "d \<in> caches" "home cfg d A = CacheObj c" "blw A q d"
    using below_last [OF assms(3)] assms(4) by blast
  have "nok s A c" using assms(1) below_refl [OF home_cache(1) [OF d(1,2)]] by blast
  then have "\<not> excl (st s d A)" using nok_home(3) [OF _ d(1,2)] assms(2) by blast
  then show ?thesis using below_states(2) [OF d(3), of s] assms(1) below_child [OF d(1,2)] by blast
qed

lemma tcc_processInval_ok:
  assumes pre: "inval_pre A ty c s" and l: "line_of cfg tags s c A = Some l"
    and spec: "\<And>e. e \<in> caches \<Longrightarrow> home cfg e A = CacheObj c \<Longrightarrow> inval_spec ivl A ty e"
  shows "\<exists>mc wb1 s2. tcc_processInval ivl (cfg c) c A l ty wb cyc src (locked c s) = Some (mc, wb1, s2) \<and>
    cyc \<le> mc \<and> inval_mid A ty c l s s2 \<and> (wb1 \<longleftrightarrow> wb \<or> (\<exists>d. blw A d c \<and> d \<noteq> c \<and> st s d A = M))"
proof -
  let ?n = "length (cfg_children (cfg c))" and ?e = "tcc_entry c l s" and ?s1 = "locked c s"
  have c: "c \<in> caches" "lok s c" "nok s A c" "ty = INV \<or> ty = INVX"
    using pre below_refl [of c caches cfg A] by (auto simp: inval_pre_def)
  have n: "\<And>q. blw A q c \<Longrightarrow> nok s A q" using pre by (simp add: inval_pre_def)
  have shl: "sh s c A = en_sharers ?e" "ex s c A = en_isExclusive ?e" using l by (auto simp: line_sharer_def line_excl_def)
  have e: "entry_ok ?n ?e" using c(2) line_of_Some [OF l] by (simp add: lines_ok_def Let_def)
  have e1: "tcc_entry c l ?s1 = ?e" by simp
  have "\<exists>mc wb' s'. sendInvalidates ivl (cfg c) c A l ty wb cyc src ?s1 = Some (mc, wb', s') \<and> cyc \<le> mc \<and>
    (if ty = INVX \<and> \<not> en_isExclusive ?e then s' = ?s1 \<and> wb' = wb
     else send_post A ty c l {..<?n} (sent_entry ty ?e) ?s1 s' \<and>
       (wb' \<longleftrightarrow> wb \<or> (\<exists>d. affected A c ?e {..<?n} d \<and> st ?s1 d A = M)))"
    unfolding e1 [symmetric]
  proof (rule sendInvalidates_ok [OF c(1,4)], unfold e1)
    show "entry_ok ?n ?e" by (rule e)
    show "inval_spec ivl A ty (cfg_children (cfg c) ! i)"
      if "i < ?n" "home cfg (cfg_children (cfg c) ! i) A = CacheObj c" for i
      using spec that child_cache [OF c(1)] by blast
    show "home cfg (cfg_children (cfg c) ! i) A = CacheObj c \<and> inval_pre A ty (cfg_children (cfg c) ! i) ?s1"
      if i: "en_sharers ?e i" "ty = INVX \<longrightarrow> en_isExclusive ?e" for i
    proof -
      have "i < ?n" using e i(1) by (auto simp: entry_ok_def)
      moreover have "sh s c A i" using i(1) shl by simp
      ultimately show ?thesis
        using nok_sharer [OF c(3,1)] inval_pre_child [OF pre, of "cfg_children (cfg c) ! i"] i(2) shl(2) by auto
    qed
  qed
  then obtain mc wb1 s2 where r: "sendInvalidates ivl (cfg c) c A l ty wb cyc src ?s1 = Some (mc, wb1, s2)" "cyc \<le> mc"
    "if ty = INVX \<and> \<not> ex s c A then s2 = ?s1 \<and> wb1 = wb
     else send_post A ty c l {..<?n} (sent_entry ty ?e) ?s1 s2 \<and>
       (wb1 \<longleftrightarrow> wb \<or> (\<exists>d. affected A c ?e {..<?n} d \<and> st s d A = M))" using shl(2) by auto
  have t: "tcc_processInval ivl (cfg c) c A l ty wb cyc src ?s1 = Some (mc, wb1, s2)"
    using r(1) c(4) by (auto simp: tcc_processInval_def)
  show ?thesis
  proof (cases "ty = INVX \<and> \<not> ex s c A")
    case True
    then have nx: "\<not> excl (st s q A)" if "blw A q c" "q \<noteq> c" for q using not_excl_below [OF n] that by blast
    have "inval_mid A ty c l s ?s1" by (rule inval_mid_skip [OF pre l]) (use True nx in auto)
    moreover have "\<not> (\<exists>d. blw A d c \<and> d \<noteq> c \<and> st s d A = M)" using nx by (auto simp: excl_def)
    ultimately show ?thesis using t r(2,3) True by auto
  next
    case False
    then have post: "send_post A ty c l {..<?n} (sent_entry ty ?e) ?s1 s2"
      and wb: "wb1 \<longleftrightarrow> wb \<or> (\<exists>d. affected A c ?e {..<?n} d \<and> st s d A = M)" using r(3) by auto
    have "(\<exists>d. affected A c ?e {..<?n} d \<and> st s d A = M) \<longleftrightarrow> (\<exists>d. blw A d c \<and> d \<noteq> c \<and> st s d A = M)"
      using affected_sub [OF c(3,1) shl(1)] affected_or_invalid [OF n shl(1)] by (metis MESIState.distinct(5))
    then show ?thesis using t r(2) inval_mid_send [OF pre l post] wb by blast
  qed
qed

lemma set_array_same: "set_array c (cs_array (s_caches s c)) s = s"
  by (simp add: set_array_def upd_cache_def)

lemma peek_line:
  assumes "c \<in> caches" "ainv c (cs_array (s_caches s c))" "A \<noteq> 0" "line_of cfg tags s c A = Some l"
  shows "ca_lookup (cfg_ops (cfg c)) A rq False (cs_array (s_caches s c)) = Some (Some l, cs_array (s_caches s c))"
proof -
  note ca = arrays [OF assms(1)]
  obtain r where r: "ca_lookup (cfg_ops (cfg c)) A rq False (cs_array (s_caches s c)) = Some (r, cs_array (s_caches s c))"
    using cache_array.lookup_peek [OF ca assms(2,3)] by blast
  have "r = Some l" using cache_array.lookup_line [OF ca assms(2,3) r, of l] line_of_Some [OF assms(4)] by simp
  then show ?thesis using r by simp
qed

lemma bcc_processInval_ok:
  assumes "bcc_state c l s \<noteq> I" "ty = INV \<or> ty = INVX" "ty = INVX \<Longrightarrow> excl (bcc_state c l s)"
  shows "\<exists>f. bcc_processInval c l ty wb s =
    Some (wb \<or> bcc_state c l s = M, prof c f (set_bcc c l (down ty (bcc_state c l s)) s))"
  using assms by (auto simp: bcc_processInval_def Let_def excl_def)

lemma terminal_below:
  "cfg_terminal (cfg c) \<Longrightarrow> blw A q c \<Longrightarrow> q = c"
  using below_last home_cache(2) by blast

lemma terminal_mid:
  assumes pre: "inval_pre A ty c s" and l: "line_of cfg tags s c A = Some l" and t: "cfg_terminal (cfg c)"
  shows "inval_mid A ty c l s (locked c s)"
proof -
  have c: "c \<in> caches" "lok s c" using pre below_refl [of c caches cfg A] by (auto simp: inval_pre_def)
  have "entry_ok 0 (tcc_entry c l s)"
    using c(2) line_of_Some [OF l] no_children [OF c(1) t] by (simp add: lines_ok_def Let_def)
  then have "\<not> ex s c A" "sh s c A = (\<lambda>_. False)"
    using l by (auto simp: entry_ok_def line_excl_def line_sharer_def en_isExclusive_def fun_eq_iff)
  then show ?thesis using terminal_below [OF t] by (intro inval_mid_skip [OF pre l]) auto
qed

text \<open>An invalidation of a line that the cache has returns, with the specified effect.\<close>

lemma hier_invalidate_ok:
  assumes "c \<in> caches" "lvl c < fuel"
  shows "inval_spec (hier_invalidate cfg fuel) A ty c"
  using assms
proof (induction fuel arbitrary: c)
  case 0
  then show ?case by simp
next
  case (Suc fuel)
  show ?case unfolding inval_spec_def
  proof (intro allI impI)
    fix wb s cyc src assume pre: "inval_pre A ty c s"
    let ?req = "\<lparr>inv_lineAddr = A, inv_type = ty, inv_cycle = cyc, inv_srcId = src\<rparr>"
    have c: "A \<noteq> 0" "ty = INV \<or> ty = INVX" "st s c A \<noteq> I" "ty = INVX \<longrightarrow> excl (st s c A)"
      "ainv c (cs_array (s_caches s c))" "\<not> cs_bccLock (s_caches s c)"
      using pre below_refl [OF Suc.prems(1), of cfg A] by (auto simp: inval_pre_def)
    obtain l where l: "line_of cfg tags s c A = Some l" using c(3) by (cases "line_of cfg tags s c A") (auto simp: line_state_def)
    have x: "bcc_state c l s = st s c A" using l by (simp add: line_state_def)
    have spec: "\<And>e. e \<in> caches \<Longrightarrow> home cfg e A = CacheObj c \<Longrightarrow> inval_spec (hier_invalidate cfg fuel) A ty e"
      using Suc.IH Suc.prems(2) home_cache(5) by (metis Suc_less_eq less_trans_Suc)
    have wbs: "(\<exists>d. blw A d c \<and> st s d A = M) \<longleftrightarrow> st s c A = M \<or> (\<exists>d. blw A d c \<and> d \<noteq> c \<and> st s d A = M)"
      using below_refl [OF Suc.prems(1)] by metis
    obtain mc wb1 s2 where m: "cyc + cfg_invLat (cfg c) \<le> mc" "inval_mid A ty c l s s2"
      "wb1 \<longleftrightarrow> wb \<or> (\<exists>d. blw A d c \<and> d \<noteq> c \<and> st s d A = M)"
      "hier_invalidate cfg (Suc fuel) c ?req wb s =
        (bcc_processInval c l ty wb1 s2) \<bind> (\<lambda>(wb2, s3). Some (mc, wb2, futex_unlock (BccLock c) s3))"
    proof (cases "cfg_terminal (cfg c)")
      case True
      show ?thesis
        by (rule that [OF _ terminal_mid [OF pre l True], of _ wb])
          (use terminal_below [OF True] peek_line [OF Suc.prems(1) _ c(1), of "locked c s"] c(5,6) l True set_array_same [of c "locked c s"]
           in \<open>auto simp: cache_invalidate_def mesi_startInv_def cc_processInv_def term_processInv_def\<close>)
    next
      case False
      obtain mc wb1 s2 where t: "tcc_processInval (hier_invalidate cfg fuel) (cfg c) c A l ty wb
          (cyc + cfg_invLat (cfg c)) src (locked c s) = Some (mc, wb1, s2)"
        "cyc + cfg_invLat (cfg c) \<le> mc" "inval_mid A ty c l s s2"
        "wb1 \<longleftrightarrow> wb \<or> (\<exists>d. blw A d c \<and> d \<noteq> c \<and> st s d A = M)"
        using tcc_processInval_ok [OF pre l spec] by blast
      show ?thesis
        by (rule that [OF t(2-4)])
          (use t(1) peek_line [OF Suc.prems(1) _ c(1), of "locked c s"] c(5,6) l False set_array_same [of c "locked c s"]
           in \<open>auto simp: cache_invalidate_def mesi_startInv_def cc_processInv_def mesi_processInv_def\<close>)
    qed
    have b2: "bcc_state c l s2 = st s c A" using m(2) x by (simp add: inval_mid_def)
    then obtain f where f: "bcc_processInval c l ty wb1 s2 =
        Some (wb1 \<or> st s c A = M, prof c f (set_bcc c l (down ty (st s c A)) s2))"
      using bcc_processInval_ok [of c l s2 ty wb1] c(2-4) by auto
    show "\<exists>resp wb' s'. hier_invalidate cfg (Suc fuel) c ?req wb s = Some (resp, wb', s') \<and> cyc \<le> resp \<and>
        inval_post A ty c s s' \<and> (wb' \<longleftrightarrow> wb \<or> (\<exists>d. blw A d c \<and> st s d A = M))"
      using m(1,3,4) f inval_mid_finish [OF pre l m(2) refl, of f] wbs by auto
  qed
qed

end

end
