(* ===== verification/Hierarchy_Access.thy ===== *)
theory Hierarchy_Access
  imports Hierarchy_Inval
begin

text \<open>
  Accesses. \<open>coherent\<close> is the invariant of the whole hierarchy. The theory shows that an access of a
  cache or a core to its parent, in a state that satisfies the invariant, returns (no assertion of
  the controllers fails, no lock is taken twice), grants the permission asked for, keeps the
  invariant, and gives every lock back.
\<close>

lemma upd_rest [simp]:
  "cs_bccLock (s_caches (set_bcc c l x s) d) = cs_bccLock (s_caches s d)"
  "cs_tccLock (s_caches (set_bcc c l x s) d) = cs_tccLock (s_caches s d)"
  "cs_bccLock (s_caches (set_tcc c l e s) d) = cs_bccLock (s_caches s d)"
  "cs_tccLock (s_caches (set_tcc c l e s) d) = cs_tccLock (s_caches s d)"
  "cs_bccLock (s_caches (prof c f s) d) = cs_bccLock (s_caches s d)"
  "cs_tccLock (s_caches (prof c f s) d) = cs_tccLock (s_caches s d)"
  "cs_bccLock (s_caches (set_array c a s) d) = cs_bccLock (s_caches s d)"
  "cs_tccLock (s_caches (set_array c a s) d) = cs_tccLock (s_caches s d)"
  "s_mems (set_bcc c l x s) = s_mems s" "s_mems (set_tcc c l e s) = s_mems s"
  "s_mems (prof c f s) = s_mems s" "s_mems (set_array c a s) = s_mems s"
  "s_heap (set_bcc c l x s) = s_heap s" "s_heap (set_tcc c l e s) = s_heap s"
  "s_heap (prof c f s) = s_heap s" "s_heap (set_array c a s) = s_heap s"
  "s_evRecs (set_bcc c l x s) = s_evRecs s" "s_evRecs (set_tcc c l e s) = s_evRecs s"
  "s_evRecs (prof c f s) = s_evRecs s" "s_evRecs (set_array c a s) = s_evRecs s"
  "s_out (set_bcc c l x s) = s_out s" "s_out (set_tcc c l e s) = s_out s"
  "s_out (prof c f s) = s_out s" "s_out (set_array c a s) = s_out s"
  "s_outLocks (set_bcc c l x s) = s_outLocks s" "s_outLocks (set_tcc c l e s) = s_outLocks s"
  "s_outLocks (prof c f s) = s_outLocks s" "s_outLocks (set_array c a s) = s_outLocks s"
  by (simp_all add: upd_defs)

section \<open>The invariant and the contract of an access\<close>

definition coherent ::
  "(nat \<Rightarrow> 'a cache_cfg) \<Rightarrow> nat set \<Rightarrow> ('a \<Rightarrow> nat \<Rightarrow> Address) \<Rightarrow> ('a, 'm) sys \<Rightarrow> bool" where
  "coherent cfg caches tags s \<longleftrightarrow>
     (\<forall>q\<in>caches. lines_ok cfg tags s q \<and> (\<forall>A. A \<noteq> 0 \<longrightarrow> node_ok cfg tags s A q))"

fun granted :: "AccessType \<Rightarrow> MESIState \<Rightarrow> bool" where
  "granted GETS x \<longleftrightarrow> x = S \<or> x = E"
| "granted GETX x \<longleftrightarrow> x = M"
| "granted PUTS x \<longleftrightarrow> x = I"
| "granted PUTX x \<longleftrightarrow> x = I"

fun may_ask :: "AccessType \<Rightarrow> MESIState \<Rightarrow> bool" where
  "may_ask GETS x \<longleftrightarrow> x = I"
| "may_ask GETX x \<longleftrightarrow> x = I \<or> x = S"
| "may_ask PUTS x \<longleftrightarrow> x = S \<or> x = E"
| "may_ask PUTX x \<longleftrightarrow> x = M"

context hierarchy
begin

abbreviation coh :: "('a, 'm) sys \<Rightarrow> bool" where "coh \<equiv> coherent cfg caches tags"

abbreviation arr :: "('a, 'm) sys \<Rightarrow> nat \<Rightarrow> 'a" where "arr s q \<equiv> cs_array (s_caches s q)"

fun olvl :: "mem_object \<Rightarrow> nat" where
  "olvl (CacheObj p) = lvl p"
| "olvl (MemObj k) = depth"

text \<open>What an operation on behalf of cache \<open>p\<close> and source \<open>src\<close> keeps of the surroundings.\<close>

definition keeps :: "nat \<Rightarrow> nat \<Rightarrow> ('a, 'm) sys \<Rightarrow> ('a, 'm) sys \<Rightarrow> bool" where
  "keeps src p s s' \<longleftrightarrow>
     (\<forall>q. cs_bccLock (s_caches s' q) = cs_bccLock (s_caches s q) \<and>
          cs_tccLock (s_caches s' q) = cs_tccLock (s_caches s q)) \<and>
     (\<forall>q\<in>caches. q \<noteq> p \<longrightarrow> lvl q \<le> lvl p \<longrightarrow> arr s' q = arr s q) \<and>
     (\<forall>q\<in>caches. lvl p < lvl q \<longrightarrow> ainv q (arr s q) \<longrightarrow> ainv q (arr s' q)) \<and>
     ((\<forall>m. minv m (s_mems s m)) \<longrightarrow> (\<forall>m. minv m (s_mems s' m))) \<and>
     s_out s' = s_out s \<and> s_outLocks s' = s_outLocks s \<and>
     (\<forall>x. x \<noteq> src \<longrightarrow> s_evRecs s' x = s_evRecs s x) \<and>
     (s_evRecs s' src = None \<longleftrightarrow> s_evRecs s src = None) \<and>
     (heap_ok (s_heap s) \<longrightarrow> heap_le (s_heap s) (s_heap s'))"

text \<open>Cache \<open>p\<close> holds its lock and no other cache does; the caches above are at rest.\<close>

definition busy :: "nat \<Rightarrow> ('a, 'm) sys \<Rightarrow> bool" where
  "busy p s \<longleftrightarrow> coh s \<and> (\<forall>m. minv m (s_mems s m)) \<and> heap_ok (s_heap s) \<and> cs_bccLock (s_caches s p) \<and>
     (\<forall>q\<in>caches. q \<noteq> p \<longrightarrow> \<not> cs_bccLock (s_caches s q) \<and>
        (lvl p \<le> lvl q \<longrightarrow> ainv q (arr s q) \<and> \<not> cs_tccLock (s_caches s q)))"

definition low_inv :: "nat \<Rightarrow> ('a, 'm) sys \<Rightarrow> bool" where
  "low_inv k s \<longleftrightarrow> (\<forall>q\<in>caches. lvl q < k \<longrightarrow> ainv q (arr s q))"

definition acc_pre :: "mem_object \<Rightarrow> nat \<Rightarrow> nat \<Rightarrow> MemReq \<Rightarrow> ('a, 'm) sys \<Rightarrow> bool" where
  "acc_pre ob c l req s \<longleftrightarrow> c \<in> caches \<and> busy c s \<and> home cfg c (req_lineAddr req) = ob \<and>
     line_of cfg tags s c (req_lineAddr req) = Some l \<and> req_lineAddr req \<noteq> 0 \<and>
     req_state req = Slot c l \<and> req_childLock req = Some (BccLock c) \<and>
     req_childId req = cfg_selfId (cfg c) \<and> req_initialState req = bcc_state c l s \<and>
     \<not> has_flag (req_flags req) PREFETCH \<and> may_ask (req_type req) (bcc_state c l s) \<and>
     (IsPut (req_type req) \<longrightarrow> \<not> has_flag (req_flags req) PUTX_KEEPEXCL \<and>
        (\<forall>d. blw (req_lineAddr req) d c \<longrightarrow> d \<noteq> c \<longrightarrow> st s d (req_lineAddr req) = I)) \<and>
     (IsGet (req_type req) \<longrightarrow> low_inv (olvl ob) s) \<and>
     rec_none (s_evRecs s (req_srcId req))"

definition acc_post :: "nat \<Rightarrow> MemReq \<Rightarrow> ('a, 'm) sys \<Rightarrow> nat \<Rightarrow> ('a, 'm) sys \<Rightarrow> bool" where
  "acc_post c req s resp s' \<longleftrightarrow> req_cycle req \<le> resp \<and> coh s' \<and> keeps (req_srcId req) c s s' \<and>
     arr s' c = arr s c \<and> granted (req_type req) (st s' c (req_lineAddr req)) \<and>
     rec_ok (req_cycle req) (s_heap s') (s_evRecs s' (req_srcId req)) \<and>
     (IsGet (req_type req) \<longrightarrow>
        (\<forall>d. blw (req_lineAddr req) d c \<longrightarrow> d \<noteq> c \<longrightarrow> st s' d (req_lineAddr req) = st s d (req_lineAddr req))) \<and>
     (IsPut (req_type req) \<longrightarrow>
        (\<forall>d B. B \<noteq> 0 \<longrightarrow> B \<noteq> req_lineAddr req \<longrightarrow> st s' d B = st s d B))"

definition acc_spec :: "('a, 'm) acc_fun \<Rightarrow> mem_object \<Rightarrow> bool" where
  "acc_spec acc ob \<longleftrightarrow> (\<forall>c l req s. acc_pre ob c l req s \<longrightarrow>
     (\<exists>resp s'. acc ob req s = Some (resp, s') \<and> acc_post c req s resp s'))"

lemma keeps_refl [simp]: "keeps src p s s"
  by (simp add: keeps_def)

lemma keeps_trans: "keeps src p s s' \<Longrightarrow> keeps src p s' s'' \<Longrightarrow> keeps src p s s''"
  unfolding keeps_def by (auto simp: heap_le_def)

lemma frame_keeps: "frame s s' \<Longrightarrow> keeps src p s s'"
  by (simp add: frame_def keeps_def)

lemma keeps_busy: "busy p s \<Longrightarrow> keeps src p s s' \<Longrightarrow> coh s' \<Longrightarrow> busy p s'"
  unfolding busy_def keeps_def by (auto simp: heap_le_def le_less)

lemma keeps_low: "low_inv (lvl p) s \<Longrightarrow> keeps src p s s' \<Longrightarrow> low_inv (lvl p) s'"
  by (auto simp: low_inv_def keeps_def)

lemma rec_ok_mono: "rec_ok cyc h er \<Longrightarrow> cyc' \<le> cyc \<Longrightarrow> heap_le h h' \<Longrightarrow> rec_ok cyc' h' er"
  by (auto simp: rec_ok_def heap_le_def split: option.splits)

lemma home_lvl: "c \<in> caches \<Longrightarrow> lvl c < olvl (home cfg c A)"
  using home_cache(5) [of c A] levels [of c] by (cases "home cfg c A") auto

section \<open>Requests to the parent\<close>

lemma parent_access:
  assumes "acc_spec acc (home cfg p A)" "p \<in> caches" "busy p s" "line_of cfg tags s p A = Some l" "A \<noteq> 0"
    and "\<not> has_flag flags PREFETCH" "may_ask ty (st s p A)"
    and "IsPut ty \<Longrightarrow> \<not> has_flag flags PUTX_KEEPEXCL \<and> (\<forall>d. blw A d p \<longrightarrow> d \<noteq> p \<longrightarrow> st s d A = I)"
    and "IsGet ty \<Longrightarrow> low_inv (lvl p) s \<and> ainv p (arr s p)" "rec_none (s_evRecs s src)"
  shows "\<exists>resp s'. acc (cfg_parents (cfg p) ! getParentId (cfg p) A) (bcc_req (cfg p) p A ty l cyc src flags s) s =
      Some (resp, s') \<and> cyc \<le> resp \<and> busy p s' \<and> keeps src p s s' \<and> arr s' p = arr s p \<and>
    granted ty (st s' p A) \<and> rec_ok cyc (s_heap s') (s_evRecs s' src) \<and>
    (IsGet ty \<longrightarrow> (\<forall>d. blw A d p \<longrightarrow> d \<noteq> p \<longrightarrow> st s' d A = st s d A)) \<and>
    (IsPut ty \<longrightarrow> (\<forall>d B. B \<noteq> 0 \<longrightarrow> B \<noteq> A \<longrightarrow> st s' d B = st s d B))"
proof -
  have x: "bcc_state p l s = st s p A" using assms(4) by (simp add: line_state_def)
  have "low_inv (olvl (home cfg p A)) s" if "IsGet ty"
    unfolding low_inv_def
  proof (intro ballI impI)
    fix q assume q: "q \<in> caches" "lvl q < olvl (home cfg p A)"
    show "ainv q (arr s q)"
    proof (cases "q = p \<or> lvl q < lvl p")
      case True
      then show ?thesis using assms(9) [OF that] q by (auto simp: low_inv_def)
    next
      case False
      then show ?thesis using assms(3) q by (auto simp: busy_def)
    qed
  qed
  then have "acc_pre (home cfg p A) p l (bcc_req (cfg p) p A ty l cyc src flags s) s"
    using assms x by (auto simp: acc_pre_def bcc_req_def)
  then obtain resp s' where r: "acc (home cfg p A) (bcc_req (cfg p) p A ty l cyc src flags s) s = Some (resp, s')"
    "acc_post p (bcc_req (cfg p) p A ty l cyc src flags s) s resp s'"
    using assms(1) unfolding acc_spec_def by blast
  moreover have "busy p s'" using r(2) keeps_busy [OF assms(3)] by (auto simp: acc_post_def)
  ultimately show ?thesis by (auto simp: acc_post_def bcc_req_def home_def)
qed

section \<open>Invalidations sent by an access\<close>

lemma coh_lok: "coh s \<Longrightarrow> q \<in> caches \<Longrightarrow> lok s q"
  by (simp add: coherent_def)

lemma coh_nok: "coh s \<Longrightarrow> q \<in> caches \<Longrightarrow> A \<noteq> 0 \<Longrightarrow> nok s A q"
  by (simp add: coherent_def)

lemma nok_same_view:
  assumes "nok s A q" "\<And>d. st s' d A = st s d A" "sh s' q A = sh s q A" "ex s' q A = ex s q A"
  shows "nok s' A q"
  using assms by (simp add: node_ok_def edge_ok_def)

lemma nokI:
  assumes "p \<in> caches"
    and "\<And>i. i < length (cfg_children (cfg p)) \<Longrightarrow> home cfg (cfg_children (cfg p) ! i) A \<noteq> CacheObj p \<Longrightarrow> \<not> sh s p A i"
    and "\<And>d. d \<in> caches \<Longrightarrow> home cfg d A = CacheObj p \<Longrightarrow>
      (sh s p A (cfg_selfId (cfg d)) \<longleftrightarrow> st s d A \<noteq> I) \<and> (st s d A \<noteq> I \<longrightarrow> st s p A \<noteq> I) \<and>
      (excl (st s d A) \<longrightarrow> ex s p A \<and> excl (st s p A)) \<and> (ex s p A \<and> st s d A \<noteq> I \<longrightarrow> excl (st s d A))"
  shows "nok s A p"
  unfolding node_ok_def edge_ok_def Let_def
proof (intro allI impI)
  fix i assume i: "i < length (cfg_children (cfg p))"
  let ?c = "cfg_children (cfg p) ! i"
  have c: "?c \<in> caches" "cfg_selfId (cfg ?c) = i" using child_cache [OF assms(1) i] by auto
  show "(sh s p A i \<longleftrightarrow> home cfg ?c A = CacheObj p \<and> st s ?c A \<noteq> I) \<and>
      (home cfg ?c A = CacheObj p \<and> st s ?c A \<noteq> I \<longrightarrow> st s p A \<noteq> I) \<and>
      (home cfg ?c A = CacheObj p \<and> excl (st s ?c A) \<longrightarrow> ex s p A \<and> excl (st s p A)) \<and>
      (ex s p A \<and> sh s p A i \<longrightarrow> excl (st s ?c A))"
    using assms(2) [OF i] assms(3) [OF c(1)] c(2) by (cases "home cfg ?c A = CacheObj p") auto
qed

lemma nok_other:
  "nok s A p \<Longrightarrow> i < length (cfg_children (cfg p)) \<Longrightarrow> home cfg (cfg_children (cfg p) ! i) A \<noteq> CacheObj p \<Longrightarrow>
   \<not> sh s p A i"
  by (auto simp: node_ok_def edge_ok_def Let_def)

lemma child_below: "p \<in> caches \<Longrightarrow> d \<in> caches \<Longrightarrow> home cfg d A = CacheObj p \<Longrightarrow> blw A d p \<and> d \<noteq> p"
  using below_step [OF _ _ below_refl] home_cache(5) by blast

lemma busy_inval_pre:
  assumes "busy p s" "low_inv (lvl p) s" "e \<in> caches" "home cfg e A = CacheObj p" "A \<noteq> 0"
    and "st s e A \<noteq> I" "ty = INV \<or> ty = INVX" "ty = INVX \<Longrightarrow> excl (st s e A)"
    and nok: "\<And>q. blw A q e \<Longrightarrow> nok s A q"
  shows "inval_pre A ty e s"
proof -
  have "ainv q (arr s q) \<and> lok s q \<and> \<not> cs_bccLock (s_caches s q)" if q: "blw A q e" for q
  proof -
    have "q \<in> caches" "lvl q < lvl p" "q \<noteq> p"
      using below_caches [OF q] below_lvl [OF q] home_cache(5) [OF assms(3,4)] by auto
    then show ?thesis using assms(1,2) by (auto simp: busy_def low_inv_def coherent_def)
  qed
  then show ?thesis using assms by (simp add: inval_pre_def)
qed

text \<open>
  The state after line \<open>l\<close> of \<open>p\<close>, with tag \<open>A\<close>, has sent invalidations: only the invariant between
  \<open>p\<close> and its children for \<open>A\<close> has to be shown anew.
\<close>

lemma send_rest:
  assumes p: "p \<in> caches" and l: "line_of cfg tags s p A = Some l" "A \<noteq> 0"
    and lok: "\<And>q. q \<in> caches \<Longrightarrow> lok s q"
    and nok: "\<And>q B. q \<in> caches \<Longrightarrow> B \<noteq> 0 \<Longrightarrow> q \<noteq> p \<or> B \<noteq> A \<Longrightarrow> nok s B q"
    and kids: "\<And>i. i < length (cfg_children (cfg p)) \<Longrightarrow> en_sharers (tcc_entry p l s) i \<Longrightarrow>
      home cfg (cfg_children (cfg p) ! i) A = CacheObj p"
    and post: "send_post A ty p l {..<length (cfg_children (cfg p))} e' s s'"
    and e': "entry_ok (length (cfg_children (cfg p))) e'"
  shows "\<And>q. q \<in> caches \<Longrightarrow> lok s' q"
    and "\<And>q B. q \<in> caches \<Longrightarrow> B \<noteq> 0 \<Longrightarrow> q \<noteq> p \<or> B \<noteq> A \<Longrightarrow> nok s' B q"
    and "\<And>d B. B \<noteq> 0 \<Longrightarrow> st s' d B =
      (if B = A \<and> affected A p (tcc_entry p l s) {..<length (cfg_children (cfg p))} d then down ty (st s d A)
       else st s d B)"
    and "sh s' p A = en_sharers e'" "ex s' p A = en_isExclusive e'" "line_of cfg tags s' p A = Some l"
proof -
  let ?n = "length (cfg_children (cfg p))" and ?e = "tcc_entry p l s"
  let ?aff = "affected A p ?e {..<?n}"
  have fr: "frame s s'" using post by (simp add: send_post_def)
  have lo: "line_of cfg tags s' q B = line_of cfg tags s q B" for q B using frame_line_of [OF fr] .
  show l': "line_of cfg tags s' p A = Some l" using lo l by simp
  have np: "\<not> ?aff p" using kids child_cache [OF p] by (intro not_affected_self) auto
  have same: "same_cache tags s s' q" if "q \<noteq> p" "\<not> ?aff q" for q using post that by (simp add: send_post_def)
  have pst: "st s' p B = st s p B" for B using post lo by (auto simp: line_state_def send_post_def split: option.splits)
  have psh: "sh s' p B = sh s p B" "ex s' p B = ex s p B" if "B \<noteq> A" for B
    using post lo that line_of_other [OF l(1), of B] unfolding line_sharer_def line_excl_def fun_eq_iff send_post_def
    by (auto split: option.splits)
  show "sh s' p A = en_sharers e'" "ex s' p A = en_isExclusive e'"
    using post l' by (auto simp: line_sharer_def line_excl_def send_post_def fun_eq_iff)
  show stt: "st s' d B = (if B = A \<and> ?aff d then down ty (st s d A) else st s d B)" if "B \<noteq> 0" for d B
  proof (cases "d = p \<or> (\<not> ?aff d)")
    case True
    then show ?thesis using pst np same_cache_view(2) [OF same, of d cfg] by (cases "d = p") auto
  next
    case False
    then show ?thesis using post that by (auto simp: send_post_def)
  qed
  show "lok s' q" if "q \<in> caches" for q
  proof (cases "q = p")
    case True
    have "tags (arr s' p) = tags (arr s p)" using fr by (simp add: frame_def)
    then show ?thesis using True lok [OF p] post e' line_of_Some [OF l(1)] l(2)
      unfolding lines_ok_def Let_def send_post_def by metis
  next
    case False
    then show ?thesis using post lok [OF that] same_cache_view(5) [OF same [OF False], of cfg]
      by (cases "?aff q") (auto simp: send_post_def)
  qed
  show "nok s' B q" if q: "q \<in> caches" "B \<noteq> 0" "q \<noteq> p \<or> B \<noteq> A" for q B
  proof (cases "B = A")
    case False
    have "sh s' q B = sh s q B \<and> ex s' q B = ex s q B"
      using False psh post q(2) by (cases "q = p") (auto simp: send_post_def)
    then show ?thesis using stt [OF q(2)] False by (intro nok_same_view [OF nok [OF q]]) auto
  next
    case True
    then have qp: "q \<noteq> p" using q(3) by simp
    show ?thesis
    proof (cases "?aff q")
      case True
      then show ?thesis using post \<open>B = A\<close> by (simp add: send_post_def)
    next
      case False
      have "st s' e A = st s e A" if e: "e \<in> caches" "home cfg e A = CacheObj q" for e
      proof -
        have "\<not> ?aff e" using False below_first kids qp e(2) unfolding affected_def
          by (metis lessThan_iff mem_object.inject(1))
        then show ?thesis using stt [OF l(2)] by simp
      qed
      moreover have "st s' q A = st s q A" "sh s' q A = sh s q A" "ex s' q A = ex s q A"
        using same_cache_view [OF same [OF qp False], of cfg] by simp_all
      ultimately show ?thesis using node_ok_cong [OF nok [OF q] q(1), of s'] \<open>B = A\<close> by simp
    qed
  qed
qed

text \<open>Entries: what the controllers do to the list of sharers.\<close>

lemma entry_ok_sent [simp]: "entry_ok n e \<Longrightarrow> entry_ok n (sent_entry ty e)"
  by (auto simp: sent_entry_def entry_ok_def)

lemma sent_entry_fields [simp]:
  "\<not> en_isExclusive (sent_entry ty e)" "en_sharers (sent_entry INV e) = (\<lambda>_. False)"
  "en_sharers (sent_entry INVX e) = en_sharers e" "en_numSharers (sent_entry INV e) = 0"
  "en_exclusive (sent_entry INVX e) = False" "en_numSharers (sent_entry INVX e) = en_numSharers e"
  by (auto simp: sent_entry_def en_isExclusive_def)

lemma coh_entry:
  assumes "coh s" "p \<in> caches" "line_of cfg tags s p A = Some l"
  shows "entry_ok (length (cfg_children (cfg p))) (tcc_entry p l s)"
    "sh s p A = en_sharers (tcc_entry p l s)" "ex s p A = en_isExclusive (tcc_entry p l s)"
    "st s p A = bcc_state p l s"
  using coh_lok [OF assms(1,2)] line_of_Some [OF assms(3)] assms(3)
  by (auto simp: lines_ok_def Let_def line_sharer_def line_excl_def line_state_def fun_eq_iff)

lemma coh_sharer:
  assumes "coh s" "p \<in> caches" "line_of cfg tags s p A = Some l" "A \<noteq> 0" "en_sharers (tcc_entry p l s) i"
  shows "i < length (cfg_children (cfg p))" "home cfg (cfg_children (cfg p) ! i) A = CacheObj p"
    "cfg_children (cfg p) ! i \<in> caches" "cfg_selfId (cfg (cfg_children (cfg p) ! i)) = i"
    "st s (cfg_children (cfg p) ! i) A \<noteq> I"
proof -
  note e = coh_entry [OF assms(1-3)]
  show i: "i < length (cfg_children (cfg p))" using e(1) assms(5) by (auto simp: entry_ok_def)
  have n: "nok s A p" using coh_nok assms by blast
  have "sh s p A i" using e(2) assms(5) by simp
  note k = nok_sharer [OF n assms(2) i this]
  show "home cfg (cfg_children (cfg p) ! i) A = CacheObj p" "cfg_children (cfg p) ! i \<in> caches"
    "cfg_selfId (cfg (cfg_children (cfg p) ! i)) = i" by (rule k)+
  show "st s (cfg_children (cfg p) ! i) A \<noteq> I" using nok_home(1) [OF n k(2,1)] k(3) e(2) assms(5) by simp
qed

section \<open>Evictions\<close>

lemma send_evict_ok:
  assumes p: "p \<in> caches" and b: "busy p s" "low_inv (lvl p) s" and l: "line_of cfg tags s p A = Some l" "A \<noteq> 0"
    and D: "depth \<le> D"
  shows "\<exists>mc wb s'. sendInvalidates (hier_invalidate cfg D) (cfg p) p A l INV False cyc src s = Some (mc, wb, s') \<and>
    cyc \<le> mc \<and> frame s s' \<and> coh s' \<and> (wb \<longrightarrow> excl (st s p A)) \<and>
    (\<forall>d B. B \<noteq> 0 \<longrightarrow> B \<noteq> A \<longrightarrow> st s' d B = st s d B) \<and> st s' p A = st s p A \<and>
    (\<forall>d. blw A d p \<longrightarrow> d \<noteq> p \<longrightarrow> st s' d A = I)"
proof -
  let ?n = "length (cfg_children (cfg p))" and ?e = "tcc_entry p l s"
  let ?aff = "affected A p ?e {..<?n}"
  have c: "coh s" using b(1) by (simp add: busy_def)
  note e = coh_entry [OF c p l(1)] and k = coh_sharer [OF c p l]
  have n: "nok s A p" using coh_nok [OF c p l(2)] .
  have nb: "\<And>q. blw A q p \<Longrightarrow> nok s A q" using coh_nok [OF c _ l(2)] below_caches by blast
  have "\<exists>mc wb s'. sendInvalidates (hier_invalidate cfg D) (cfg p) p A l INV False cyc src s = Some (mc, wb, s') \<and>
    cyc \<le> mc \<and> (if INV = INVX \<and> \<not> en_isExclusive ?e then s' = s \<and> wb = False
     else send_post A INV p l {..<?n} (sent_entry INV ?e) s s' \<and> (wb \<longleftrightarrow> False \<or> (\<exists>d. ?aff d \<and> st s d A = M)))"
  proof (rule sendInvalidates_ok [OF p _ e(1)])
    show "inval_spec (hier_invalidate cfg D) A INV (cfg_children (cfg p) ! i)" if "i < ?n" for i
      using child_cache [OF p that] levels D by (intro hier_invalidate_ok) (auto intro: less_le_trans)
    show "home cfg (cfg_children (cfg p) ! i) A = CacheObj p \<and> inval_pre A INV (cfg_children (cfg p) ! i) s"
      if "en_sharers ?e i" for i
      using k [OF that] busy_inval_pre [OF b, of "cfg_children (cfg p) ! i" A INV] l(2) nb below_child by auto
  qed simp
  then obtain mc wb s' where r: "sendInvalidates (hier_invalidate cfg D) (cfg p) p A l INV False cyc src s = Some (mc, wb, s')"
    "cyc \<le> mc" "send_post A INV p l {..<?n} (sent_entry INV ?e) s s'" "wb \<longleftrightarrow> (\<exists>d. ?aff d \<and> st s d A = M)" by auto
  note R = send_rest [OF p l coh_lok [OF c] coh_nok [OF c] k(2) r(3) entry_ok_sent [OF e(1)], simplified]
  have low: "st s' d A = I" if "blw A d p" "d \<noteq> p" for d
    using R(3) [OF l(2), of d] affected_or_invalid [OF nb e(2) that] by auto
  have "nok s' A p"
    using low child_below [OF p] by (intro nokI [OF p]) (auto simp: R(4,5) excl_def)
  then have "coh s'" using R(1,2) unfolding coherent_def by metis
  moreover have "wb \<longrightarrow> excl (st s p A)"
    using r(4) affected_sub [OF n p e(2)] below_states(2) [OF _ nb] by (metis excl_def)
  moreover have "\<not> ?aff p" using affected_sub [OF n p e(2), of p] by blast
  ultimately show ?thesis using r(1-3) R(3) low l(2) by (auto simp: send_post_def)
qed

text \<open>A silent transition between the exclusive states.\<close>

lemma coh_upgrade:
  assumes "coh s" "p \<in> caches" "line_of cfg tags s p A = Some l" "A \<noteq> 0" "excl (st s p A)" "excl x"
  shows "coh (set_bcc p l x s)"
proof -
  let ?s = "set_bcc p l x s"
  have eq: "st ?s d B = (if d = p \<and> B = A then x else st s d B)" for d B using set_bcc_state [OF assms(3)] .
  have "nok ?s B q" if "nok s B q" for q B
    using that assms(5,6) unfolding node_ok_def edge_ok_def Let_def by (auto simp: eq excl_def)
  then show ?thesis using assms(1) set_bcc_lines_ok [OF assms(3,4)] by (auto simp: coherent_def)
qed

lemma keeps_set_bcc: "keeps src p s (set_bcc c l x s)" "keeps src p s (prof c f s)" "keeps src p s (set_tcc c l e s)"
  by (rule frame_keeps, simp)+

lemma bcc_evict_ok:
  assumes acc: "acc_spec acc (home cfg p A)" and p: "p \<in> caches" and b: "busy p s"
    and l: "line_of cfg tags s p A = Some l" "A \<noteq> 0" and rec: "rec_none (s_evRecs s src)"
    and low: "\<And>d. blw A d p \<Longrightarrow> d \<noteq> p \<Longrightarrow> st s d A = I" and wb: "wb \<Longrightarrow> excl (st s p A)"
  shows "\<exists>resp s'. bcc_processEviction acc (cfg p) p A l wb cyc src s = Some (resp, s') \<and> busy p s' \<and>
    keeps src p s s' \<and> arr s' p = arr s p \<and> bcc_state p l s' = I \<and> st s' p A = I \<and>
    rec_ok cyc (s_heap s') (s_evRecs s' src) \<and> (\<forall>d B. B \<noteq> 0 \<longrightarrow> B \<noteq> A \<longrightarrow> st s' d B = st s d B)"
proof -
  define s1 where "s1 = (if wb then set_bcc p l M s else s)"
  have x: "bcc_state p l s = st s p A" using l by (simp add: line_state_def)
  have c: "coh s1" using b coh_upgrade [OF _ p l, of M] wb unfolding s1_def by (auto simp: busy_def excl_def)
  have "frame s s1" by (simp add: s1_def)
  then have k: "keeps src p s s1" "arr s1 p = arr s p" "s_evRecs s1 = s_evRecs s" "s_heap s1 = s_heap s"
    using frame_keeps by (auto simp: frame_def)
  have b1: "busy p s1" using keeps_busy [OF b k(1) c] .
  have l1: "line_of cfg tags s1 p A = Some l" using l by (simp add: s1_def)
  have st1: "st s1 d B = (if wb \<and> d = p \<and> B = A then M else st s d B)" for d B
    using set_bcc_state [OF l(1)] by (simp add: s1_def)
  have x1: "bcc_state p l s1 = st s1 p A" using l1 by (simp add: line_state_def)
  have start: "bcc_processEviction acc (cfg p) p A l wb cyc src s =
      (case st s1 p A of I \<Rightarrow> Some (cyc, s1)
       | M \<Rightarrow> acc (cfg_parents (cfg p) ! getParentId (cfg p) A) (bcc_req (cfg p) p A PUTX l cyc src 0 s1) s1
       | _ \<Rightarrow> acc (cfg_parents (cfg p) ! getParentId (cfg p) A) (bcc_req (cfg p) p A PUTS l cyc src 0 s1) s1)
      \<bind> (\<lambda>(respCycle, s2). assert_that (bcc_state p l s2 = I) \<bind> (\<lambda>_. Some (respCycle, s2)))"
  proof -
    have "(if wb then assert_that (bcc_state p l s = M \<or> bcc_state p l s = E) \<bind> (\<lambda>_. Some (set_bcc p l M s))
        else Some s) = Some s1" using wb x by (auto simp: s1_def excl_def)
    then show ?thesis unfolding bcc_processEviction_def by (simp add: x1)
  qed
  show ?thesis
  proof (cases "st s1 p A = I")
    case True
    then show ?thesis using start b1 k x1 st1 rec by auto
  next
    case False
    define ty where "ty = (if st s1 p A = M then PUTX else PUTS)"
    have ty: "may_ask ty (st s1 p A)" "IsPut ty" "\<not> IsGet ty" using False by (cases "st s1 p A"; simp add: ty_def)+
    obtain resp s2 where r: "acc (cfg_parents (cfg p) ! getParentId (cfg p) A) (bcc_req (cfg p) p A ty l cyc src 0 s1) s1 =
        Some (resp, s2)" "busy p s2" "keeps src p s1 s2" "arr s2 p = arr s1 p" "granted ty (st s2 p A)"
      "rec_ok cyc (s_heap s2) (s_evRecs s2 src)" "\<forall>d B. B \<noteq> 0 \<longrightarrow> B \<noteq> A \<longrightarrow> st s2 d B = st s1 d B"
      using parent_access [OF acc p b1 l1 l(2) _ ty(1), of 0 src cyc] ty low st1 rec k(3) by auto
    have "line_of cfg tags s2 p A = Some l" using r(4) l1 by (simp add: line_of_def)
    moreover have "st s2 p A = I" using r(5) by (simp add: ty_def split: if_splits)
    ultimately have "bcc_state p l s2 = I" by (simp add: line_state_def)
    then show ?thesis using start r k st1 \<open>st s2 p A = I\<close> False keeps_trans [OF k(1) r(3)]
      by (cases "st s1 p A") (auto simp: ty_def)
  qed
qed

lemma evict_ok:
  assumes acc: "\<And>A. acc_spec acc (home cfg p A)" and p: "p \<in> caches" and b: "busy p s" "low_inv (lvl p) s"
    and D: "depth \<le> D" and l: "l < cfg_numLines (cfg p)" and rec: "rec_none (s_evRecs s (req_srcId req))"
  shows "\<exists>resp s'. cc_processEviction acc (hier_invalidate cfg D) (cfg p) p req (tags (arr s p) l) l cyc s = Some (resp, s') \<and>
    busy p s' \<and> keeps (req_srcId req) p s s' \<and> arr s' p = arr s p \<and> bcc_state p l s' = I \<and>
    rec_ok cyc (s_heap s') (s_evRecs s' (req_srcId req)) \<and>
    (\<forall>d B. B \<noteq> 0 \<longrightarrow> B \<noteq> tags (arr s p) l \<longrightarrow> st s' d B = st s d B)"
proof -
  let ?V = "tags (arr s p) l"
  have c: "coh s" using b by (simp add: busy_def)
  note inc = inclusive [OF p]
  show ?thesis
  proof (cases "?V = 0")
    case True
    then have "bcc_state p l s = I" "en_numSharers (tcc_entry p l s) = 0"
      using coh_lok [OF c p] l by (auto simp: lines_ok_def Let_def)
    then show ?thesis using b rec inc
      by (auto simp: cc_processEviction_def term_processEviction_def mesi_processEviction_def tcc_processEviction_def
          sendInvalidates_def en_isEmpty_def bcc_processEviction_def Let_def)
  next
    case False
    then have lo: "line_of cfg tags s p ?V = Some l" using line_of_iff [OF coh_lok [OF c p]] l by simp
    show ?thesis
    proof (cases "cfg_terminal (cfg p)")
      case True
      then show ?thesis using bcc_evict_ok [OF acc p b(1) lo False rec _ , of False cyc] terminal_below [OF True]
        by (auto simp: cc_processEviction_def term_processEviction_def)
    next
      case nt: False
      obtain mc wb s1 where r: "sendInvalidates (hier_invalidate cfg D) (cfg p) p ?V l INV False cyc (req_srcId req) s =
          Some (mc, wb, s1)" "cyc \<le> mc" "frame s s1" "coh s1" "wb \<longrightarrow> excl (st s p ?V)"
        "\<forall>d B. B \<noteq> 0 \<longrightarrow> B \<noteq> ?V \<longrightarrow> st s1 d B = st s d B" "st s1 p ?V = st s p ?V"
        "\<forall>d. blw ?V d p \<longrightarrow> d \<noteq> p \<longrightarrow> st s1 d ?V = I"
        using send_evict_ok [OF p b lo False D, of cyc "req_srcId req"] by auto
      have k1: "keeps (req_srcId req) p s s1" using frame_keeps [OF r(3)] .
      have b1: "busy p s1" using keeps_busy [OF b(1) k1 r(4)] .
      have f: "arr s1 p = arr s p" "s_evRecs s1 = s_evRecs s" using r(3) by (simp_all add: frame_def)
      have l1: "line_of cfg tags s1 p ?V = Some l" using lo frame_line_of [OF r(3)] by simp
      obtain resp s2 where e: "bcc_processEviction acc (cfg p) p ?V l wb mc (req_srcId req) s1 = Some (resp, s2)"
        "busy p s2" "keeps (req_srcId req) p s1 s2" "arr s2 p = arr s1 p" "bcc_state p l s2 = I"
        "rec_ok mc (s_heap s2) (s_evRecs s2 (req_srcId req))" "\<forall>d B. B \<noteq> 0 \<longrightarrow> B \<noteq> ?V \<longrightarrow> st s2 d B = st s1 d B"
        using bcc_evict_ok [OF acc p b1 l1 False, of "req_srcId req" wb mc] rec f(2) r(5,7,8) by auto
      have "heap_ok (s_heap s2)" using e(2) by (simp add: busy_def)
      then have "rec_ok cyc (s_heap s2) (s_evRecs s2 (req_srcId req))" using rec_ok_mono [OF e(6) r(2)] by simp
      then show ?thesis using r(1,6) e nt inc keeps_trans [OF k1 e(3)] f
        by (auto simp: cc_processEviction_def mesi_processEviction_def tcc_processEviction_def)
    qed
  qed
qed

section \<open>Allocation of a line\<close>

text \<open>An invalid line has no sharers.\<close>

lemma invalid_entry:
  assumes "coh s" "p \<in> caches" "l < cfg_numLines (cfg p)" "bcc_state p l s = I"
  shows "en_sharers (tcc_entry p l s) = (\<lambda>_. False)" "\<not> en_isExclusive (tcc_entry p l s)"
proof -
  let ?e = "tcc_entry p l s" and ?V = "tags (arr s p) l"
  have lk: "lok s p" using coh_lok assms by blast
  have e: "entry_ok (length (cfg_children (cfg p))) ?e" "?V = 0 \<Longrightarrow> en_numSharers ?e = 0"
    using lk assms(3) by (auto simp: lines_ok_def Let_def)
  have fin: "finite {i. en_sharers ?e i}" using e(1) by (auto simp: entry_ok_def intro: finite_subset)
  have "\<not> en_sharers ?e i" for i
  proof (cases "?V = 0")
    case True
    then show ?thesis using e fin by (simp add: entry_ok_def)
  next
    case False
    then have l: "line_of cfg tags s p ?V = Some l" using line_of_iff [OF lk] assms(3) by simp
    then have "st s p ?V = I" using assms(4) by (simp add: line_state_def)
    then show ?thesis using coh_sharer [OF assms(1,2) l False, of i] nok_home(2) [OF coh_nok [OF assms(1,2) False]] by blast
  qed
  then show "en_sharers ?e = (\<lambda>_. False)" by auto
  then show "\<not> en_isExclusive ?e" using e(1) by (simp add: entry_ok_def en_isExclusive_def)
qed

lemma coh_insert:
  assumes c: "coh s" and p: "p \<in> caches" and l: "l < cfg_numLines (cfg p)" "bcc_state p l s = I"
    and a: "tags a = (tags (arr s p))(l := A)" "A \<noteq> 0" and miss: "\<forall>i<cfg_numLines (cfg p). tags (arr s p) i \<noteq> A"
  shows "coh (set_array p a s)" "line_of cfg tags (set_array p a s) p A = Some l"
    "\<And>d B. B \<noteq> 0 \<Longrightarrow> st (set_array p a s) d B = st s d B"
proof -
  let ?s = "set_array p a s" and ?n = "cfg_numLines (cfg p)"
  have lk: "lok s p" using coh_lok [OF c p] .
  have lk': "lok ?s p" using lk a(2) miss l(1) unfolding lines_ok_def Let_def by (auto simp: a(1))
  show lA: "line_of cfg tags ?s p A = Some l" using line_of_iff [OF lk' a(2)] l(1) by (simp add: a(1))
  have lo: "line_of cfg tags ?s p B = Some m \<longleftrightarrow> (if B = A then m = l else m \<noteq> l \<and> line_of cfg tags s p B = Some m)"
    if "B \<noteq> 0" for B m
    using line_of_iff [OF lk' that] line_of_iff [OF lk that] l(1) miss by (auto simp: a(1))
  have old: "line_of cfg tags s p A = None" using miss by (auto simp: line_of_def find_None_iff)
  note i = invalid_entry [OF c p l]
  have view: "st ?s p B = st s p B \<and> sh ?s p B = sh s p B \<and> ex ?s p B = ex s p B" if "B \<noteq> 0" for B
  proof (cases "line_of cfg tags ?s p B")
    case None
    then have "line_of cfg tags s p B = None \<or> line_of cfg tags s p B = Some l"
      using lo [OF that] old by (metis not_None_eq)
    then show ?thesis using None i l(2)
      by (auto simp: line_state_def line_sharer_def line_excl_def fun_eq_iff)
  next
    case (Some m)
    then show ?thesis using lo [OF that, of m] old i l(2)
      by (auto simp: line_state_def line_sharer_def line_excl_def fun_eq_iff split: if_splits)
  qed
  have oth: "same_cache tags s ?s d" if "d \<noteq> p" for d using that by (auto intro: same_cacheI)
  show stt: "st ?s d B = st s d B" if "B \<noteq> 0" for d B
    using view [OF that] same_cache_view(2) [OF oth, of d cfg] by (cases "d = p") auto
  have "sh ?s q B = sh s q B \<and> ex ?s q B = ex s q B" if "B \<noteq> 0" for q B
    using view [OF that] same_cache_view(3,4) [OF oth, of q cfg] by (cases "q = p") auto
  then have "nok ?s B q" if "B \<noteq> 0" "q \<in> caches" for q B
    using nok_same_view [OF coh_nok [OF c that(2,1)]] stt that by blast
  moreover have "lok ?s q" if "q \<in> caches" for q
    using lk' coh_lok [OF c that] same_cache_view(5) [OF oth, of q cfg] by (cases "q = p") auto
  ultimately show "coh ?s" by (simp add: coherent_def)
qed

lemma keeps_set_array: "keeps src p s (set_array p a s)"
  by (auto simp: keeps_def upd_defs)

lemma coh_set_array:
  assumes "coh s" "tags a = tags (arr s p)"
  shows "coh (set_array p a s)" "st (set_array p a s) d B = st s d B"
    "line_of cfg tags (set_array p a s) d B = line_of cfg tags s d B"
proof -
  have v: "same_cache tags s (set_array p a s) d" for d using assms(2) by (auto intro: same_cacheI)
  show "st (set_array p a s) d B = st s d B" "line_of cfg tags (set_array p a s) d B = line_of cfg tags s d B"
    using same_cache_view [OF v, of cfg d] by simp_all
  have "nok (set_array p a s) A q" if "q \<in> caches" "A \<noteq> 0" for q A
    using nok_frame [OF coh_nok [OF assms(1) that] that(1) v v] .
  then show "coh (set_array p a s)" using assms(1) same_cache_view(5) [OF v, of cfg] by (simp add: coherent_def)
qed

lemma allocate_ok:
  assumes acc: "\<And>A. acc_spec acc (home cfg p A)" and p: "p \<in> caches" and b: "busy p s" "low_inv (lvl p) s"
    and D: "depth \<le> D" and i: "ainv p (arr s p)" and A: "A = req_lineAddr req" "A \<noteq> 0"
    and miss: "line_of cfg tags s p A = None" and g: "IsGet (req_type req)" and rec: "rec_none (s_evRecs s (req_srcId req))"
  shows "\<exists>l s'. cache_allocate acc (hier_invalidate cfg D) (cfg p) p req cyc s = Some (l, s') \<and> busy p s' \<and>
    keeps (req_srcId req) p s s' \<and> ainv p (arr s' p) \<and> line_of cfg tags s' p A = Some l \<and>
    (\<forall>d. st s' d A = st s d A) \<and> rec_ok cyc (s_heap s') (s_evRecs s' (req_srcId req))"
proof -
  note ca = arrays [OF p]
  have m: "\<forall>i<cfg_numLines (cfg p). tags (arr s p) i \<noteq> A" using miss by (auto simp: line_of_def find_None_iff)
  obtain l a1 where a1: "ca_preinsert (cfg_ops (cfg p)) (cc_numSharers (cfg p) p s) (\<lambda>l. bcc_isValid p l s) A req (arr s p) =
      Some ((l, tags (arr s p) l), a1)" "l < cfg_numLines (cfg p)" "apend p A l a1" "tags a1 = tags (arr s p)"
    using cache_array.preinsert_ok [OF ca i A(2) m] by blast
  let ?s1 = "set_array p a1 s"
  have c: "coh s" using b(1) by (simp add: busy_def)
  note c1 = coh_set_array [OF c a1(4)]
  have b1: "busy p ?s1" using keeps_busy [OF b(1) keeps_set_array c1(1)] .
  have low1: "low_inv (lvl p) ?s1" using keeps_low [OF b(2) keeps_set_array] .
  have V: "tags (arr ?s1 p) l = tags (arr s p) l" "arr ?s1 p = a1" using a1(4) by simp_all
  have rec1: "rec_none (s_evRecs ?s1 (req_srcId req))" using rec by (simp add: upd_defs)
  obtain resp s2 where e: "cc_processEviction acc (hier_invalidate cfg D) (cfg p) p req (tags (arr s p) l) l cyc ?s1 = Some (resp, s2)"
    "busy p s2" "keeps (req_srcId req) p ?s1 s2" "arr s2 p = a1" "bcc_state p l s2 = I"
    "rec_ok cyc (s_heap s2) (s_evRecs s2 (req_srcId req))"
    "\<forall>d B. B \<noteq> 0 \<longrightarrow> B \<noteq> tags (arr s p) l \<longrightarrow> st s2 d B = st ?s1 d B"
    using evict_ok [OF acc p b1 low1 D a1(2) rec1, of cyc] V by auto
  obtain a2 where a2: "ca_postinsert (cfg_ops (cfg p)) A req l a1 = Some a2" "ainv p a2" "tags a2 = (tags a1)(l := A)"
    using cache_array.postinsert_ok [OF ca a1(3) A(2) g] by blast
  have t2: "tags a2 = (tags (arr s2 p))(l := A)" using a2(3) e(4) by simp
  have m2: "\<forall>i<cfg_numLines (cfg p). tags (arr s2 p) i \<noteq> A" using m e(4) a1(4) by simp
  have c2: "coh s2" using e(2) by (simp add: busy_def)
  note I = coh_insert [OF c2 p a1(2) e(5) t2 A(2) m2]
  have k2: "keeps (req_srcId req) p s2 (set_array p a2 s2)" by (rule keeps_set_array)
  have b3: "busy p (set_array p a2 s2)" using keeps_busy [OF e(2) k2 I(1)] .
  have k: "keeps (req_srcId req) p s (set_array p a2 s2)"
    using keeps_trans [OF keeps_trans [OF keeps_set_array e(3)] k2] .
  have "cache_allocate acc (hier_invalidate cfg D) (cfg p) p req cyc s = Some (l, set_array p a2 s2)"
    using a1(1) e(1,4) a2(1) A(1) by (simp add: cache_allocate_def)
  moreover have "st (set_array p a2 s2) d A = st s d A" for d
    using I(3) [OF A(2), of d] e(7) c1(2) m a1(2) A(2) by auto
  ultimately show ?thesis using b3 k a2(2) I(2) e(6) by (auto simp: upd_defs)
qed

section \<open>The bottom controller\<close>

lemma coh_prof: "coh (prof c f s) = coh s"
proof -
  have "same_cache tags s (prof c f s) q" for q by (rule same_cacheI) simp_all
  then have "nok (prof c f s) A q = nok s A q" for A q
    using same_cache_view [of tags s "prof c f s" _ cfg] by (simp add: node_ok_def)
  then show ?thesis by (simp add: coherent_def)
qed

lemma busy_prof: "busy p (prof c f s) = busy p s"
  by (auto simp: busy_def coh_prof)

lemma low_inv_prof [simp]: "low_inv k (prof c f s) = low_inv k s"
  by (simp add: low_inv_def)

lemma bcc_fetch_ok:
  assumes acc: "acc_spec acc (home cfg p A)" and p: "p \<in> caches" and b: "busy p s" "low_inv (lvl p) s" "ainv p (arr s p)"
    and l: "line_of cfg tags s p A = Some l" "A \<noteq> 0" and f: "\<not> has_flag flags PREFETCH"
    and ty: "IsGet ty" "may_ask ty (st s p A)" and rec: "rec_none (s_evRecs s src)"
  shows "\<exists>resp s'. bcc_fetch acc (cfg p) p A ty l cyc src flags s = Some (resp, s') \<and> cyc \<le> resp \<and> busy p s' \<and>
    keeps src p s s' \<and> arr s' p = arr s p \<and> line_of cfg tags s' p A = Some l \<and> granted ty (st s' p A) \<and>
    rec_ok cyc (s_heap s') (s_evRecs s' src) \<and> (\<forall>d. blw A d p \<longrightarrow> d \<noteq> p \<longrightarrow> st s' d A = st s d A)"
proof -
  obtain resp s' where r: "acc (cfg_parents (cfg p) ! getParentId (cfg p) A) (bcc_req (cfg p) p A ty l cyc src flags s) s =
      Some (resp, s')" "cyc \<le> resp" "busy p s'" "keeps src p s s'" "arr s' p = arr s p" "granted ty (st s' p A)"
    "rec_ok cyc (s_heap s') (s_evRecs s' src)" "\<forall>d. blw A d p \<longrightarrow> d \<noteq> p \<longrightarrow> st s' d A = st s d A"
    using parent_access [OF acc p b(1) l f ty(2) _ _ rec, of cyc] b(2,3) ty(1) by (auto simp: IsPut_iff)
  have "line_of cfg tags s' p A = Some l" using r(5) l(1) by (simp add: line_of_def)
  then show ?thesis using r keeps_trans [OF r(4) keeps_set_bcc(2)]
    by (auto simp: bcc_fetch_def Let_def busy_prof)
qed

lemma bcc_access_ok:
  assumes acc: "acc_spec acc (home cfg p A)" and p: "p \<in> caches" and b: "busy p s"
    and low: "IsGet ty \<Longrightarrow> low_inv (lvl p) s \<and> ainv p (arr s p)"
    and l: "line_of cfg tags s p A = Some l" "A \<noteq> 0" and f: "\<not> has_flag flags PREFETCH"
    and rec: "rec_none (s_evRecs s src)" and put: "ty = PUTS \<Longrightarrow> st s p A \<noteq> I" "ty = PUTX \<Longrightarrow> excl (st s p A)"
  shows "\<exists>resp s'. bcc_processAccess acc (cfg p) p A l ty cyc src flags s = Some (resp, s') \<and> cyc \<le> resp \<and> busy p s' \<and>
    keeps src p s s' \<and> arr s' p = arr s p \<and> line_of cfg tags s' p A = Some l \<and> st s' p A \<noteq> I \<and>
    (ty = GETX \<or> ty = PUTX \<longrightarrow> st s' p A = M) \<and> rec_ok cyc (s_heap s') (s_evRecs s' src) \<and>
    (\<forall>d. blw A d p \<longrightarrow> d \<noteq> p \<longrightarrow> st s' d A = st s d A) \<and>
    (IsPut ty \<longrightarrow> (\<forall>d B. B \<noteq> 0 \<longrightarrow> B \<noteq> A \<longrightarrow> st s' d B = st s d B))"
proof -
  have c: "coh s" using b by (simp add: busy_def)
  have x: "bcc_state p l s = st s p A" using l by (simp add: line_state_def)
  have up: "\<exists>s'. prof p g (if st s p A = E then set_bcc p l M s else s) = s' \<and> busy p s' \<and> keeps src p s s' \<and>
      arr s' p = arr s p \<and> line_of cfg tags s' p A = Some l \<and> st s' p A = M \<and> bcc_state p l s' = M \<and>
      s_heap s' = s_heap s \<and> s_evRecs s' = s_evRecs s \<and> (\<forall>d B. \<not> (d = p \<and> B = A) \<longrightarrow> st s' d B = st s d B)"
    if e: "excl (st s p A)" for g
  proof -
    let ?s1 = "if st s p A = E then set_bcc p l M s else s" and ?s' = "prof p g (if st s p A = E then set_bcc p l M s else s)"
    have fr: "frame s ?s'" using frame_trans [of s ?s1 ?s'] by simp
    have "coh ?s'" using c coh_upgrade [OF c p l e, of M] by (simp add: coh_prof excl_def)
    then have "busy p ?s'" using keeps_busy [OF b frame_keeps [OF fr]] by blast
    moreover have "st ?s' d B = (if d = p \<and> B = A then M else st s d B)" for d B
      using set_bcc_state [OF l(1)] e by (auto simp: excl_def)
    moreover have "bcc_state p l ?s' = M" using x e by (auto simp: excl_def)
    ultimately show ?thesis using frame_keeps [OF fr] frame_line_of [OF fr] l fr by (auto simp: frame_def)
  qed
  show ?thesis
  proof (cases ty)
    case PUTS
    then show ?thesis using put(1) x b l rec keeps_set_bcc(2)
      by (auto simp: bcc_processAccess_def busy_prof)
  next
    case PUTX
    then show ?thesis using up [OF put(2), of "\<lambda>q. q\<lparr>profPUTX := profPUTX q + 1\<rparr>"] put(2) x rec
      by (auto simp: bcc_processAccess_def Let_def excl_def)
  next
    case GETS
    show ?thesis
    proof (cases "st s p A = I")
      case True
      then obtain resp s1 where r: "bcc_fetch acc (cfg p) p A GETS l cyc src flags s = Some (resp, s1)" "cyc \<le> resp" "busy p s1"
        "keeps src p s s1" "arr s1 p = arr s p" "line_of cfg tags s1 p A = Some l" "granted GETS (st s1 p A)"
        "rec_ok cyc (s_heap s1) (s_evRecs s1 src)" "\<forall>d. blw A d p \<longrightarrow> d \<noteq> p \<longrightarrow> st s1 d A = st s d A"
        using bcc_fetch_ok [OF acc p b _ _ l f _ _ rec, of GETS cyc] low GETS by auto
      have "bcc_state p l s1 = st s1 p A" using r(6) by (simp add: line_state_def)
      then show ?thesis using r GETS True x keeps_trans [OF r(4) keeps_set_bcc(2)]
        by (auto simp: bcc_processAccess_def busy_prof)
    next
      case False
      then show ?thesis using GETS x b l rec keeps_set_bcc(2) by (auto simp: bcc_processAccess_def busy_prof)
    qed
  next
    case GETX
    show ?thesis
    proof (cases "excl (st s p A)")
      case True
      then show ?thesis using up [OF True, of "\<lambda>q. q\<lparr>profGETXHit := profGETXHit q + 1\<rparr>"] GETX x rec
        by (auto simp: bcc_processAccess_def Let_def excl_def)
    next
      case False
      then have may: "st s p A = I \<or> st s p A = S" by (cases "st s p A") (auto simp: excl_def)
      define g :: "bcc_prof \<Rightarrow> bcc_prof" where "g = (if st s p A = I then (\<lambda>q. q\<lparr>profGETXMissIM := profGETXMissIM q + 1\<rparr>)
        else (\<lambda>q. q\<lparr>profGETXMissSM := profGETXMissSM q + 1\<rparr>))"
      have b1: "busy p (prof p g s)" "low_inv (lvl p) (prof p g s)" "ainv p (arr (prof p g s) p)"
        "rec_none (s_evRecs (prof p g s) src)" "line_of cfg tags (prof p g s) p A = Some l"
        using b low GETX rec l by (auto simp: busy_prof)
      obtain resp s1 where r: "bcc_fetch acc (cfg p) p A GETX l cyc src flags (prof p g s) = Some (resp, s1)" "cyc \<le> resp" "busy p s1"
        "keeps src p (prof p g s) s1" "arr s1 p = arr (prof p g s) p" "line_of cfg tags s1 p A = Some l" "granted GETX (st s1 p A)"
        "rec_ok cyc (s_heap s1) (s_evRecs s1 src)" "\<forall>d. blw A d p \<longrightarrow> d \<noteq> p \<longrightarrow> st s1 d A = st (prof p g s) d A"
        using bcc_fetch_ok [OF acc p b1(1-3,5) l(2) f _ _ b1(4), of GETX cyc] may by auto
      have "bcc_state p l s1 = st s1 p A" using r(6) by (simp add: line_state_def)
      moreover have "(if st s p A = I then prof p (\<lambda>q. q\<lparr>profGETXMissIM := profGETXMissIM q + 1\<rparr>) s
          else prof p (\<lambda>q. q\<lparr>profGETXMissSM := profGETXMissSM q + 1\<rparr>) s) = prof p g s" by (simp add: g_def)
      ultimately show ?thesis using r GETX may x keeps_trans [OF keeps_set_bcc(2) r(4)]
        by (auto simp: bcc_processAccess_def Let_def)
    qed
  qed
qed

section \<open>The top controller\<close>

text \<open>
  The last step of every request of a child \<open>c\<close>: \<open>p\<close> writes the entry and the state of the child.
  It suffices to look at the invariant between \<open>p\<close> and its children and between \<open>c\<close> and its.
\<close>

lemma grant_state:
  assumes "line_of cfg tags s c A = Some lc"
  shows "st (set_bcc c lc x (set_tcc p l e s)) d B = (if d = c \<and> B = A then x else st s d B)"
proof -
  have "line_of cfg tags (set_tcc p l e s) c A = Some lc" using assms by simp
  then show ?thesis using set_bcc_state [of cfg tags "set_tcc p l e s" c A lc x d B] by simp
qed

lemma coh_grant:
  assumes lok: "\<And>q. q \<in> caches \<Longrightarrow> lok s q"
    and nok: "\<And>q B. q \<in> caches \<Longrightarrow> B \<noteq> 0 \<Longrightarrow> q \<noteq> p \<or> B \<noteq> A \<Longrightarrow> nok s B q"
    and p: "p \<in> caches" "line_of cfg tags s p A = Some l" "A \<noteq> 0"
    and c: "c \<in> caches" "home cfg c A = CacheObj p" "line_of cfg tags s c A = Some lc"
    and kids: "\<And>d. d \<in> caches \<Longrightarrow> home cfg d A = CacheObj c \<Longrightarrow>
      (st s d A \<noteq> I \<longrightarrow> x \<noteq> I) \<and> (excl (st s d A) \<longrightarrow> excl x)"
    and e: "entry_ok (length (cfg_children (cfg p))) e"
    and other: "\<And>j. j < length (cfg_children (cfg p)) \<Longrightarrow> home cfg (cfg_children (cfg p) ! j) A \<noteq> CacheObj p \<Longrightarrow> \<not> en_sharers e j"
    and mine: "\<And>d. d \<in> caches \<Longrightarrow> home cfg d A = CacheObj p \<Longrightarrow> d \<noteq> c \<Longrightarrow>
      (en_sharers e (cfg_selfId (cfg d)) \<longleftrightarrow> st s d A \<noteq> I) \<and> (st s d A \<noteq> I \<longrightarrow> st s p A \<noteq> I) \<and>
      (excl (st s d A) \<longrightarrow> en_isExclusive e \<and> excl (st s p A)) \<and> (en_isExclusive e \<and> st s d A \<noteq> I \<longrightarrow> excl (st s d A))"
    and self: "(en_sharers e (cfg_selfId (cfg c)) \<longleftrightarrow> x \<noteq> I) \<and> (x \<noteq> I \<longrightarrow> st s p A \<noteq> I) \<and>
      (excl x \<longrightarrow> en_isExclusive e \<and> excl (st s p A)) \<and> (en_isExclusive e \<and> x \<noteq> I \<longrightarrow> excl x)"
  shows "coh (set_bcc c lc x (set_tcc p l e s))" (is "coh ?s'")
proof -
  have cp: "c \<noteq> p" using home_cache(5) [OF c(1,2)] by auto
  have lc: "line_of cfg tags (set_tcc p l e s) c A = Some lc" using c(3) by simp
  note stt = grant_state [OF c(3)]
  have lok': "lok ?s' q" if "q \<in> caches" for q
    using set_bcc_lines_ok [OF lc p(3), of x q] set_tcc_lines_ok [OF p(2,3) lok [OF that] e] by simp
  have "nok ?s' B q" if q: "q \<in> caches" "B \<noteq> 0" for q B
  proof -
    consider "B \<noteq> A" | "B = A" "q \<noteq> p" "q \<noteq> c" | "B = A" "q = c" | "B = A" "q = p" by blast
    then show ?thesis
    proof cases
      case 1
      then show ?thesis by (intro nok_same_view [OF nok [OF q]]) (simp_all add: stt set_tcc_entry [OF p(2)])
    next
      case 2
      have "nok ?s' A q"
      proof (rule node_ok_cong [of tags s])
        show "st ?s' d A = st s d A" if "home cfg d A = CacheObj q" for d
          using that c(2) 2 by (auto simp: stt)
      qed (use 2 nok [OF q] q in \<open>simp_all add: stt set_tcc_entry [OF p(2)]\<close>)
      then show ?thesis using 2 by simp
    next
      case 3
      have n: "nok s A c" using nok [OF c(1) p(3)] cp by simp
      have v: "sh ?s' c A = sh s c A" "ex ?s' c A = ex s c A" "st ?s' c A = x" using cp by (simp_all add: stt set_tcc_entry [OF p(2)])
      have "nok ?s' A c"
      proof (rule nokI [OF c(1)], unfold v)
        fix d assume d: "d \<in> caches" "home cfg d A = CacheObj c"
        have "st ?s' d A = st s d A" using child_below [OF c(1) d] by (simp add: stt)
        then show "(sh s c A (cfg_selfId (cfg d)) \<longleftrightarrow> st ?s' d A \<noteq> I) \<and> (st ?s' d A \<noteq> I \<longrightarrow> x \<noteq> I) \<and>
            (excl (st ?s' d A) \<longrightarrow> ex s c A \<and> excl x) \<and> (ex s c A \<and> st ?s' d A \<noteq> I \<longrightarrow> excl (st ?s' d A))"
          using nok_home [OF n d] kids [OF d] by simp
      qed (rule nok_other [OF n])
      then show ?thesis using 3 by simp
    next
      case 4
      have v: "sh ?s' p A = en_sharers e" "ex ?s' p A = en_isExclusive e" "st ?s' p A = st s p A"
        using cp by (simp_all add: stt set_tcc_entry [OF p(2)])
      have "nok ?s' A p"
      proof (rule nokI [OF p(1)], unfold v)
        fix d assume d: "d \<in> caches" "home cfg d A = CacheObj p"
        show "(en_sharers e (cfg_selfId (cfg d)) \<longleftrightarrow> st ?s' d A \<noteq> I) \<and> (st ?s' d A \<noteq> I \<longrightarrow> st s p A \<noteq> I) \<and>
            (excl (st ?s' d A) \<longrightarrow> en_isExclusive e \<and> excl (st s p A)) \<and>
            (en_isExclusive e \<and> st ?s' d A \<noteq> I \<longrightarrow> excl (st ?s' d A))"
        proof (cases "d = c")
          case True
          then have "st ?s' d A = x" by (simp add: stt)
          then show ?thesis using self True by (simp only:) simp
        next
          case False
          then have "st ?s' d A = st s d A" by (simp add: stt)
          then show ?thesis using mine [OF d False] by (simp only:) simp
        qed
      qed (rule other)
      then show ?thesis using 4 by simp
    qed
  qed
  then show "coh ?s'" using lok' by (simp add: coherent_def)
qed

lemma selfId_eq:
  "c \<in> caches \<Longrightarrow> d \<in> caches \<Longrightarrow> home cfg c A = CacheObj p \<Longrightarrow> home cfg d A = CacheObj p \<Longrightarrow>
   cfg_selfId (cfg c) = cfg_selfId (cfg d) \<longleftrightarrow> c = d"
  using home_cache(4) by metis

lemma few_sharers: "p \<in> caches \<Longrightarrow> entry_ok (length (cfg_children (cfg p))) e \<Longrightarrow> en_numSharers e + 1 < 2 ^ 32"
  using few_children [of p] card_mono [of "{..<length (cfg_children (cfg p))}" "{i. en_sharers e i}"]
  by (simp add: entry_ok_def MAX_CACHE_CHILDREN_def)

text \<open>A single sharer is the only one.\<close>

lemma entry_single:
  assumes "entry_ok n e" "en_numSharers e = 1" "en_sharers e i" "en_sharers e j"
  shows "i = j"
proof -
  have "card {i. en_sharers e i} = 1" using assms(1,2) by (simp add: entry_ok_def)
  then obtain k where "{i. en_sharers e i} = {k}" by (rule card_1_singletonE)
  then have "i \<in> {k}" "j \<in> {k}" using assms(3,4) by blast+
  then show ?thesis by simp
qed

lemma entry_remove:
  assumes "entry_ok n e" "en_sharers e i" "en_numSharers e + 1 < 2 ^ 32"
  shows "entry_ok n (e\<lparr>en_sharers := (en_sharers e)(i := False), en_numSharers := dec32 (en_numSharers e)\<rparr>)"
    and "\<not> en_isExclusive (e\<lparr>en_sharers := (en_sharers e)(i := False), en_numSharers := dec32 (en_numSharers e)\<rparr>)"
proof -
  have fin: "finite {j. en_sharers e j}" using assms(1) by (auto simp: entry_ok_def intro: finite_subset)
  have eq: "{j. ((en_sharers e)(i := False)) j} = {j. en_sharers e j} - {i}" by auto
  have pos: "0 < en_numSharers e" using assms fin by (auto simp: entry_ok_def card_gt_0_iff)
  then have d: "dec32 (en_numSharers e) = en_numSharers e - 1" using assms(3) by (intro dec32_pos) simp_all
  then show "entry_ok n (e\<lparr>en_sharers := (en_sharers e)(i := False), en_numSharers := dec32 (en_numSharers e)\<rparr>)"
    using assms fin unfolding entry_ok_def by (auto simp: eq card_Diff_singleton)
  show "\<not> en_isExclusive (e\<lparr>en_sharers := (en_sharers e)(i := False), en_numSharers := dec32 (en_numSharers e)\<rparr>)"
    using assms(1) d unfolding entry_ok_def en_isExclusive_def by auto
qed

lemma tcc_put_ok:
  assumes b: "coh s" and p: "p \<in> caches" "line_of cfg tags s p A = Some l" "A \<noteq> 0"
    and c: "c \<in> caches" "home cfg c A = CacheObj p" "line_of cfg tags s c A = Some lc" "st s c A \<noteq> I"
    and low: "\<And>d. blw A d c \<Longrightarrow> d \<noteq> c \<Longrightarrow> st s d A = I"
  shows "\<exists>s'. tcc_put p l (cfg_selfId (cfg c)) (Slot c lc) s = Some s' \<and> coh s' \<and> frame s s' \<and> st s' c A = I \<and>
    (\<forall>d B. \<not> (d = c \<and> B = A) \<longrightarrow> st s' d B = st s d B)"
proof -
  let ?e = "tcc_entry p l s" and ?i = "cfg_selfId (cfg c)"
  let ?e' = "?e\<lparr>en_sharers := (en_sharers ?e)(?i := False), en_numSharers := dec32 (en_numSharers ?e)\<rparr>"
  let ?s' = "set_bcc c lc I (set_tcc p l ?e' s)"
  note en = coh_entry [OF b p(1,2)]
  have n: "nok s A p" using coh_nok [OF b p(1,3)] .
  note nh = nok_home [OF n]
  have i: "en_sharers ?e ?i" using nh(1) [OF c(1,2)] en(2) c(4) by simp
  note er = entry_remove [OF en(1) i few_sharers [OF p(1) en(1)]]
  have ex': "en_isExclusive ?e' = False" and sh': "en_sharers ?e' = (en_sharers ?e)(?i := False)" using er(2) by simp_all
  have "coh ?s'"
  proof (rule coh_grant [OF coh_lok [OF b] coh_nok [OF b] p c(1-3) _ er(1)], unfold ex' sh')
    show "(st s d A \<noteq> I \<longrightarrow> I \<noteq> I) \<and> (excl (st s d A) \<longrightarrow> excl I)" if "d \<in> caches" "home cfg d A = CacheObj c" for d
      using low child_below [OF c(1) that] by (simp add: excl_def)
    show "\<not> ((en_sharers ?e)(?i := False)) j" if "j < length (cfg_children (cfg p))" "home cfg (cfg_children (cfg p) ! j) A \<noteq> CacheObj p" for j
      using nok_other [OF n that] en(2) by auto
    show "(((en_sharers ?e)(?i := False)) (cfg_selfId (cfg d)) \<longleftrightarrow> st s d A \<noteq> I) \<and> (st s d A \<noteq> I \<longrightarrow> st s p A \<noteq> I) \<and>
      (excl (st s d A) \<longrightarrow> False \<and> excl (st s p A)) \<and> (False \<and> st s d A \<noteq> I \<longrightarrow> excl (st s d A))"
      if d: "d \<in> caches" "home cfg d A = CacheObj p" "d \<noteq> c" for d
    proof -
      have ne: "cfg_selfId (cfg d) \<noteq> ?i" using selfId_eq [OF c(1) d(1) c(2) d(2)] d(3) by auto
      have "\<not> excl (st s d A)"
      proof
        assume x: "excl (st s d A)"
        then have "en_numSharers ?e = 1" "en_sharers ?e (cfg_selfId (cfg d))"
          using nh(3) [OF d(1,2)] nh(1) [OF d(1,2)] en(2,3) by (auto simp: en_isExclusive_def excl_def)
        then show False using entry_single [OF en(1) _ i] ne by metis
      qed
      then show ?thesis using ne nh(1,2) [OF d(1,2)] en(2) by simp
    qed
  qed (simp_all add: excl_def)
  then show ?thesis using i frame_trans [of s "set_tcc p l ?e' s" ?s'] grant_state [OF c(3), of I p l ?e']
    by (simp add: tcc_put_def Let_def)
qed

lemma entry_add:
  assumes "entry_ok n e" "\<not> en_sharers e i" "i < n" "en_numSharers e + 1 < 2 ^ 32" "x \<longrightarrow> en_numSharers e = 0"
  shows "entry_ok n (e\<lparr>en_sharers := (en_sharers e)(i := True), en_numSharers := inc32 (en_numSharers e), en_exclusive := x\<rparr>)"
proof -
  have fin: "finite {j. en_sharers e j}" using assms(1) by (auto simp: entry_ok_def intro: finite_subset)
  have eq: "{j. ((en_sharers e)(i := True)) j} = insert i {j. en_sharers e j}" by auto
  have "inc32 (en_numSharers e) = en_numSharers e + 1" using assms(4) by (rule inc32_small)
  then show ?thesis using assms fin unfolding entry_ok_def by (auto simp: eq card_insert_if)
qed

text \<open>An empty entry, the child below \<open>p\<close> in state \<open>I\<close>.\<close>

lemma child_invalid_low:
  assumes "coh s" "A \<noteq> 0" "st s c A = I" "blw A d c"
  shows "st s d A = I"
  using below_states(1) [OF assms(4), of s] coh_nok [OF assms(1) _ assms(2)] below_caches assms(3) by blast

lemma gets_exclusive:
  assumes b: "coh s" and p: "p \<in> caches" "line_of cfg tags s p A = Some l" "A \<noteq> 0" "excl (st s p A)"
    and c: "c \<in> caches" "home cfg c A = CacheObj p" "line_of cfg tags s c A = Some lc" "st s c A = I"
    and e: "en_isEmpty (tcc_entry p l s)"
  shows "coh (set_bcc c lc E (set_tcc p l ((tcc_entry p l s)\<lparr>en_exclusive := True,
    en_sharers := (en_sharers (tcc_entry p l s))(cfg_selfId (cfg c) := True), en_numSharers := 1\<rparr>) s))"
proof -
  let ?e = "tcc_entry p l s" and ?i = "cfg_selfId (cfg c)" and ?n = "length (cfg_children (cfg p))"
  note en = coh_entry [OF b p(1,2)] and nh = nok_home [OF coh_nok [OF b p(1,3)]] and h = home_cache [OF c(1,2)]
  have none: "en_sharers ?e = (\<lambda>_. False)"
  proof -
    have "finite {j. en_sharers ?e j}" using en(1) by (auto simp: entry_ok_def intro: finite_subset)
    then show ?thesis using en(1) e by (auto simp: entry_ok_def en_isEmpty_def)
  qed
  let ?e' = "?e\<lparr>en_exclusive := True, en_sharers := (en_sharers ?e)(?i := True), en_numSharers := 1\<rparr>"
  have ok: "entry_ok ?n ?e'" using h(3) by (auto simp: entry_ok_def none)
  have v: "en_isExclusive ?e' = True" "en_sharers ?e' = (\<lambda>j. j = ?i)" by (auto simp: en_isExclusive_def none fun_eq_iff)
  show ?thesis
  proof (rule coh_grant [OF coh_lok [OF b] coh_nok [OF b] p(1-3) c(1-3) _ ok], unfold v)
    show "(st s d A \<noteq> I \<longrightarrow> E \<noteq> I) \<and> (excl (st s d A) \<longrightarrow> excl E)" for d by (simp add: excl_def)
    show "j \<noteq> ?i" if "home cfg (cfg_children (cfg p) ! j) A \<noteq> CacheObj p" for j using that h(4) c(2) by auto
    show "((cfg_selfId (cfg d) = ?i) \<longleftrightarrow> st s d A \<noteq> I) \<and> (st s d A \<noteq> I \<longrightarrow> st s p A \<noteq> I) \<and>
      (excl (st s d A) \<longrightarrow> True \<and> excl (st s p A)) \<and> (True \<and> st s d A \<noteq> I \<longrightarrow> excl (st s d A))"
      if d: "d \<in> caches" "home cfg d A = CacheObj p" "d \<noteq> c" for d
      using nh(1) [OF d(1,2)] en(2) none selfId_eq [OF c(1) d(1) c(2) d(2)] d(3) p(4) by auto
    show "(?i = ?i \<longleftrightarrow> E \<noteq> I) \<and> (E \<noteq> I \<longrightarrow> st s p A \<noteq> I) \<and> (excl E \<longrightarrow> True \<and> excl (st s p A)) \<and> (True \<and> E \<noteq> I \<longrightarrow> excl E)"
      using p(4) by (auto simp: excl_def)
  qed simp_all
qed

text \<open>The downgrade of the exclusive sharer, if there is one, before a child is given the line in \<open>S\<close>.\<close>

lemma gets_downgrade:
  assumes b: "busy p s" "low_inv (lvl p) s" and p: "p \<in> caches" "line_of cfg tags s p A = Some l" "A \<noteq> 0"
    and c: "c \<in> caches" "home cfg c A = CacheObj p" "st s c A = I" and D: "depth \<le> D"
  shows "\<exists>resp wb s2. (if en_isExclusive (tcc_entry p l s)
      then sendInvalidates (hier_invalidate cfg D) (cfg p) p A l INVX False cyc src s else Some (cyc, False, s)) =
      Some (resp, wb, s2) \<and> cyc \<le> resp \<and> frame s s2 \<and> (wb \<longrightarrow> excl (st s p A)) \<and>
    (\<forall>q. q \<in> caches \<longrightarrow> lok s2 q) \<and> (\<forall>q B. q \<in> caches \<longrightarrow> B \<noteq> 0 \<longrightarrow> q \<noteq> p \<or> B \<noteq> A \<longrightarrow> nok s2 B q) \<and>
    entry_ok (length (cfg_children (cfg p))) (tcc_entry p l s2) \<and> \<not> en_isExclusive (tcc_entry p l s2) \<and>
    en_sharers (tcc_entry p l s2) = en_sharers (tcc_entry p l s) \<and> st s2 p A = st s p A \<and>
    (\<forall>d. blw A d c \<longrightarrow> st s2 d A = st s d A) \<and>
    (\<forall>d. d \<in> caches \<longrightarrow> home cfg d A = CacheObj p \<longrightarrow> \<not> excl (st s2 d A) \<and> (st s2 d A = I \<longleftrightarrow> st s d A = I))"
proof -
  let ?n = "length (cfg_children (cfg p))" and ?e = "tcc_entry p l s"
  let ?aff = "affected A p ?e {..<?n}"
  have co: "coh s" using b(1) by (simp add: busy_def)
  note e = coh_entry [OF co p(1,2)] and k = coh_sharer [OF co p]
  have n: "nok s A p" using coh_nok [OF co p(1,3)] .
  have nb: "\<And>q. blw A q p \<Longrightarrow> nok s A q" using coh_nok [OF co _ p(3)] below_caches by blast
  show ?thesis
  proof (cases "en_isExclusive ?e")
    case False
    then have "\<not> excl (st s d A)" if "d \<in> caches" "home cfg d A = CacheObj p" for d
      using nok_home(3) [OF n that] e(3) by blast
    then show ?thesis using False co e(1) by (auto simp: coherent_def)
  next
    case True
    have "\<exists>mc wb s'. sendInvalidates (hier_invalidate cfg D) (cfg p) p A l INVX False cyc src s = Some (mc, wb, s') \<and>
      cyc \<le> mc \<and> (if INVX = INVX \<and> \<not> en_isExclusive ?e then s' = s \<and> wb = False
       else send_post A INVX p l {..<?n} (sent_entry INVX ?e) s s' \<and> (wb \<longleftrightarrow> False \<or> (\<exists>d. ?aff d \<and> st s d A = M)))"
    proof (rule sendInvalidates_ok [OF p(1) _ e(1)])
      show "inval_spec (hier_invalidate cfg D) A INVX (cfg_children (cfg p) ! i)" if "i < ?n" for i
        using child_cache [OF p(1) that] levels D by (intro hier_invalidate_ok) (auto intro: less_le_trans)
      show "home cfg (cfg_children (cfg p) ! i) A = CacheObj p \<and> inval_pre A INVX (cfg_children (cfg p) ! i) s"
        if i: "en_sharers ?e i" for i
      proof -
        have "excl (st s (cfg_children (cfg p) ! i) A)" using nok_home(4) [OF n k(3,2) [OF i]] k(5) [OF i] e(3) True by simp
        then show ?thesis using k [OF i] busy_inval_pre [OF b, of "cfg_children (cfg p) ! i" A INVX] p(3) nb below_child by auto
      qed
    qed simp
    then obtain mc wb s2 where r: "sendInvalidates (hier_invalidate cfg D) (cfg p) p A l INVX False cyc src s = Some (mc, wb, s2)"
      "cyc \<le> mc" "send_post A INVX p l {..<?n} (sent_entry INVX ?e) s s2" "wb \<longleftrightarrow> (\<exists>d. ?aff d \<and> st s d A = M)"
      using True by auto
    note R = send_rest [OF p coh_lok [OF co] coh_nok [OF co] k(2) r(3) entry_ok_sent [OF e(1)], simplified]
    have e2: "tcc_entry p l s2 = sent_entry INVX ?e" using r(3) by (simp add: send_post_def)
    have wb: "wb \<longrightarrow> excl (st s p A)"
      using r(4) affected_sub [OF n p(1) e(2)] below_states(2) [OF _ nb] by (metis excl_def)
    have notp: "\<not> ?aff p" using affected_sub [OF n p(1) e(2), of p] by blast
    have notc: "\<not> ?aff d" if d: "blw A d c" for d
    proof
      assume "?aff d"
      then obtain i where i: "en_sharers ?e i" "blw A d (cfg_children (cfg p) ! i)" by (auto simp: affected_def)
      have "cfg_children (cfg p) ! i = c" using siblings_disjoint [OF i(2) d k(2) [OF i(1)] c(2)] .
      then show False using k(5) [OF i(1)] c(3) by simp
    qed
    have "\<not> excl (st s2 d A) \<and> (st s2 d A = I \<longleftrightarrow> st s d A = I)" if d: "d \<in> caches" "home cfg d A = CacheObj p" for d
      using R(3) [OF p(3), of d] affected_or_invalid [OF nb e(2), of d] child_below [OF p(1) d] by (auto simp: excl_def)
    then show ?thesis using True r(1-3) wb R(1,2,3) e2 entry_ok_sent [OF e(1)] notp notc p(3)
      by (auto simp: send_post_def)
  qed
qed

lemma tcc_gets_ok:
  assumes b: "busy p s" "low_inv (lvl p) s" and p: "p \<in> caches" "line_of cfg tags s p A = Some l" "A \<noteq> 0" "st s p A \<noteq> I"
    and c: "c \<in> caches" "home cfg c A = CacheObj p" "line_of cfg tags s c A = Some lc" "st s c A = I" and D: "depth \<le> D"
  shows "\<exists>resp wb s'. tcc_gets (hier_invalidate cfg D) (cfg p) p A l (cfg_selfId (cfg c)) (bcc_isExclusive p l s) (Slot c lc)
      False cyc src flags s = Some (resp, wb, s') \<and> cyc \<le> resp \<and> coh s' \<and> frame s s' \<and>
    (st s' c A = S \<or> st s' c A = E) \<and> (wb \<longrightarrow> excl (st s' p A)) \<and> (\<forall>d. blw A d c \<longrightarrow> d \<noteq> c \<longrightarrow> st s' d A = st s d A)"
proof -
  let ?e = "tcc_entry p l s" and ?i = "cfg_selfId (cfg c)"
  have co: "coh s" using b(1) by (simp add: busy_def)
  note e = coh_entry [OF co p(1,2)] and h = home_cache [OF c(1,2)]
  have cp: "c \<noteq> p" using child_below [OF p(1) c(1,2)] by simp
  have n: "nok s A p" using coh_nok [OF co p(1,3)] .
  have x: "bcc_isExclusive p l s \<longleftrightarrow> excl (st s p A)" using e(4) by (simp add: bcc_isExclusive_def excl_def)
  have ni: "\<not> en_sharers ?e ?i" using nok_home(1) [OF n c(1,2)] c(4) e(2) by simp
  show ?thesis
  proof (cases "en_isEmpty ?e \<and> excl (st s p A) \<and> \<not> has_flag flags NOEXCL")
    case True
    let ?t = "set_tcc p l (?e\<lparr>en_exclusive := True, en_sharers := (en_sharers ?e)(?i := True), en_numSharers := 1\<rparr>) s"
    have "coh (set_bcc c lc E ?t)" using gets_exclusive [OF co p(1-3) _ c] True by blast
    moreover have "frame s (set_bcc c lc E ?t)" using frame_trans [of s ?t] by simp
    moreover have "st (set_bcc c lc E ?t) d B = (if d = c \<and> B = A then E else st s d B)" for d B
      using grant_state [OF c(3)] .
    ultimately show ?thesis using True x cp by (simp add: tcc_gets_def Let_def) blast
  next
    case False
    obtain resp wb s2 where r: "(if en_isExclusive ?e
        then sendInvalidates (hier_invalidate cfg D) (cfg p) p A l INVX False cyc src s else Some (cyc, False, s)) =
        Some (resp, wb, s2)" "cyc \<le> resp" "frame s s2" "wb \<longrightarrow> excl (st s p A)"
      "\<And>q. q \<in> caches \<Longrightarrow> lok s2 q" "\<And>q B. q \<in> caches \<Longrightarrow> B \<noteq> 0 \<Longrightarrow> q \<noteq> p \<or> B \<noteq> A \<Longrightarrow> nok s2 B q"
      "entry_ok (length (cfg_children (cfg p))) (tcc_entry p l s2)" "\<not> en_isExclusive (tcc_entry p l s2)"
      "en_sharers (tcc_entry p l s2) = en_sharers ?e" "st s2 p A = st s p A"
      "\<And>d. blw A d c \<Longrightarrow> st s2 d A = st s d A"
      "\<And>d. d \<in> caches \<Longrightarrow> home cfg d A = CacheObj p \<Longrightarrow> \<not> excl (st s2 d A) \<and> (st s2 d A = I \<longleftrightarrow> st s d A = I)"
      using gets_downgrade [OF b p(1-3) c(1,2,4) D, of cyc src] by blast
    let ?e2 = "tcc_entry p l s2"
    let ?e3 = "?e2\<lparr>en_sharers := (en_sharers ?e2)(?i := True), en_numSharers := inc32 (en_numSharers ?e2), en_exclusive := False\<rparr>"
    let ?s' = "set_bcc c lc S (set_tcc p l ?e3 s2)"
    have l2: "line_of cfg tags s2 p A = Some l" "line_of cfg tags s2 c A = Some lc" using frame_line_of [OF r(3)] p(2) c(3) by simp_all
    have ok: "entry_ok (length (cfg_children (cfg p))) ?e3"
      using entry_add [OF r(7), of ?i False] ni r(9) h(3) few_sharers [OF p(1) r(7)] by simp
    have v: "en_isExclusive ?e3 = False" "en_sharers ?e3 = (en_sharers ?e)(?i := True)" using r(9) by (simp_all add: en_isExclusive_def)
    have "coh ?s'"
    proof (rule coh_grant [OF r(5,6) p(1) l2(1) p(3) c(1,2) l2(2) _ ok], unfold v)
      show "(st s2 d A \<noteq> I \<longrightarrow> S \<noteq> I) \<and> (excl (st s2 d A) \<longrightarrow> excl S)" if "d \<in> caches" "home cfg d A = CacheObj c" for d
      proof -
        have bd: "blw A d c" using child_below [OF c(1) that] by simp
        then show ?thesis using r(11) [OF bd] child_invalid_low [OF co p(3) c(4) bd] by (simp add: excl_def)
      qed
      show "\<not> ((en_sharers ?e)(?i := True)) j" if "j < length (cfg_children (cfg p))"
        "home cfg (cfg_children (cfg p) ! j) A \<noteq> CacheObj p" for j using nok_other [OF n that] e(2) that(2) h(4) c(2) by auto
      show "(((en_sharers ?e)(?i := True)) (cfg_selfId (cfg d)) \<longleftrightarrow> st s2 d A \<noteq> I) \<and> (st s2 d A \<noteq> I \<longrightarrow> st s2 p A \<noteq> I) \<and>
        (excl (st s2 d A) \<longrightarrow> False \<and> excl (st s2 p A)) \<and> (False \<and> st s2 d A \<noteq> I \<longrightarrow> excl (st s2 d A))"
        if d: "d \<in> caches" "home cfg d A = CacheObj p" "d \<noteq> c" for d
        using r(12) [OF d(1,2)] nok_home(1) [OF n d(1,2)] e(2) selfId_eq [OF c(1) d(1) c(2) d(2)] d(3) r(10) p(4) by auto
      show "(((en_sharers ?e)(?i := True)) ?i \<longleftrightarrow> S \<noteq> I) \<and> (S \<noteq> I \<longrightarrow> st s2 p A \<noteq> I) \<and>
        (excl S \<longrightarrow> False \<and> excl (st s2 p A)) \<and> (False \<and> S \<noteq> I \<longrightarrow> excl S)" using r(10) p(4) by (simp add: excl_def)
    qed
    moreover have "frame s ?s'" using frame_trans [OF r(3)] frame_trans [of s2 "set_tcc p l ?e3 s2" ?s'] by simp
    moreover have "st ?s' d B = (if d = c \<and> B = A then S else st s2 d B)" for d B using grant_state [OF l2(2)] .
    moreover have "tcc_gets (hier_invalidate cfg D) (cfg p) p A l ?i (bcc_isExclusive p l s) (Slot c lc)
        False cyc src flags s = Some (resp, wb, ?s')"
    proof -
      have "\<not> (en_isEmpty ?e \<and> bcc_isExclusive p l s \<and> \<not> has_flag flags NOEXCL)" using False x by blast
      then show ?thesis using ni r(1,8) by (simp only: tcc_gets_def Let_def if_False) simp
    qed
    ultimately show ?thesis using r(2,4,10,11) cp by simp
  qed
qed

text \<open>
  The invalidation of all other copies on a \<open>GETX\<close>. The requester has been taken out of the entry
  \<open>e1\<close>, so that the invariant of \<open>p\<close> for the address does not hold in between.
\<close>

lemma getx_invalidate:
  assumes b: "busy p s" "low_inv (lvl p) s" and p: "p \<in> caches" "line_of cfg tags s p A = Some l" "A \<noteq> 0"
    and c: "c \<in> caches" "home cfg c A = CacheObj p" and D: "depth \<le> D"
    and e1: "entry_ok (length (cfg_children (cfg p))) e1"
      "en_sharers e1 = (en_sharers (tcc_entry p l s))(cfg_selfId (cfg c) := False)"
  shows "\<exists>resp wb s2. sendInvalidates (hier_invalidate cfg D) (cfg p) p A l INV False cyc src (set_tcc p l e1 s) =
      Some (resp, wb, s2) \<and> cyc \<le> resp \<and> frame s s2 \<and> tcc_entry p l s2 = sent_entry INV e1 \<and>
    (\<forall>q. q \<in> caches \<longrightarrow> lok s2 q) \<and> (\<forall>q B. q \<in> caches \<longrightarrow> B \<noteq> 0 \<longrightarrow> q \<noteq> p \<or> B \<noteq> A \<longrightarrow> nok s2 B q) \<and>
    st s2 p A = st s p A \<and> (\<forall>d. blw A d c \<longrightarrow> st s2 d A = st s d A) \<and>
    (\<forall>d. d \<in> caches \<longrightarrow> home cfg d A = CacheObj p \<longrightarrow> d \<noteq> c \<longrightarrow> st s2 d A = I)"
proof -
  let ?n = "length (cfg_children (cfg p))" and ?e = "tcc_entry p l s" and ?s1 = "set_tcc p l e1 s"
  have co: "coh s" using b(1) by (simp add: busy_def)
  note e = coh_entry [OF co p(1,2)]
  have n: "nok s A p" using coh_nok [OF co p(1,3)] .
  have nb: "\<And>q. blw A q p \<Longrightarrow> nok s A q" using coh_nok [OF co _ p(3)] below_caches by blast
  have en: "tcc_entry p l ?s1 = e1" by simp
  have l1: "line_of cfg tags ?s1 p A = Some l" using p(2) by simp
  have oth: "same_cache tags s ?s1 q" if "q \<noteq> p" for q using that by (auto intro: same_cacheI)
  have lok1: "lok ?s1 q" if "q \<in> caches" for q using set_tcc_lines_ok [OF p(2,3) coh_lok [OF co that] e1(1)] .
  have st1: "st ?s1 d B = st s d B" for d B by simp
  have nok1: "nok ?s1 B q" if "q \<in> caches" "B \<noteq> 0" "q \<noteq> p \<or> B \<noteq> A" for q B
    using that by (intro nok_same_view [OF coh_nok [OF co that(1,2)]]) (auto simp: set_tcc_entry [OF p(2)])
  have sub: "en_sharers ?e i \<and> i \<noteq> cfg_selfId (cfg c)" if "en_sharers e1 i" for i using that e1(2) by (auto split: if_splits)
  note k = coh_sharer [OF co p, OF conjunct1 [OF sub]]
  have "\<exists>mc wb s'. sendInvalidates (hier_invalidate cfg D) (cfg p) p A l INV False cyc src ?s1 = Some (mc, wb, s') \<and>
    cyc \<le> mc \<and> (if INV = INVX \<and> \<not> en_isExclusive (tcc_entry p l ?s1) then s' = ?s1 \<and> wb = False
     else send_post A INV p l {..<?n} (sent_entry INV (tcc_entry p l ?s1)) ?s1 s' \<and>
       (wb \<longleftrightarrow> False \<or> (\<exists>d. affected A p (tcc_entry p l ?s1) {..<?n} d \<and> st ?s1 d A = M)))"
  proof (rule sendInvalidates_ok [OF p(1)], unfold en)
    show "inval_spec (hier_invalidate cfg D) A INV (cfg_children (cfg p) ! i)" if "i < ?n" for i
      using child_cache [OF p(1) that] levels D by (intro hier_invalidate_ok) (auto intro: less_le_trans)
    show "home cfg (cfg_children (cfg p) ! i) A = CacheObj p \<and> inval_pre A INV (cfg_children (cfg p) ! i) ?s1"
      if i: "en_sharers e1 i" for i
    proof -
      let ?ch = "cfg_children (cfg p) ! i"
      have "inval_pre A INV ?ch s" using k [OF i] nb below_child by (intro busy_inval_pre [OF b]) (auto simp: p(3))
      moreover have "same_cache tags s ?s1 q" if "blw A q ?ch" for q
        using oth not_below_child [OF k(2,3) [OF i]] that by metis
      ultimately show ?thesis using inval_pre_frame [of A INV ?ch s ?s1] k(2) [OF i] by simp
    qed
  qed (simp_all add: e1(1))
  then obtain mc wb s2 where r: "sendInvalidates (hier_invalidate cfg D) (cfg p) p A l INV False cyc src ?s1 = Some (mc, wb, s2)"
    "cyc \<le> mc" "send_post A INV p l {..<?n} (sent_entry INV e1) ?s1 s2" unfolding en by auto
  have kids: "home cfg (cfg_children (cfg p) ! i) A = CacheObj p" if "en_sharers (tcc_entry p l ?s1) i" for i
    using that k(2) by simp
  note R = send_rest [OF p(1) l1 p(3) lok1 nok1 kids r(3) entry_ok_sent [OF e1(1)], unfolded en st1, simplified]
  have notp: "\<not> affected A p e1 {..<?n} p" using k(2,3) by (intro not_affected_self) auto
  have notc: "\<not> affected A p e1 {..<?n} d" if d: "blw A d c" for d
  proof
    assume "affected A p e1 {..<?n} d"
    then obtain i where i: "en_sharers e1 i" "blw A d (cfg_children (cfg p) ! i)" by (auto simp: affected_def)
    have "cfg_children (cfg p) ! i = c" using siblings_disjoint [OF i(2) d k(2) [OF i(1)] c(2)] .
    then show False using k(4) [OF i(1)] sub [OF i(1)] by simp
  qed
  have others: "st s2 d A = I" if d: "d \<in> caches" "home cfg d A = CacheObj p" "d \<noteq> c" for d
  proof (cases "st s d A = I")
    case True
    then show ?thesis using R(3) [OF p(3), of d] by simp
  next
    case False
    then have "en_sharers e1 (cfg_selfId (cfg d))"
      using nok_home(1) [OF n d(1,2)] e(2) e1(2) selfId_eq [OF c(1) d(1) c(2) d(2)] d(3) by auto
    then have "affected A p e1 {..<?n} d"
      unfolding affected_def
      by (intro bexI [of _ "cfg_selfId (cfg d)"]) (use home_cache [OF d(1,2)] below_refl [OF d(1)] in auto)
    then show ?thesis using R(3) [OF p(3), of d] by simp
  qed
  have "frame s s2" using r(3) frame_trans [of s ?s1 s2] by (simp add: send_post_def)
  moreover have "tcc_entry p l s2 = sent_entry INV e1" using r(3) by (simp add: send_post_def)
  ultimately show ?thesis using r(1,2) R(1,2) R(3) [OF p(3)] notp notc others by auto
qed

end

end
