(* ===== verification/Hierarchy_Cache.thy ===== *)
theory Hierarchy_Cache
  imports Hierarchy_Access
begin

text \<open>
  A whole access. The theory puts the controller lemmas together: the exclusive request of a child,
  the access of one cache with its timing records and its locks, and, by induction on the levels,
  the access of the hierarchy.
\<close>

section \<open>Timing records\<close>

text \<open>State and domain of every event: what \<open>addChild\<close> asserts and what it leaves alone.\<close>

definition ev_view :: "ev_heap \<Rightarrow> nat \<Rightarrow> (EventState \<times> int) option" where
  "ev_view h i = map_option (\<lambda>e. (te_state e, te_domain e)) (eh_ev h i)"

lemma ev_view_put [simp]:
  "eh_ev h i = Some e \<Longrightarrow> te_state e' = te_state e \<Longrightarrow> te_domain e' = te_domain e \<Longrightarrow>
   ev_view (ev_put i e' h) = ev_view h"
  by (auto simp: ev_view_def ev_put_def fun_eq_iff)

lemma eh_next_put [simp]: "eh_next (ev_put i e h) = eh_next h"
  by (simp add: ev_put_def)

lemma live_event_view: "live_event h i \<longleftrightarrow> (\<exists>d. ev_view h i = Some (EV_NONE, d))"
  by (auto simp: live_event_def ev_view_def)

lemma heap_ok_view: "heap_ok h \<longleftrightarrow> (\<forall>i\<ge>eh_next h. ev_view h i = None)"
  by (simp add: heap_ok_def ev_view_def)

lemma setMin_ok:
  assumes "ev_view h i = Some v"
  shows "\<exists>h'. setMinStartCycle i c h = Some h' \<and> ev_view h' = ev_view h \<and> eh_next h' = eh_next h"
proof -
  obtain e where "eh_ev h i = Some e" using assms by (auto simp: ev_view_def)
  then show ?thesis by (simp add: setMinStartCycle_def)
qed

lemma addChild_ok:
  assumes "ev_view h this = Some (EV_NONE, -1)" "ev_view h c = Some (EV_NONE, d)"
  shows "\<exists>h'. addChild this c h = Some (c, h') \<and> ev_view h' = ev_view h \<and> eh_next h' = eh_next h"
proof -
  obtain e ce where e: "eh_ev h this = Some e" "te_state e = EV_NONE" "te_domain e = -1"
    "eh_ev h c = Some ce" "te_state ce = EV_NONE" "te_domain ce = d" using assms by (auto simp: ev_view_def)
  define h1 where "h1 = ev_put this (e\<lparr>te_children := link_child (te_numChildren e) c (te_children e),
                            te_numChildren := te_numChildren e + 1\<rparr>) h"
  have v1: "ev_view h1 = ev_view h" "eh_next h1 = eh_next h" using e by (simp_all add: h1_def)
  then have "ev_view h1 c \<noteq> None" using assms(2) by simp
  then obtain ce1 where ce1: "eh_ev h1 c = Some ce1" by (auto simp: ev_view_def)
  have "addChild this c h = Some (c, ev_put c (ce1\<lparr>te_numParents := te_numParents ce1 + 1\<rparr>) h1)"
    using e ce1 by (simp add: addChild_def h1_def Let_def)
  then show ?thesis using ce1 v1 by simp
qed

lemma connect_records_ok:
  assumes "heap_ok h" "live_event h a" "live_event h b"
  shows "\<exists>i h'. connect_records cyc wc a ac b h = Some (i, h') \<and> heap_le h h' \<and> live_event h' i"
proof -
  define n where "n = eh_next h"
  define h3 where "h3 = h\<lparr>eh_ev := (eh_ev h)(n := Some (delay_new 0), n + 1 := Some (delay_new (wc - cyc)),
      n + 2 := Some (delay_new (ac - cyc))), eh_next := n + 3\<rparr>"
  have v3: "ev_view h3 = (ev_view h)(n := Some (EV_NONE, -1), n + 1 := Some (EV_NONE, -1), n + 2 := Some (EV_NONE, -1))"
    by (auto simp: ev_view_def h3_def fun_eq_iff delay_new_def te_new_def)
  have old: "a < n" "b < n" using assms by (auto simp: heap_ok_def live_event_def n_def not_le [symmetric])
  obtain da db where ab: "ev_view h3 a = Some (EV_NONE, da)" "ev_view h3 b = Some (EV_NONE, db)"
    using assms(2,3) old by (auto simp: v3 live_event_view)
  have ns: "ev_view h3 n = Some (EV_NONE, -1)" "ev_view h3 (n + 1) = Some (EV_NONE, -1)" "ev_view h3 (n + 2) = Some (EV_NONE, -1)"
    by (simp_all add: v3)
  obtain h4 where h4: "setMinStartCycle n cyc h3 = Some h4" "ev_view h4 = ev_view h3" "eh_next h4 = eh_next h3"
    using setMin_ok [OF ns(1)] by blast
  obtain h5 where h5: "setMinStartCycle (n + 1) cyc h4 = Some h5" "ev_view h5 = ev_view h3" "eh_next h5 = eh_next h3"
    using setMin_ok [of h4 "n + 1"] h4(2,3) ns by metis
  obtain h6 where h6: "setMinStartCycle (n + 2) cyc h5 = Some h6" "ev_view h6 = ev_view h3" "eh_next h6 = eh_next h3"
    using setMin_ok [of h5 "n + 2"] h5(2,3) ns by metis
  obtain h7 where h7: "addChild n (n + 1) h6 = Some (n + 1, h7)" "ev_view h7 = ev_view h3" "eh_next h7 = eh_next h3"
    using addChild_ok [of h6 n "n + 1"] h6(2,3) ns by metis
  obtain h8 where h8: "addChild (n + 1) a h7 = Some (a, h8)" "ev_view h8 = ev_view h3" "eh_next h8 = eh_next h3"
    using addChild_ok [of h7 "n + 1" a] h7(2,3) ns ab by metis
  obtain h9 where h9: "addChild n (n + 2) h8 = Some (n + 2, h9)" "ev_view h9 = ev_view h3" "eh_next h9 = eh_next h3"
    using addChild_ok [of h8 n "n + 2"] h8(2,3) ns by metis
  obtain h10 where h10: "addChild (n + 2) b h9 = Some (b, h10)" "ev_view h10 = ev_view h3" "eh_next h10 = eh_next h3"
    using addChild_ok [of h9 "n + 2" b] h9(2,3) ns ab by metis
  have al: "ev_alloc (delay_new (ac - cyc)) (snd (ev_alloc (delay_new (wc - cyc)) (snd (ev_alloc (delay_new 0) h)))) = (n + 2, h3)"
    by (simp add: ev_alloc_def h3_def n_def)
  have "connect_records cyc wc a ac b h = Some (n, h10)"
    using h4(1) h5(1) h6(1) h7(1) h8(1) h9(1) h10(1) al
    by (simp add: connect_records_def ev_alloc_def n_def [symmetric] Let_def)
  moreover have "eh_next h3 = n + 3" by (simp add: h3_def)
  then have "heap_le h h10" using assms(1) h10(2,3)
    unfolding heap_le_def heap_ok_view live_event_view by (auto simp: v3 n_def)
  ultimately show ?thesis using h10(2) ns(1) by (auto simp: live_event_view)
qed

context hierarchy
begin

section \<open>Exclusive requests\<close>

lemma set_tcc_same: "set_tcc p l (tcc_entry p l s) s = s"
  by (simp add: set_tcc_def upd_cache_def tcc_entry_def)

lemma getx_entry:
  assumes n: "nok s A p" and p: "p \<in> caches" "line_of cfg tags s p A = Some l" "A \<noteq> 0" and co: "coh s"
    and c: "c \<in> caches" "home cfg c A = CacheObj p" "\<not> excl (st s c A)"
  shows "\<exists>e1. (let e = tcc_entry p l s in if en_sharers e (cfg_selfId (cfg c)) then do {
              assert_that (\<not> en_isExclusive e);
              Some (set_tcc p l (e\<lparr>en_sharers := (en_sharers e)(cfg_selfId (cfg c) := False),
                                   en_numSharers := dec32 (en_numSharers e)\<rparr>) s)
            } else Some s) = Some (set_tcc p l e1 s) \<and> entry_ok (length (cfg_children (cfg p))) e1 \<and>
      en_sharers e1 = (en_sharers (tcc_entry p l s))(cfg_selfId (cfg c) := False)"
proof (cases "en_sharers (tcc_entry p l s) (cfg_selfId (cfg c))")
  case True
  note e = coh_entry [OF co p(1,2)]
  have "\<not> en_isExclusive (tcc_entry p l s)"
    using nok_home(1,4) [OF n c(1,2)] e(2,3) True c(3) by auto
  then show ?thesis using True entry_remove(1) [OF e(1) True few_sharers [OF p(1) e(1)]] by (auto simp: Let_def)
next
  case False
  have "set_tcc p l (tcc_entry p l s) s = s" by (rule set_tcc_same)
  then show ?thesis using False coh_entry(1) [OF co p(1,2)]
    by (intro exI [of _ "tcc_entry p l s"]) (auto simp: Let_def fun_eq_iff)
qed

lemma tcc_getx_ok:
  assumes b: "busy p s" "low_inv (lvl p) s" and p: "p \<in> caches" "line_of cfg tags s p A = Some l" "A \<noteq> 0" "st s p A = M"
    and c: "c \<in> caches" "home cfg c A = CacheObj p" "line_of cfg tags s c A = Some lc" "\<not> excl (st s c A)" and D: "depth \<le> D"
  shows "\<exists>resp wb s'. tcc_getx (hier_invalidate cfg D) (cfg p) p A l (cfg_selfId (cfg c)) (bcc_isExclusive p l s) (Slot c lc)
      False cyc src s = Some (resp, wb, s') \<and> cyc \<le> resp \<and> coh s' \<and> frame s s' \<and>
    st s' c A = M \<and> (wb \<longrightarrow> excl (st s' p A)) \<and> (\<forall>d. blw A d c \<longrightarrow> d \<noteq> c \<longrightarrow> st s' d A = st s d A)"
proof -
  let ?i = "cfg_selfId (cfg c)" and ?n = "length (cfg_children (cfg p))"
  have co: "coh s" using b(1) by (simp add: busy_def)
  have cp: "c \<noteq> p" using child_below [OF p(1) c(1,2)] by simp
  have n: "nok s A p" using coh_nok [OF co p(1,3)] .
  have x: "bcc_isExclusive p l s" using coh_entry(4) [OF co p(1,2)] p(4) by (simp add: bcc_isExclusive_def)
  obtain e1 where e1: "(let e = tcc_entry p l s in if en_sharers e ?i then do {
              assert_that (\<not> en_isExclusive e);
              Some (set_tcc p l (e\<lparr>en_sharers := (en_sharers e)(?i := False),
                                   en_numSharers := dec32 (en_numSharers e)\<rparr>) s)
            } else Some s) = Some (set_tcc p l e1 s)" "entry_ok ?n e1"
      "en_sharers e1 = (en_sharers (tcc_entry p l s))(?i := False)"
    using getx_entry [OF n p(1-3) co c(1,2,4)] by blast
  obtain resp wb s2 where r: "sendInvalidates (hier_invalidate cfg D) (cfg p) p A l INV False cyc src (set_tcc p l e1 s) =
      Some (resp, wb, s2)" "cyc \<le> resp" "frame s s2" "tcc_entry p l s2 = sent_entry INV e1"
    "\<And>q. q \<in> caches \<Longrightarrow> lok s2 q" "\<And>q B. q \<in> caches \<Longrightarrow> B \<noteq> 0 \<Longrightarrow> q \<noteq> p \<or> B \<noteq> A \<Longrightarrow> nok s2 B q"
    "st s2 p A = st s p A" "\<And>d. blw A d c \<Longrightarrow> st s2 d A = st s d A"
    "\<And>d. d \<in> caches \<Longrightarrow> home cfg d A = CacheObj p \<Longrightarrow> d \<noteq> c \<Longrightarrow> st s2 d A = I"
    using getx_invalidate [OF b p(1-3) c(1,2) D e1(2,3), of cyc src] by blast
  let ?e2 = "sent_entry INV e1"
  let ?e3 = "?e2\<lparr>en_sharers := (en_sharers ?e2)(?i := True), en_numSharers := inc32 (en_numSharers ?e2), en_exclusive := True\<rparr>"
  let ?s' = "set_bcc c lc M (set_tcc p l ?e3 s2)"
  have one: "inc32 0 = 1" by (simp add: inc32_def)
  have l2: "line_of cfg tags s2 p A = Some l" "line_of cfg tags s2 c A = Some lc" using frame_line_of [OF r(3)] p(2) c(3) by simp_all
  have ok: "entry_ok ?n ?e3" using entry_add [OF entry_ok_sent [OF e1(2), of INV], of ?i True] home_cache(3) [OF c(1,2)] by simp
  have v: "en_isExclusive ?e3 = True" "en_sharers ?e3 = (\<lambda>_. False)(?i := True)" by (simp_all add: en_isExclusive_def one)
  have "coh ?s'"
  proof (rule coh_grant [OF r(5,6) p(1) l2(1) p(3) c(1,2) l2(2) _ ok], unfold v)
    show "\<not> ((\<lambda>_. False)(?i := True)) j" if "j < ?n" "home cfg (cfg_children (cfg p) ! j) A \<noteq> CacheObj p" for j
      using that(2) home_cache(4) [OF c(1,2)] c(2) by auto
    show "(((\<lambda>_. False)(?i := True)) (cfg_selfId (cfg d)) \<longleftrightarrow> st s2 d A \<noteq> I) \<and> (st s2 d A \<noteq> I \<longrightarrow> st s2 p A \<noteq> I) \<and>
      (excl (st s2 d A) \<longrightarrow> True \<and> excl (st s2 p A)) \<and> (True \<and> st s2 d A \<noteq> I \<longrightarrow> excl (st s2 d A))"
      if d: "d \<in> caches" "home cfg d A = CacheObj p" "d \<noteq> c" for d
      using r(9) [OF d] selfId_eq [OF c(1) d(1) c(2) d(2)] d(3) by (auto simp: excl_def)
  qed (use r(7) p(4) in \<open>simp_all add: excl_def\<close>)
  moreover have "frame s ?s'" using frame_trans [OF r(3)] frame_trans [of s2 "set_tcc p l ?e3 s2" ?s'] by simp
  moreover have "st ?s' d B = (if d = c \<and> B = A then M else st s2 d B)" for d B using grant_state [OF l2(2)] .
  moreover have "tcc_getx (hier_invalidate cfg D) (cfg p) p A l ?i (bcc_isExclusive p l s) (Slot c lc) False cyc src s =
      Some (resp, wb, ?s')"
    using x e1(1) r(1,4) by (simp add: tcc_getx_def Let_def one)
  ultimately show ?thesis using r(2,7,8) cp p(4) by (simp add: excl_def)
qed

section \<open>The controller of a cache with children\<close>

text \<open>The request of child \<open>c\<close>, after the bottom controller of \<open>p\<close> has brought in the line.\<close>

lemma tcc_access_ok:
  assumes b: "busy p s" "IsGet ty \<Longrightarrow> low_inv (lvl p) s"
    and p: "p \<in> caches" "line_of cfg tags s p A = Some l" "A \<noteq> 0" "st s p A \<noteq> I" "ty = GETX \<Longrightarrow> st s p A = M"
    and c: "c \<in> caches" "home cfg c A = CacheObj p" "line_of cfg tags s c A = Some lc" "may_ask ty (st s c A)" and D: "depth \<le> D"
    and put: "IsPut ty \<Longrightarrow> \<not> has_flag flags PUTX_KEEPEXCL"
      "\<And>d. IsPut ty \<Longrightarrow> blw A d c \<Longrightarrow> d \<noteq> c \<Longrightarrow> st s d A = I"
  shows "\<exists>resp wb s'. tcc_processAccess (hier_invalidate cfg D) (cfg p) p A l ty (cfg_selfId (cfg c)) (bcc_isExclusive p l s)
      (Slot c lc) False cyc src flags s = Some (resp, wb, s') \<and> cyc \<le> resp \<and> coh s' \<and> frame s s' \<and>
    granted ty (st s' c A) \<and> (wb \<longrightarrow> excl (st s' p A)) \<and>
    (IsGet ty \<longrightarrow> (\<forall>d. blw A d c \<longrightarrow> d \<noteq> c \<longrightarrow> st s' d A = st s d A)) \<and>
    (IsPut ty \<longrightarrow> \<not> wb \<and> (\<forall>d B. \<not> (d = c \<and> B = A) \<longrightarrow> st s' d B = st s d B))"
proof -
  have co: "coh s" using b(1) by (simp add: busy_def)
  show ?thesis
  proof (cases ty)
    case GETS
    then show ?thesis using tcc_gets_ok [OF b(1) _ p(1-4) c(1-3) _ D, of cyc src flags] b(2) c(4)
      by (auto simp: tcc_processAccess_def)
  next
    case GETX
    then show ?thesis using tcc_getx_ok [OF b(1) _ p(1-3) _ c(1-3) _ D, of cyc src] b(2) c(4) p(5)
      by (auto simp: tcc_processAccess_def excl_def)
  next
    case PUTS
    then have "st s c A \<noteq> I" using c(4) by auto
    then show ?thesis using tcc_put_ok [OF co p(1-3) c(1-3)] put(2) PUTS by (auto simp: tcc_processAccess_def)
  next
    case PUTX
    then have m: "st s c A = M" using c(4) by simp
    then have "en_isExclusive (tcc_entry p l s)"
      using nok_home(3) [OF coh_nok [OF co p(1,3)] c(1,2)] coh_entry(3) [OF co p(1,2)] by (simp add: excl_def)
    then show ?thesis using tcc_put_ok [OF co p(1-3) c(1-3)] put PUTX m by (auto simp: tcc_processAccess_def Let_def)
  qed
qed

lemma writeback_ok:
  assumes "coh s" "p \<in> caches" "line_of cfg tags s p A = Some l" "A \<noteq> 0" "wb \<longrightarrow> excl (st s p A)"
  shows "\<exists>s'. (if wb then bcc_processWritebackOnAccess p l s else Some s) = Some s' \<and> coh s' \<and> frame s s' \<and>
    (\<forall>d B. d \<noteq> p \<longrightarrow> st s' d B = st s d B) \<and> (\<not> wb \<longrightarrow> s' = s)"
proof (cases wb)
  case True
  have x: "bcc_state p l s = st s p A" using assms(3) by (simp add: line_state_def)
  let ?s = "if bcc_state p l s = E then set_bcc p l M s else s"
  have "bcc_processWritebackOnAccess p l s = Some ?s"
    using assms(5) True x by (auto simp: bcc_processWritebackOnAccess_def excl_def)
  moreover have "coh ?s" using assms coh_upgrade [OF assms(1-4), of M] True by (auto simp: excl_def)
  moreover have "frame s ?s" by simp
  moreover have "\<forall>d B. d \<noteq> p \<longrightarrow> st ?s d B = st s d B" using set_bcc_state [OF assms(3)] by auto
  ultimately show ?thesis using True by auto
qed (use assms(1) in auto)

lemma mesi_access_ok:
  fixes req :: MemReq
  defines "A \<equiv> req_lineAddr req" and "ty \<equiv> req_type req" and "src \<equiv> req_srcId req"
  assumes acc: "acc_spec acc (home cfg p A)" and D: "depth \<le> D" and b: "busy p s"
    and low: "IsGet ty \<Longrightarrow> low_inv (lvl p) s \<and> ainv p (arr s p)"
    and p: "p \<in> caches" "line_of cfg tags s p A = Some l" "A \<noteq> 0"
    and c: "c \<in> caches" "home cfg c A = CacheObj p" "line_of cfg tags s c A = Some lc" "may_ask ty (st s c A)"
    and rq: "req_childId req = cfg_selfId (cfg c)" "req_state req = Slot c lc" "\<not> has_flag (req_flags req) PREFETCH"
    and put: "IsPut ty \<Longrightarrow> \<not> has_flag (req_flags req) PUTX_KEEPEXCL"
      "\<And>d. IsPut ty \<Longrightarrow> blw A d c \<Longrightarrow> d \<noteq> c \<Longrightarrow> st s d A = I"
    and rec: "rec_none (s_evRecs s src)"
  shows "\<exists>resp s'. mesi_processAccess acc (hier_invalidate cfg D) (cfg p) p req (Some l) cyc s = Some (resp, s') \<and>
    cyc \<le> resp \<and> busy p s' \<and> keeps src p s s' \<and> arr s' p = arr s p \<and> granted ty (st s' c A) \<and>
    rec_ok cyc (s_heap s') (s_evRecs s' src) \<and>
    (IsGet ty \<longrightarrow> (\<forall>d. blw A d c \<longrightarrow> d \<noteq> c \<longrightarrow> st s' d A = st s d A)) \<and>
    (IsPut ty \<longrightarrow> (\<forall>d B. B \<noteq> 0 \<longrightarrow> B \<noteq> A \<longrightarrow> st s' d B = st s d B))"
proof -
  have co: "coh s" using b by (simp add: busy_def)
  note nh = nok_home [OF coh_nok [OF co p(1,3)] c(1,2)]
  have cb: "blw A c p" "c \<noteq> p" "lvl c < lvl p" using child_below [OF p(1) c(1,2)] home_cache(5) [OF c(1,2)] by auto
  have pst: "IsPut ty \<Longrightarrow> st s p A \<noteq> I" "ty = PUTX \<Longrightarrow> excl (st s p A)"
    using nh(2,3) c(4) by (cases ty, auto simp: excl_def)+
  obtain r1 s1 where a: "bcc_processAccess acc (cfg p) p A l ty cyc src (req_flags req) s = Some (r1, s1)" "cyc \<le> r1"
    "busy p s1" "keeps src p s s1" "arr s1 p = arr s p" "line_of cfg tags s1 p A = Some l" "st s1 p A \<noteq> I"
    "ty = GETX \<or> ty = PUTX \<longrightarrow> st s1 p A = M" "rec_ok cyc (s_heap s1) (s_evRecs s1 src)"
    "\<forall>d. blw A d p \<longrightarrow> d \<noteq> p \<longrightarrow> st s1 d A = st s d A"
    "IsPut ty \<longrightarrow> (\<forall>d B. B \<noteq> 0 \<longrightarrow> B \<noteq> A \<longrightarrow> st s1 d B = st s d B)"
    using bcc_access_ok [OF acc p(1) b low p(2,3) rq(3) rec, where ty = ty and cyc = cyc] pst by (cases ty) auto
  have sub: "st s1 d A = st s d A" if "blw A d c" for d
    using a(10) below_child [OF c(1,2) that] below_lvl [OF that] cb(3) by auto
  have l1: "line_of cfg tags s1 c A = Some lc"
    using a(4) c(1,3) cb by (simp add: keeps_def line_of_def)
  have low1: "IsGet ty \<Longrightarrow> low_inv (lvl p) s1" using low keeps_low a(4) by blast
  obtain r2 wb s2 where t: "tcc_processAccess (hier_invalidate cfg D) (cfg p) p A l ty (cfg_selfId (cfg c)) (bcc_isExclusive p l s1)
      (Slot c lc) False r1 src (req_flags req) s1 = Some (r2, wb, s2)" "r1 \<le> r2" "coh s2" "frame s1 s2"
    "granted ty (st s2 c A)" "wb \<longrightarrow> excl (st s2 p A)"
    "IsGet ty \<longrightarrow> (\<forall>d. blw A d c \<longrightarrow> d \<noteq> c \<longrightarrow> st s2 d A = st s1 d A)"
    "IsPut ty \<longrightarrow> \<not> wb \<and> (\<forall>d B. \<not> (d = c \<and> B = A) \<longrightarrow> st s2 d B = st s1 d B)"
    using tcc_access_ok [OF a(3) low1 p(1) a(6) p(3) a(7) _ c(1,2) l1 _ D put(1), where ty = ty and cyc = r1 and src = src] a(8) c(4) put(2)
      sub [OF below_refl [OF c(1)]] sub by auto
  have l2: "line_of cfg tags s2 p A = Some l" using frame_line_of [OF t(4)] a(6) by simp
  obtain s3 where w: "(if wb then bcc_processWritebackOnAccess p l s2 else Some s2) = Some s3" "coh s3" "frame s2 s3"
    "\<forall>d B. d \<noteq> p \<longrightarrow> st s3 d B = st s2 d B" "\<not> wb \<longrightarrow> s3 = s2"
    using writeback_ok [OF t(3) p(1) l2 p(3) t(6)] by blast
  have fr: "frame s1 s3" using frame_trans [OF t(4) w(3)] .
  have k: "keeps src p s1 s3" using frame_keeps [OF fr] .
  have np: "d \<noteq> p" if "blw A d c" for d using below_lvl [OF that] cb(3) by auto
  have val: "\<not> ((ty = PUTS \<or> ty = PUTX) \<and> \<not> bcc_isValid p l s)"
    using pst(1) coh_entry(4) [OF co p(1,2)] by (auto simp: bcc_isValid_def)
  have fl: "req_flags req AND NOT PREFETCH = req_flags req" using clear_PREFETCH rq(3) by blast
  have "mesi_processAccess acc (hier_invalidate cfg D) (cfg p) p req (Some l) cyc s = Some (r2, s3)"
    using val a(1) t(1) w(1) rq unfolding mesi_processAccess_def A_def ty_def src_def by (simp add: fl Let_def) blast
  moreover have "busy p s3" using keeps_busy [OF a(3) k w(2)] .
  moreover have "rec_ok cyc (s_heap s3) (s_evRecs s3 src)" using a(9) fr by (simp add: frame_def)
  moreover have "arr s3 p = arr s p" using a(5) fr by (simp add: frame_def)
  moreover have "IsGet ty \<longrightarrow> (\<forall>d. blw A d c \<longrightarrow> d \<noteq> c \<longrightarrow> st s3 d A = st s d A)" using w(4) np t(7) sub by simp
  moreover have "IsPut ty \<longrightarrow> (\<forall>d B. B \<noteq> 0 \<longrightarrow> B \<noteq> A \<longrightarrow> st s3 d B = st s d B)" using w(5) t(8) a(11) by auto
  ultimately show ?thesis using a(2) t(2,5) w(4) cb(2) keeps_trans [OF a(4) k] by auto
qed

section \<open>Record steps\<close>

definition recs_only :: "nat \<Rightarrow> ('a, 'm) sys \<Rightarrow> ('a, 'm) sys \<Rightarrow> bool" where
  "recs_only src s s' \<longleftrightarrow> s_caches s' = s_caches s \<and> s_mems s' = s_mems s \<and> s_out s' = s_out s \<and>
     s_outLocks s' = s_outLocks s \<and> (\<forall>x. x \<noteq> src \<longrightarrow> s_evRecs s' x = s_evRecs s x) \<and>
     (s_evRecs s' src = None \<longleftrightarrow> s_evRecs s src = None) \<and> (heap_ok (s_heap s) \<longrightarrow> heap_le (s_heap s) (s_heap s'))"

lemma recs_only_view:
  assumes "recs_only src s s'"
  shows "st s' = st s" "line_of cfg tags s' = line_of cfg tags s" "coh s' = coh s" "arr s' = arr s" "keeps src p s s'"
proof -
  have c: "s_caches s' = s_caches s" using assms by (simp add: recs_only_def)
  then have v: "same_cache tags s s' q" for q by (simp add: same_cache_def)
  note w = same_cache_view [OF v]
  show "st s' = st s" "line_of cfg tags s' = line_of cfg tags s" using w(1,2) by (simp_all add: fun_eq_iff)
  have "nok s' B q = nok s B q" for B q using w by (simp add: node_ok_def)
  then show "coh s' = coh s" using w(5) by (simp add: coherent_def)
  show "arr s' = arr s" using c by simp
  show "keeps src p s s'" using assms by (auto simp: keeps_def recs_only_def)
qed

text \<open>The record of a writeback that \<open>take_record\<close> has taken out of the recorder.\<close>

definition wb_rec :: "nat \<Rightarrow> nat \<Rightarrow> TimingRecord option \<Rightarrow> ('a, 'm) sys \<Rightarrow> bool" where
  "wb_rec cyc src wbAcc s \<longleftrightarrow> (case wbAcc of None \<Rightarrow> True
     | Some wb \<Rightarrow> s_evRecs s src \<noteq> None \<and>
         (\<exists>i. tr_startEvent wb = Some i \<and> live_event (s_heap s) i \<and> cyc \<le> tr_reqCycle wb))"

lemma take_record_ok:
  assumes "rec_ok cyc (s_heap s) (s_evRecs s src)" "heap_ok (s_heap s)"
  shows "\<exists>wbAcc s'. take_record src s = (wbAcc, s') \<and> recs_only src s s' \<and> wb_rec cyc src wbAcc s' \<and>
    rec_none (s_evRecs s' src)"
  using assms
  by (auto simp: take_record_def set_rec_def popRecord_def recs_only_def wb_rec_def rec_none_def rec_ok_def hasRecord_def
    tr_isValid_def tr_clear_def split: option.splits)

lemma wb_rec_keeps: "wb_rec cyc src w s \<Longrightarrow> keeps src p s s' \<Longrightarrow> heap_ok (s_heap s) \<Longrightarrow> wb_rec cyc src w s'"
  by (auto simp: wb_rec_def keeps_def heap_le_def split: option.splits)

lemma stitch_ok:
  assumes "rec_ok cyc (s_heap s) (s_evRecs s src)" "heap_ok (s_heap s)" "wb_rec cyc src wbAcc s"
  shows "\<exists>s'. stitch_records cyc src wbAcc s = Some s' \<and> recs_only src s s' \<and>
    rec_ok cyc (s_heap s') (s_evRecs s' src)"
proof (cases wbAcc)
  case None
  then show ?thesis using assms by (simp add: stitch_records_def recs_only_def)
next
  case (Some wb)
  then obtain er i where w: "s_evRecs s src = Some er" "tr_startEvent wb = Some i" "live_event (s_heap s) i" "cyc \<le> tr_reqCycle wb"
    using assms(3) by (auto simp: wb_rec_def)
  show ?thesis
  proof (cases "tr_startEvent (er_tr er)")
    case None
    then show ?thesis using w Some assms(2)
      by (auto simp: stitch_records_def hasRecord_def tr_isValid_def pushRecord_def set_rec_def recs_only_def rec_ok_def)
  next
    case k: (Some j)
    then have j: "live_event (s_heap s) j" "cyc \<le> tr_reqCycle (er_tr er)" using assms(1) w(1) by (auto simp: rec_ok_def)
    obtain n h where h: "connect_records cyc (tr_reqCycle wb) i (tr_reqCycle (er_tr er)) j (s_heap s) = Some (n, h)"
      "heap_le (s_heap s) h" "live_event h n"
      using connect_records_ok [OF assms(2) w(3) j(1)] by blast
    show ?thesis using w Some k j h
      by (auto simp: stitch_records_def hasRecord_def tr_isValid_def pushRecord_def popRecord_def tr_clear_def set_rec_def
        recs_only_def rec_ok_def)
  qed
qed

section \<open>Finding or allocating the line\<close>

lemma lookup_ok:
  assumes p: "p \<in> caches" "ainv p (arr s p)" "A \<noteq> 0" and b: "busy p s" and u: "upd \<Longrightarrow> IsGet (req_type rq)"
  shows "\<exists>a. ca_lookup (cfg_ops (cfg p)) A (Some rq) upd (arr s p) = Some (line_of cfg tags s p A, a) \<and>
    ainv p a \<and> tags a = tags (arr s p)"
proof -
  note ca = arrays [OF p(1)]
  have co: "coh s" using b by (simp add: busy_def)
  obtain r a where r: "ca_lookup (cfg_ops (cfg p)) A (Some rq) upd (arr s p) = Some (r, a)" "ainv p a" "tags a = tags (arr s p)"
    using cache_array.lookup_peek [OF ca p(2,3), of "Some rq"] cache_array.lookup_touch [OF ca p(2,3), of rq] u p(2)
    by (cases upd) auto
  have "r = Some i \<longleftrightarrow> line_of cfg tags s p A = Some i" for i
    using cache_array.lookup_line [OF ca p(2,3) r(1)] line_of_iff [OF coh_lok [OF co p(1)] p(3)] by simp
  then have "r = line_of cfg tags s p A" by (metis not_None_eq)
  then show ?thesis using r by blast
qed

lemma should_allocate: "p \<in> caches \<Longrightarrow> IsGet (req_type rq) \<Longrightarrow> cc_shouldAllocate (cfg p) rq = Some True"
  by (simp add: cc_shouldAllocate_def mesi_shouldAllocate_def IsGet_def)

lemma fill_ok:
  fixes rq :: MemReq
  defines "A \<equiv> req_lineAddr rq" and "ty \<equiv> req_type rq" and "src \<equiv> req_srcId rq"
  assumes acc: "\<And>B. acc_spec acc (home cfg p B)" and D: "depth \<le> D" and p: "p \<in> caches" "ainv p (arr s p)" "A \<noteq> 0"
    and b: "busy p s" "IsGet ty \<Longrightarrow> low_inv (lvl p) s" and put: "IsPut ty \<Longrightarrow> line_of cfg tags s p A \<noteq> None"
    and rec: "rec_none (s_evRecs s src)"
  shows "\<exists>a l s3 w s4. ca_lookup (cfg_ops (cfg p)) A (Some rq) (ty = GETS \<or> ty = GETX) (arr s p) = Some (line_of cfg tags s p A, a) \<and>
    (case line_of cfg tags s p A of
       Some l \<Rightarrow> Some (Some l, set_array p a s)
     | None \<Rightarrow> do {
         alloc \<leftarrow> cc_shouldAllocate (cfg p) rq;
         if alloc then do {
           (l, s3) \<leftarrow> cache_allocate acc (hier_invalidate cfg D) (cfg p) p rq cyc (set_array p a s);
           Some (Some l, s3)
         } else Some (None, set_array p a s)
       }) = Some (Some l, s3) \<and>
    take_record src s3 = (w, s4) \<and> busy p s4 \<and> keeps src p s s4 \<and> ainv p (arr s4 p) \<and>
    line_of cfg tags s4 p A = Some l \<and> (\<forall>d. st s4 d A = st s d A) \<and>
    (IsPut ty \<longrightarrow> (\<forall>d B. st s4 d B = st s d B)) \<and> wb_rec cyc src w s4 \<and> rec_none (s_evRecs s4 src)"
proof -
  obtain a where a: "ca_lookup (cfg_ops (cfg p)) A (Some rq) (ty = GETS \<or> ty = GETX) (arr s p) = Some (line_of cfg tags s p A, a)"
    "ainv p a" "tags a = tags (arr s p)"
    using lookup_ok [OF p b(1), of "ty = GETS \<or> ty = GETX" rq] by (auto simp: ty_def IsGet_def)
  let ?s2 = "set_array p a s"
  have co: "coh s" using b(1) by (simp add: busy_def)
  note c2 = coh_set_array [OF co a(3)]
  have b2: "busy p ?s2" using keeps_busy [OF b(1) keeps_set_array c2(1)] .
  have r2: "s_evRecs ?s2 = s_evRecs s" "arr ?s2 p = a" by simp_all
  have "\<exists>l s3. (case line_of cfg tags s p A of
       Some l \<Rightarrow> Some (Some l, ?s2)
     | None \<Rightarrow> do {
         alloc \<leftarrow> cc_shouldAllocate (cfg p) rq;
         if alloc then do {
           (l, s3) \<leftarrow> cache_allocate acc (hier_invalidate cfg D) (cfg p) p rq cyc ?s2;
           Some (Some l, s3)
         } else Some (None, ?s2)
       }) = Some (Some l, s3) \<and> busy p s3 \<and> keeps src p ?s2 s3 \<and> ainv p (arr s3 p) \<and> line_of cfg tags s3 p A = Some l \<and>
      (\<forall>d. st s3 d A = st s d A) \<and> (IsPut ty \<longrightarrow> s3 = ?s2) \<and> rec_ok cyc (s_heap s3) (s_evRecs s3 src)"
  proof (cases "line_of cfg tags s p A")
    case None
    then have g: "IsGet (req_type rq)" using put by (auto simp: IsPut_iff ty_def)
    have m: "line_of cfg tags ?s2 p A = None" using c2(3) None by simp
    have rn: "rec_none (s_evRecs ?s2 (req_srcId rq))" and ai: "ainv p (arr ?s2 p)" using rec a(2) r2 by (simp_all add: src_def)
    have lo: "low_inv (lvl p) ?s2" using keeps_low [OF b(2) keeps_set_array] g by (simp add: ty_def)
    show ?thesis
      using allocate_ok [OF acc p(1) b2 lo D ai _ p(3) m g rn, of cyc] should_allocate [OF p(1) g] None g c2(2)
      by (auto simp: A_def src_def ty_def IsPut_iff)
  next
    case (Some l)
    then show ?thesis using b2 c2(2,3) a(2) rec by simp
  qed
  then obtain l s3 where l: "(case line_of cfg tags s p A of
       Some l \<Rightarrow> Some (Some l, ?s2)
     | None \<Rightarrow> do {
         alloc \<leftarrow> cc_shouldAllocate (cfg p) rq;
         if alloc then do {
           (l, s3) \<leftarrow> cache_allocate acc (hier_invalidate cfg D) (cfg p) p rq cyc ?s2;
           Some (Some l, s3)
         } else Some (None, ?s2)
       }) = Some (Some l, s3)" "busy p s3" "keeps src p ?s2 s3" "ainv p (arr s3 p)" "line_of cfg tags s3 p A = Some l"
      "\<forall>d. st s3 d A = st s d A" "IsPut ty \<longrightarrow> s3 = ?s2" "rec_ok cyc (s_heap s3) (s_evRecs s3 src)" by blast
  obtain w s4 where t: "take_record src s3 = (w, s4)" "recs_only src s3 s4" "wb_rec cyc src w s4" "rec_none (s_evRecs s4 src)"
    using take_record_ok [OF l(8)] l(2) by (auto simp: busy_def)
  note v = recs_only_view [OF t(2)]
  have "busy p s4" using keeps_busy [OF l(2) v(5)] v(3) l(2) by (simp add: busy_def)
  moreover have "keeps src p s s4" using keeps_trans [OF keeps_set_array keeps_trans [OF l(3) v(5)]] .
  moreover have "ainv p (arr s4 p)" using l(4) fun_cong [OF v(4), of p] by simp
  ultimately show ?thesis using a(1) l t v(1,2) c2(2) by auto
qed

section \<open>Locks\<close>

lemma wb_rec_mono: "wb_rec cyc src w s \<Longrightarrow> cyc' \<le> cyc \<Longrightarrow> wb_rec cyc' src w s"
  by (auto simp: wb_rec_def split: option.splits)

lemma locks_view:
  assumes "\<And>q. cs_array (s_caches s' q) = cs_array (s_caches s q) \<and> cs_bcc (s_caches s' q) = cs_bcc (s_caches s q) \<and>
      cs_tcc (s_caches s' q) = cs_tcc (s_caches s q)"
  shows "st s' = st s" "line_of cfg tags s' = line_of cfg tags s" "coh s' = coh s"
proof -
  have v: "same_cache tags s s' q" for q using assms by (simp add: same_cache_def)
  note w = same_cache_view [OF v]
  show "st s' = st s" "line_of cfg tags s' = line_of cfg tags s" using w(1,2) by (simp_all add: fun_eq_iff)
  have "nok s' B q = nok s B q" for B q using w by (simp add: node_ok_def)
  then show "coh s' = coh s" using w(5) by (simp add: coherent_def)
qed

definition enter :: "nat \<Rightarrow> nat \<Rightarrow> ('a, 'm) sys \<Rightarrow> ('a, 'm) sys" where
  "enter p c s = upd_cache p (\<lambda>k. k\<lparr>cs_bccLock := True\<rparr>) (upd_cache p (\<lambda>k. k\<lparr>cs_tccLock := True\<rparr>)
     (upd_cache c (\<lambda>k. k\<lparr>cs_bccLock := False\<rparr>) s))"

definition leave :: "nat \<Rightarrow> nat \<Rightarrow> ('a, 'm) sys \<Rightarrow> ('a, 'm) sys" where
  "leave p c s = upd_cache p (\<lambda>k. k\<lparr>cs_tccLock := False\<rparr>) (upd_cache p (\<lambda>k. k\<lparr>cs_bccLock := False\<rparr>)
     (upd_cache c (\<lambda>k. k\<lparr>cs_bccLock := True\<rparr>) s))"

lemma enter_simps [simp]:
  "st (enter p c s) = st s" "line_of cfg tags (enter p c s) = line_of cfg tags s" "coh (enter p c s) = coh s"
  "arr (enter p c s) q = arr s q" "bcc_state q l (enter p c s) = bcc_state q l s"
  "s_mems (enter p c s) = s_mems s" "s_heap (enter p c s) = s_heap s" "s_evRecs (enter p c s) = s_evRecs s"
  "s_out (enter p c s) = s_out s" "s_outLocks (enter p c s) = s_outLocks s"
  by (rule locks_view, simp add: enter_def)+ (simp_all add: enter_def bcc_state_def)

lemma leave_simps [simp]:
  "st (leave p c s) = st s" "line_of cfg tags (leave p c s) = line_of cfg tags s" "coh (leave p c s) = coh s"
  "arr (leave p c s) q = arr s q"
  "s_mems (leave p c s) = s_mems s" "s_heap (leave p c s) = s_heap s" "s_evRecs (leave p c s) = s_evRecs s"
  "s_out (leave p c s) = s_out s" "s_outLocks (leave p c s) = s_outLocks s"
  by (rule locks_view, simp add: leave_def)+ (simp_all add: leave_def)

lemma enter_busy:
  assumes "c \<in> caches" "busy c s" "p \<in> caches" "lvl c < lvl p"
  shows "busy p (enter p c s)" "ainv p (arr s p)" "\<not> cs_bccLock (s_caches s p)" "\<not> cs_tccLock (s_caches s p)"
    "cs_bccLock (s_caches s c)"
proof -
  have cp: "c \<noteq> p" using assms(4) by auto
  then show "ainv p (arr s p)" "\<not> cs_bccLock (s_caches s p)" "\<not> cs_tccLock (s_caches s p)" "cs_bccLock (s_caches s c)"
    using assms by (auto simp: busy_def)
  have "cs_bccLock (s_caches (enter p c s) q) = (q = p \<or> q \<noteq> c \<and> cs_bccLock (s_caches s q))"
    "cs_tccLock (s_caches (enter p c s) q) = (q = p \<or> cs_tccLock (s_caches s q))" for q
    using cp by (auto simp: enter_def)
  then show "busy p (enter p c s)" using assms unfolding busy_def by auto
qed

lemma start_ok:
  assumes "acc_pre (CacheObj p) c lc req s"
  shows "p \<in> caches" "\<not> cfg_terminal (cfg p)" "lvl c < lvl p" "mesi_startAccess p req s = Some (False, req, enter p c s)"
proof -
  have c: "c \<in> caches" "busy c s" "home cfg c (req_lineAddr req) = CacheObj p" using assms by (auto simp: acc_pre_def)
  show h: "p \<in> caches" "\<not> cfg_terminal (cfg p)" "lvl c < lvl p" using home_cache [OF c(1,3)] by auto
  note e = enter_busy [OF c(1,2) h(1,3)]
  have cp: "c \<noteq> p" using h(3) by auto
  have i: "req_initialState req = bcc_state c lc s" "req_state req = Slot c lc" "req_childLock req = Some (BccLock c)"
    using assms by (auto simp: acc_pre_def)
  have t: "tcc_lock p (unlock_child req s) =
      Some (upd_cache p (\<lambda>k. k\<lparr>cs_tccLock := True\<rparr>) (upd_cache c (\<lambda>k. k\<lparr>cs_bccLock := False\<rparr>) s))"
    using e(4) cp i(3) by (simp add: tcc_lock_def unlock_child_def)
  have f: "futex_lock (BccLock p) (upd_cache p (\<lambda>k. k\<lparr>cs_tccLock := True\<rparr>) (upd_cache c (\<lambda>k. k\<lparr>cs_bccLock := False\<rparr>) s)) =
      Some (enter p c s)"
    using e(3) cp by (simp add: enter_def)
  have "req_type req = GETS \<or> req_type req = GETX \<or> req_type req = PUTS \<or> req_type req = PUTX" by (cases "req_type req") auto
  then show "mesi_startAccess p req s = Some (False, req, enter p c s)"
    using t f i by (simp add: mesi_startAccess_def CheckForMESIRace_def)
qed

lemma end_ok:
  assumes "req_childLock req = Some (BccLock c)" "\<not> cs_bccLock (s_caches s c)" "c \<noteq> p"
  shows "mesi_endAccess p req s = Some (leave p c s)"
  using assms by (simp add: mesi_endAccess_def lock_child_def leave_def tcc_unlock_def)

lemma leave_keeps:
  assumes e: "c \<in> caches" "busy c s" "p \<in> caches" "lvl c < lvl p" and k: "keeps src p (enter p c s) s6" "ainv p (arr s6 p)"
  shows "keeps src c s (leave p c s6)" "arr s6 c = arr s c" "\<not> cs_bccLock (s_caches s6 c)"
proof -
  note b = enter_busy [OF e]
  have cp: "c \<noteq> p" using e(4) by auto
  have l6: "cs_bccLock (s_caches s6 q) = (q = p \<or> q \<noteq> c \<and> cs_bccLock (s_caches s q))"
    "cs_tccLock (s_caches s6 q) = (q = p \<or> cs_tccLock (s_caches s q))" for q
    using k(1) cp unfolding keeps_def by (simp_all add: enter_def)
  show "\<not> cs_bccLock (s_caches s6 c)" using l6 cp by simp
  have l7: "cs_bccLock (s_caches (leave p c s6) q) = (q = c \<or> q \<noteq> p \<and> cs_bccLock (s_caches s6 q))"
    "cs_tccLock (s_caches (leave p c s6) q) = (q \<noteq> p \<and> cs_tccLock (s_caches s6 q))" for q
    using cp by (auto simp: leave_def)
  have lk: "cs_bccLock (s_caches (leave p c s6) q) = cs_bccLock (s_caches s q)"
    "cs_tccLock (s_caches (leave p c s6) q) = cs_tccLock (s_caches s q)" for q
    using l6 l7 b(3-5) cp by auto
  have same: "arr s6 q = arr s q" if "q \<in> caches" "q \<noteq> p" "lvl q \<le> lvl p" for q
    using k(1) that unfolding keeps_def by simp
  then show "arr s6 c = arr s c" using e cp by simp
  have low: "arr s6 q = arr s q" if "q \<in> caches" "lvl q \<le> lvl c" for q
    using same [of q] that e(4) by (cases "q = p") auto
  have up: "ainv q (arr s6 q)" if "q \<in> caches" "ainv q (arr s q)" for q
    using k that same [of q] unfolding keeps_def by (cases "q = p"; cases "lvl q \<le> lvl p") auto
  show "keeps src c s (leave p c s6)"
    using k(1) lk low up unfolding keeps_def by simp
qed

section \<open>The access of a cache\<close>

lemma child_access_ok:
  assumes acc: "\<And>B. acc_spec acc (home cfg p B)" and D: "depth \<le> D" and pre: "acc_pre (CacheObj p) c lc req s"
  shows "\<exists>resp s'. cache_access acc (hier_invalidate cfg D) (cfg p) p req s = Some (resp, s') \<and> acc_post c req s resp s'"
proof -
  let ?A = "req_lineAddr req" and ?ty = "req_type req" and ?src = "req_srcId req"
  let ?cyc = "req_cycle req + cfg_accLat (cfg p)" and ?s1 = "enter p c s"
  have c: "c \<in> caches" "busy c s" "home cfg c ?A = CacheObj p" "line_of cfg tags s c ?A = Some lc" "?A \<noteq> 0"
    and rq: "req_state req = Slot c lc" "req_childLock req = Some (BccLock c)" "req_childId req = cfg_selfId (cfg c)"
      "\<not> has_flag (req_flags req) PREFETCH" and rec: "rec_none (s_evRecs s ?src)"
    and put: "IsPut ?ty \<Longrightarrow> \<not> has_flag (req_flags req) PUTX_KEEPEXCL"
      "\<And>d. IsPut ?ty \<Longrightarrow> blw ?A d c \<Longrightarrow> d \<noteq> c \<Longrightarrow> st s d ?A = I" and get: "IsGet ?ty \<Longrightarrow> low_inv (lvl p) s"
    using pre by (auto simp: acc_pre_def)
  have ask: "may_ask ?ty (st s c ?A)" using pre c(4) by (auto simp: acc_pre_def line_state_def)
  note p = start_ok [OF pre]
  note e = enter_busy [OF c(1,2) p(1,3)]
  have cp: "c \<noteq> p" using p(3) by auto
  have low: "IsGet ?ty \<Longrightarrow> low_inv (lvl p) ?s1" using get by (simp add: low_inv_def)
  have co: "coh s" using c(2) by (simp add: busy_def)
  have line: "IsPut ?ty \<Longrightarrow> line_of cfg tags ?s1 p ?A \<noteq> None"
    using nok_home(2) [OF coh_nok [OF co p(1) c(5)] c(1,3)] ask by (cases ?ty) (auto simp: line_state_def split: option.splits)
  have ai: "ainv p (arr ?s1 p)" "rec_none (s_evRecs ?s1 ?src)" using e(2) rec by simp_all
  obtain a l s3 w s4 where f: "ca_lookup (cfg_ops (cfg p)) ?A (Some req) (?ty = GETS \<or> ?ty = GETX) (arr ?s1 p) =
      Some (line_of cfg tags ?s1 p ?A, a)"
    "(case line_of cfg tags ?s1 p ?A of
       Some l \<Rightarrow> Some (Some l, set_array p a ?s1)
     | None \<Rightarrow> do {
         alloc \<leftarrow> cc_shouldAllocate (cfg p) req;
         if alloc then do {
           (l, s3) \<leftarrow> cache_allocate acc (hier_invalidate cfg D) (cfg p) p req ?cyc (set_array p a ?s1);
           Some (Some l, s3)
         } else Some (None, set_array p a ?s1)
       }) = Some (Some l, s3)" "take_record ?src s3 = (w, s4)" "busy p s4" "keeps ?src p ?s1 s4" "ainv p (arr s4 p)"
    "line_of cfg tags s4 p ?A = Some l" "\<And>d. st s4 d ?A = st ?s1 d ?A" "IsPut ?ty \<Longrightarrow> \<forall>d B. st s4 d B = st ?s1 d B"
    "wb_rec ?cyc ?src w s4" "rec_none (s_evRecs s4 ?src)"
    using fill_ok [OF acc D p(1) ai(1) c(5) e(1) low line ai(2), of ?cyc] by blast
  have l4: "line_of cfg tags s4 c ?A = Some lc"
    using f(5) c(1,4) cp p(3) by (simp add: keeps_def line_of_def)
  obtain r5 s5 where m: "mesi_processAccess acc (hier_invalidate cfg D) (cfg p) p req (Some l) ?cyc s4 = Some (r5, s5)"
    "?cyc \<le> r5" "busy p s5" "keeps ?src p s4 s5" "arr s5 p = arr s4 p" "granted ?ty (st s5 c ?A)"
    "rec_ok ?cyc (s_heap s5) (s_evRecs s5 ?src)" "IsGet ?ty \<longrightarrow> (\<forall>d. blw ?A d c \<longrightarrow> d \<noteq> c \<longrightarrow> st s5 d ?A = st s4 d ?A)"
    "IsPut ?ty \<longrightarrow> (\<forall>d B. B \<noteq> 0 \<longrightarrow> B \<noteq> ?A \<longrightarrow> st s5 d B = st s4 d B)"
    using mesi_access_ok [OF acc D f(4) _ p(1) f(7) c(5) c(1,3) l4 _ rq(3,1,4) put(1) _ f(11), of ?cyc]
      keeps_low [OF low f(5)] f(6,8) ask put(2) by auto
  have h5: "heap_ok (s_heap s5)" "heap_ok (s_heap s4)" using m(3) f(4) by (auto simp: busy_def)
  have r5: "rec_ok (req_cycle req) (s_heap s5) (s_evRecs s5 ?src)" using rec_ok_mono [OF m(7)] h5(1) by simp
  have w5: "wb_rec (req_cycle req) ?src w s5" using wb_rec_mono [OF wb_rec_keeps [OF f(10) m(4) h5(2)]] by simp
  obtain s6 where t: "stitch_records (req_cycle req) ?src w s5 = Some s6" "recs_only ?src s5 s6"
    "rec_ok (req_cycle req) (s_heap s6) (s_evRecs s6 ?src)"
    using stitch_ok [OF r5 h5(1) w5] by blast
  note v = recs_only_view [OF t(2)]
  have k6: "keeps ?src p ?s1 s6" using keeps_trans [OF f(5) keeps_trans [OF m(4) v(5)]] .
  have a6: "ainv p (arr s6 p)" using f(6) m(5) fun_cong [OF v(4), of p] by simp
  note q = leave_keeps [OF c(1,2) p(1,3) k6 a6]
  have "cache_access acc (hier_invalidate cfg D) (cfg p) p req s = Some (r5, leave p c s6)"
    using p(2,4) f(1,2,3) m(1,2) t(1) end_ok [OF rq(2) q(3) cp]
    by (simp add: cache_access_def cc_startAccess_def cc_processAccess_def cc_endAccess_def Let_def)
  moreover have "coh s6" using m(3) v(3) by (simp add: busy_def)
  ultimately show ?thesis using m(2,6,8,9) f(8,9) q(1,2) t(3) v(1) by (auto simp: acc_post_def)
qed

section \<open>The access of a memory controller\<close>

lemma coh_from_memory:
  assumes co: "coh s" and c: "c \<in> caches" "line_of cfg tags s c A = Some l" "A \<noteq> 0" "home cfg c A = MemObj k"
    and kids: "\<And>d. d \<in> caches \<Longrightarrow> home cfg d A = CacheObj c \<Longrightarrow> (st s d A \<noteq> I \<longrightarrow> x \<noteq> I) \<and> (excl (st s d A) \<longrightarrow> excl x)"
  shows "coh (set_bcc c l x s)"
proof -
  let ?s = "set_bcc c l x s"
  have eq: "st ?s d B = (if d = c \<and> B = A then x else st s d B)" for d B using set_bcc_state [OF c(2)] .
  have "nok ?s B q" if q: "q \<in> caches" "B \<noteq> 0" for q B
  proof -
    have n: "nok s B q" using coh_nok [OF co q] .
    have "edge_ok cfg B (\<lambda>d. st ?s d B) (\<lambda>d. sh ?s d B) (\<lambda>d. ex ?s d B) q i" if i: "i < length (cfg_children (cfg q))" for i
    proof -
      have ed: "edge_ok cfg B (\<lambda>d. st s d B) (\<lambda>d. sh s d B) (\<lambda>d. ex s d B) q i" using n i by (simp add: node_ok_def)
      have d: "cfg_children (cfg q) ! i \<in> caches" using child_cache [OF q(1) i] by simp
      have k: "home cfg (cfg_children (cfg q) ! i) A = CacheObj c \<Longrightarrow> st s (cfg_children (cfg q) ! i) A \<noteq> I \<longrightarrow> x \<noteq> I"
        "home cfg (cfg_children (cfg q) ! i) A = CacheObj c \<Longrightarrow> excl (st s (cfg_children (cfg q) ! i) A) \<longrightarrow> excl x"
        using kids [OF d] by auto
      have nc: "home cfg (cfg_children (cfg q) ! i) A = CacheObj q \<Longrightarrow> cfg_children (cfg q) ! i \<noteq> c" using c(4) by auto
      show ?thesis using ed k nc unfolding edge_ok_def Let_def by (auto simp: eq)
    qed
    then show ?thesis by (simp add: node_ok_def)
  qed
  then show ?thesis using co set_bcc_lines_ok [OF c(2,3)] by (simp add: coherent_def)
qed

lemma mem_grant_granted: "granted (req_type req) (mem_grant req)"
  by (cases "req_type req") (auto simp: mem_grant_def)

lemma mem_access_ok:
  assumes pre: "acc_pre (MemObj k) c l req s"
  shows "\<exists>resp s'. mem_access (mop k) k req s = Some (resp, s') \<and> acc_post c req s resp s'"
proof -
  let ?A = "req_lineAddr req" and ?ty = "req_type req" and ?src = "req_srcId req"
  have c: "c \<in> caches" "line_of cfg tags s c ?A = Some l" "?A \<noteq> 0" "home cfg c ?A = MemObj k"
    and b: "busy c s" and rq: "req_state req = Slot c l" and rec: "rec_none (s_evRecs s ?src)"
    and put: "\<And>d. IsPut ?ty \<Longrightarrow> blw ?A d c \<Longrightarrow> d \<noteq> c \<Longrightarrow> st s d ?A = I"
    using pre by (auto simp: acc_pre_def)
  have ask: "may_ask ?ty (st s c ?A)" using pre c(2) by (auto simp: acc_pre_def line_state_def)
  have co: "coh s" and mi: "minv k (s_mems s k)" and h: "heap_ok (s_heap s)" using b by (auto simp: busy_def)
  obtain resp m' h' er' where r: "mop k req (s_mems s k, s_heap s, s_evRecs s ?src) = Some (resp, mem_grant req, m', h', er')"
    "req_cycle req \<le> resp" "minv k m'" "heap_le (s_heap s) h'" "rec_ok (req_cycle req) h' er'"
    "er' = None \<longleftrightarrow> s_evRecs s ?src = None"
    using memory_ctrl.mem_total [OF memories mi h rec] by blast
  let ?s1 = "s\<lparr>s_mems := (s_mems s)(k := m'), s_heap := h', s_evRecs := (s_evRecs s)(?src := er')\<rparr>"
  have v: "st ?s1 = st s" "line_of cfg tags ?s1 = line_of cfg tags s" "coh ?s1 = coh s" by (rule locks_view, simp)+
  let ?s' = "set_bcc c l (mem_grant req) ?s1"
  have l1: "line_of cfg tags ?s1 c ?A = Some l" using c(2) v(2) by simp
  have kid: "(st s d ?A \<noteq> I \<longrightarrow> mem_grant req \<noteq> I) \<and> (excl (st s d ?A) \<longrightarrow> excl (mem_grant req))"
    if d: "d \<in> caches" "home cfg d ?A = CacheObj c" for d
  proof -
    note nh = nok_home [OF coh_nok [OF co c(1,3)] d]
    have db: "blw ?A d c" "d \<noteq> c" using child_below [OF c(1) d] by auto
    show ?thesis using nh(2,3) ask mem_grant_granted [of req] put [OF _ db] by (cases ?ty) (auto simp: excl_def)
  qed
  have "coh ?s'" using coh_from_memory [OF _ c(1) l1 c(3,4)] v kid co by simp
  moreover have "keeps ?src c s ?s'" using r by (auto simp: keeps_def)
  moreover have "st ?s' d B = (if d = c \<and> B = ?A then mem_grant req else st s d B)" for d B
    using set_bcc_state [OF l1] v(1) by simp
  moreover have "mem_access (mop k) k req s = Some (resp, ?s')" using r(1) rq by (simp add: mem_access_def)
  ultimately show ?thesis using r mem_grant_granted [of req] by (auto simp: acc_post_def)
qed

section \<open>The access of the hierarchy\<close>

text \<open>As many levels of fuel as there are between an object and the memories are enough.\<close>

lemma hier_access_spec:
  assumes "depth \<le> D" "depth < fuel + olvl ob"
  shows "acc_spec (hier_access cfg mop D fuel) ob"
  using assms
proof (induction fuel arbitrary: ob)
  case 0
  have "\<not> acc_pre ob c l req s" for c l req s
  proof
    assume pre: "acc_pre ob c l req s"
    show False
    proof (cases ob)
      case (CacheObj p)
      then have "p \<in> caches" using start_ok(1) [of p] pre by blast
      then show False using levels [of p] 0 CacheObj by simp
    qed (use 0 in simp)
  qed
  then show ?case by (simp add: acc_spec_def)
next
  case (Suc fuel)
  show ?case
  proof (cases ob)
    case (MemObj k)
    then show ?thesis using mem_access_ok by (simp add: acc_spec_def)
  next
    case (CacheObj p)
    show ?thesis unfolding acc_spec_def CacheObj
    proof (intro allI impI)
      fix c l req s assume pre: "acc_pre (CacheObj p) c l req s"
      have "acc_spec (hier_access cfg mop D fuel) (home cfg p B)" for B
        using Suc home_lvl [OF start_ok(1) [OF pre], of B] CacheObj by simp
      then show "\<exists>resp s'. hier_access cfg mop D (Suc fuel) (CacheObj p) req s = Some (resp, s') \<and> acc_post c req s resp s'"
        using child_access_ok [OF _ Suc.prems(1) pre] by simp
    qed
  qed
qed

section \<open>The access of a core\<close>

text \<open>
  All caches at rest: no lock is held, the arrays and the memories satisfy their invariants, the
  hierarchy is coherent.
\<close>

definition idle :: "('a, 'm) sys \<Rightarrow> bool" where
  "idle s \<longleftrightarrow> coh s \<and> (\<forall>m. minv m (s_mems s m)) \<and> heap_ok (s_heap s) \<and>
     (\<forall>q\<in>caches. ainv q (arr s q) \<and> \<not> cs_bccLock (s_caches s q) \<and> \<not> cs_tccLock (s_caches s q))"

text \<open>A request of a core: a read or a write, with the state and the lock of the filter cache.\<close>

definition core_req :: "MemReq \<Rightarrow> ('a, 'm) sys \<Rightarrow> bool" where
  "core_req req s \<longleftrightarrow> IsGet (req_type req) \<and> req_lineAddr req \<noteq> 0 \<and> \<not> has_flag (req_flags req) PREFETCH \<and>
     (\<exists>k. req_state req = Outside k \<and> req_initialState req = s_out s k) \<and>
     (case req_childLock req of None \<Rightarrow> True | Some (OutsideLock j) \<Rightarrow> s_outLocks s j | Some (BccLock _) \<Rightarrow> False) \<and>
     rec_none (s_evRecs s (req_srcId req))"

definition core_post :: "nat \<Rightarrow> MemReq \<Rightarrow> ('a, 'm) sys \<Rightarrow> nat \<Rightarrow> ('a, 'm) sys \<Rightarrow> bool" where
  "core_post c req s resp s' \<longleftrightarrow> req_cycle req \<le> resp \<and> idle s' \<and> s_out s' = s_out s \<and> s_outLocks s' = s_outLocks s \<and>
     st s' c (req_lineAddr req) \<noteq> I \<and> (req_type req = GETX \<longrightarrow> st s' c (req_lineAddr req) = M) \<and>
     rec_ok (req_cycle req) (s_heap s') (s_evRecs s' (req_srcId req)) \<and>
     (\<forall>x. x \<noteq> req_srcId req \<longrightarrow> s_evRecs s' x = s_evRecs s x) \<and>
     (s_evRecs s' (req_srcId req) = None \<longleftrightarrow> s_evRecs s (req_srcId req) = None)"

definition core_lock :: "nat \<Rightarrow> MemReq \<Rightarrow> ('a, 'm) sys \<Rightarrow> ('a, 'm) sys" where
  "core_lock c req s = upd_cache c (\<lambda>k. k\<lparr>cs_bccLock := True\<rparr>) (unlock_child req s)"

lemma core_lock_simps:
  assumes "core_req req s"
  shows "st (core_lock c req s) = st s" "line_of cfg tags (core_lock c req s) = line_of cfg tags s"
    "coh (core_lock c req s) = coh s" "arr (core_lock c req s) q = arr s q"
    "s_mems (core_lock c req s) = s_mems s" "s_heap (core_lock c req s) = s_heap s" "s_evRecs (core_lock c req s) = s_evRecs s"
    "s_out (core_lock c req s) = s_out s" "cs_bccLock (s_caches (core_lock c req s) q) = (q = c \<or> cs_bccLock (s_caches s q))"
    "cs_tccLock (s_caches (core_lock c req s) q) = cs_tccLock (s_caches s q)"
    "s_outLocks (core_lock c req s) = (case req_childLock req of Some (OutsideLock j) \<Rightarrow> (s_outLocks s)(j := False) | _ \<Rightarrow> s_outLocks s)"
proof -
  have k: "s_caches (unlock_child req s) = s_caches s"
    using assms by (auto simp: core_req_def unlock_child_def split: option.splits lock_ptr.splits)
  show "st (core_lock c req s) = st s" "line_of cfg tags (core_lock c req s) = line_of cfg tags s"
    "coh (core_lock c req s) = coh s"
    by (rule locks_view, simp add: core_lock_def k)+
qed (use assms in \<open>auto simp: core_lock_def core_req_def unlock_child_def split: option.splits lock_ptr.splits\<close>)

lemma core_start_ok:
  assumes "core_req req s" "\<not> cs_bccLock (s_caches s c)"
  shows "term_startAccess c req s = Some (False, req, core_lock c req s)"
proof -
  have "IsGet (req_type req)" "get_state (req_state req) (core_lock c req s) = req_initialState req"
    using assms core_lock_simps(8) [OF assms(1), of c] by (auto simp: core_req_def)
  moreover have "futex_lock (BccLock c) (unlock_child req s) = Some (core_lock c req s)"
    using assms by (auto simp: core_req_def core_lock_def unlock_child_def split: option.splits lock_ptr.splits)
  ultimately show ?thesis by (auto simp: term_startAccess_def CheckForMESIRace_def IsGet_def)
qed

lemma core_end_ok:
  assumes "core_req req s" "s_outLocks s6 = s_outLocks (core_lock c req s)"
  shows "\<exists>s7. lock_child req s6 = Some s7 \<and> s_outLocks s7 = s_outLocks s \<and> s_caches s7 = s_caches s6 \<and> s_mems s7 = s_mems s6 \<and>
    s_out s7 = s_out s6 \<and> s_evRecs s7 = s_evRecs s6 \<and> s_heap s7 = s_heap s6"
  using assms core_lock_simps(11) [OF assms(1), of c]
  by (auto simp: core_req_def lock_child_def fun_eq_iff split: option.splits lock_ptr.splits)

lemma core_busy:
  assumes "core_req req s" "idle s" "c \<in> caches"
  shows "busy c (core_lock c req s)" "low_inv k (core_lock c req s)" "ainv c (arr (core_lock c req s) c)"
    "rec_none (s_evRecs (core_lock c req s) (req_srcId req))"
  using assms core_lock_simps [OF assms(1), of c] by (auto simp: busy_def idle_def low_inv_def core_req_def)

lemma core_idle:
  assumes i: "idle s" "core_req req s" and k: "keeps src c (core_lock c req s) s6" "ainv c (arr s6 c)" "coh s6"
    and s7: "s_caches s7 = s_caches s6" "s_mems s7 = s_mems s6" "s_heap s7 = s_heap s6"
  shows "idle (futex_unlock (BccLock c) s7)" "st (futex_unlock (BccLock c) s7) = st s6"
proof -
  let ?s8 = "futex_unlock (BccLock c) s7"
  note v = core_lock_simps [OF i(2), of c]
  have w: "st ?s8 = st s6" "coh ?s8 = coh s6" by (rule locks_view, simp add: s7(1))+
  have a: "ainv q (arr s6 q)" if q: "q \<in> caches" for q
    using k(1,2) i(1) q v(4) unfolding keeps_def idle_def by (cases "q = c"; cases "lvl q \<le> lvl c") auto
  have "cs_bccLock (s_caches s6 q) = (q = c)" "\<not> cs_tccLock (s_caches s6 q)" if "q \<in> caches" for q
    using k(1) i(1) that v(9,10) unfolding keeps_def idle_def by auto
  moreover have "heap_ok (s_heap s6)" "\<forall>m. minv m (s_mems s6 m)"
    using k(1) i(1) v(5,6) unfolding keeps_def idle_def heap_le_def by auto
  ultimately show "idle ?s8" using a w(2) k(3) s7 unfolding idle_def by auto
  show "st ?s8 = st s6" by (rule w(1))
qed

lemma core_access_ok:
  assumes D: "depth \<le> D" "depth < fuel + lvl c" and c: "c \<in> caches" "cfg_terminal (cfg c)" and i: "idle s" "core_req req s"
  shows "\<exists>resp s'. hier_access cfg mop D fuel (CacheObj c) req s = Some (resp, s') \<and> core_post c req s resp s'"
proof -
  let ?A = "req_lineAddr req" and ?ty = "req_type req" and ?src = "req_srcId req"
  let ?cyc = "req_cycle req + cfg_accLat (cfg c)" and ?s1 = "core_lock c req s"
  obtain f where fuel: "fuel = Suc f" using D levels [OF c(1)] by (cases fuel) auto
  let ?acc = "hier_access cfg mop D f"
  have acc: "acc_spec ?acc (home cfg c B)" for B using hier_access_spec [OF D(1)] home_lvl [OF c(1), of B] D(2) fuel by simp
  note b = core_busy [OF i(2,1) c(1)] and v = core_lock_simps [OF i(2), of c]
  have g: "IsGet ?ty" "?A \<noteq> 0" "\<not> has_flag (req_flags req) PREFETCH" using i(2) by (auto simp: core_req_def)
  have np: "\<not> IsPut ?ty" using g(1) by (simp add: IsPut_iff)
  obtain a l s3 w s4 where f: "ca_lookup (cfg_ops (cfg c)) ?A (Some req) (?ty = GETS \<or> ?ty = GETX) (arr ?s1 c) =
      Some (line_of cfg tags ?s1 c ?A, a)"
    "(case line_of cfg tags ?s1 c ?A of
       Some l \<Rightarrow> Some (Some l, set_array c a ?s1)
     | None \<Rightarrow> do {
         alloc \<leftarrow> cc_shouldAllocate (cfg c) req;
         if alloc then do {
           (l, s3) \<leftarrow> cache_allocate ?acc (hier_invalidate cfg D) (cfg c) c req ?cyc (set_array c a ?s1);
           Some (Some l, s3)
         } else Some (None, set_array c a ?s1)
       }) = Some (Some l, s3)" "take_record ?src s3 = (w, s4)" "busy c s4" "keeps ?src c ?s1 s4" "ainv c (arr s4 c)"
    "line_of cfg tags s4 c ?A = Some l" "wb_rec ?cyc ?src w s4" "rec_none (s_evRecs s4 ?src)"
    using fill_ok [OF acc D(1) c(1) b(3) g(2) b(1,2) _ b(4), of ?cyc] np by blast
  obtain r5 s5 where m: "bcc_processAccess ?acc (cfg c) c ?A l ?ty ?cyc ?src (req_flags req) s4 = Some (r5, s5)"
    "?cyc \<le> r5" "busy c s5" "keeps ?src c s4 s5" "arr s5 c = arr s4 c" "st s5 c ?A \<noteq> I" "?ty = GETX \<longrightarrow> st s5 c ?A = M"
    "rec_ok ?cyc (s_heap s5) (s_evRecs s5 ?src)"
    using bcc_access_ok [OF acc c(1) f(4) _ f(7) g(2,3) f(9), where ty = ?ty and cyc = ?cyc] keeps_low [OF b(2) f(5)] f(6) np
    by (auto simp: IsPut_def)
  have h5: "heap_ok (s_heap s5)" "heap_ok (s_heap s4)" using m(3) f(4) by (auto simp: busy_def)
  have r5: "rec_ok (req_cycle req) (s_heap s5) (s_evRecs s5 ?src)" using rec_ok_mono [OF m(8)] h5(1) by simp
  have w5: "wb_rec (req_cycle req) ?src w s5" using wb_rec_mono [OF wb_rec_keeps [OF f(8) m(4) h5(2)]] by simp
  obtain s6 where t: "stitch_records (req_cycle req) ?src w s5 = Some s6" "recs_only ?src s5 s6"
    "rec_ok (req_cycle req) (s_heap s6) (s_evRecs s6 ?src)"
    using stitch_ok [OF r5 h5(1) w5] by blast
  note u = recs_only_view [OF t(2)]
  have k6: "keeps ?src c ?s1 s6" using keeps_trans [OF f(5) keeps_trans [OF m(4) u(5)]] .
  have a6: "ainv c (arr s6 c)" using f(6) m(5) fun_cong [OF u(4), of c] by simp
  have co6: "coh s6" using m(3) u(3) by (simp add: busy_def)
  have o6: "s_outLocks s6 = s_outLocks ?s1" using k6 by (simp add: keeps_def)
  obtain s7 where e: "lock_child req s6 = Some s7" "s_outLocks s7 = s_outLocks s" "s_caches s7 = s_caches s6" "s_mems s7 = s_mems s6"
    "s_out s7 = s_out s6" "s_evRecs s7 = s_evRecs s6" "s_heap s7 = s_heap s6"
    using core_end_ok [OF i(2) o6] by blast
  note q = core_idle [OF i k6 a6 co6 e(3,4,7)]
  have nl: "\<not> cs_bccLock (s_caches s c)" using i(1) c(1) by (simp add: idle_def)
  have "hier_access cfg mop D fuel (CacheObj c) req s = Some (r5, futex_unlock (BccLock c) s7)"
    using c(2) core_start_ok [OF i(2) nl] f(1,2,3) m(1,2) t(1) e(1)
    by (simp add: fuel cache_access_def cc_startAccess_def cc_processAccess_def term_processAccess_def cc_endAccess_def
      term_endAccess_def Let_def)
  moreover have "\<forall>x. x \<noteq> ?src \<longrightarrow> s_evRecs s6 x = s_evRecs s x" "s_evRecs s6 ?src = None \<longleftrightarrow> s_evRecs s ?src = None" "s_out s6 = s_out s"
    using k6 v(7,8) by (simp_all add: keeps_def)
  ultimately show ?thesis using q m(2,6,7) t(3) u(1) e by (simp add: core_post_def)
qed

section \<open>Single writer\<close>

text \<open>
  If a cache may write an address, the only other caches that have it are those above it and those
  below it.
\<close>

lemma excl_child_unique:
  assumes "coh s" "A \<noteq> 0" "r \<in> caches" "c \<in> caches" "home cfg c A = CacheObj r" "d \<in> caches" "home cfg d A = CacheObj r"
    and "excl (st s c A)" "st s d A \<noteq> I"
  shows "c = d"
proof -
  note n = coh_nok [OF assms(1,3,2)]
  obtain l where l: "line_of cfg tags s r A = Some l"
    using nok_home(2) [OF n assms(6,7,9)] by (auto simp: line_state_def split: option.splits)
  note e = coh_entry [OF assms(1,3) l]
  have "st s c A \<noteq> I" using assms(8) by (auto simp: excl_def)
  then have "en_sharers (tcc_entry r l s) (cfg_selfId (cfg c))" "en_sharers (tcc_entry r l s) (cfg_selfId (cfg d))"
    "en_numSharers (tcc_entry r l s) = 1"
    using nok_home(1) [OF n assms(4,5)] nok_home(1) [OF n assms(6,7)] nok_home(3) [OF n assms(4,5,8)] e(2,3) assms(9)
    by (auto simp: en_isExclusive_def)
  then have "cfg_selfId (cfg c) = cfg_selfId (cfg d)" using entry_single [OF e(1)] by blast
  then show ?thesis using selfId_eq [OF assms(4,6,5,7)] by blast
qed

lemma single_writer:
  assumes co: "coh s" "A \<noteq> 0" and x: "excl (st s c A)" "st s d A \<noteq> I" and r: "blw A c r" "blw A d r"
  shows "blw A c d \<or> blw A d c"
  using r
proof (induction "lvl r" arbitrary: r rule: less_induct)
  case less
  show ?case
  proof (cases "c = r \<or> d = r")
    case False
    obtain e where e: "e \<in> caches" "home cfg e A = CacheObj r" "blw A c e" using below_last [OF less.prems(1)] False by auto
    obtain f where f: "f \<in> caches" "home cfg f A = CacheObj r" "blw A d f" using below_last [OF less.prems(2)] False by auto
    have n: "\<And>q. q \<in> caches \<Longrightarrow> nok s A q" using coh_nok co by blast
    have "excl (st s e A)" "st s f A \<noteq> I"
      using below_states(2) [OF e(3) _ x(1)] below_states(1) [OF f(3) _ x(2)] n below_caches by blast+
    then have "e = f" using excl_child_unique [OF co _ e(1,2) f(1,2)] below_caches [OF less.prems(1)] by blast
    then show ?thesis using less.hyps [of e] e f home_cache(5) [OF e(1,2)] by blast
  qed (use less.prems in auto)
qed

text \<open>
  A sequence of requests of cores without event recorders (simple cores, for example): the requests
  are issued one after the other, each to the terminal cache of its core.
\<close>

lemma hier_run_ok:
  assumes "depth \<le> D" "depth < fuel" "idle s" "\<forall>x. s_evRecs s x = None"
    and "\<forall>(c, req)\<in>set rs. c \<in> caches \<and> cfg_terminal (cfg c) \<and> core_req req s"
  shows "\<exists>s'. hier_run cfg mop D fuel rs s = Some s' \<and> idle s' \<and> (\<forall>x. s_evRecs s' x = None)"
  using assms(3-5)
proof (induction rs arbitrary: s)
  case (Cons r rs)
  obtain c req where r: "r = (c, req)" by (cases r)
  have c: "c \<in> caches" "cfg_terminal (cfg c)" "core_req req s" using Cons.prems(3) r by auto
  have "depth < fuel + lvl c" using assms(2) by simp
  then obtain resp s1 where s1: "hier_access cfg mop D fuel (CacheObj c) req s = Some (resp, s1)" "core_post c req s resp s1"
    using core_access_ok [OF assms(1) _ c(1,2) Cons.prems(1) c(3)] by blast
  have e: "s_evRecs s1 x = None" for x using s1(2) Cons.prems(2) by (cases "x = req_srcId req") (auto simp: core_post_def)
  have "core_req q s1" if "core_req q s" for q
  proof -
    have "s_out s1 = s_out s" "s_outLocks s1 = s_outLocks s" using s1(2) by (simp_all add: core_post_def)
    then show ?thesis using that e by (auto simp: core_req_def rec_none_def split: option.splits lock_ptr.splits)
  qed
  then have "\<forall>(c, req)\<in>set rs. c \<in> caches \<and> cfg_terminal (cfg c) \<and> core_req req s1" using Cons.prems(3) by auto
  then show ?case using Cons.IH [of s1] s1 e r by (auto simp: core_post_def)
qed simp

end

end
