(* ===== verification/Init_Topology.thy ===== *)
theory Init_Topology
  imports Init_System Hierarchy_Cache "HOL-Library.Multiset"
begin

text \<open>
  What \<open>InitSystem\<close> builds: the groups it accepts form a tree, every bank is connected to all banks
  of exactly one parent cache, and a bank is built after its parents. With caches of the plain kinds
  the connections are a \<open>topology\<close> in the sense of the coherence proofs.
\<close>

section \<open>Monadic loops\<close>

lemma mapM_Some_iff: "mapM f xs = Some ys \<longleftrightarrow> length ys = length xs \<and> (\<forall>i<length xs. f (xs ! i) = Some (ys ! i))"
proof (induction xs arbitrary: ys)
  case (Cons x xs)
  show ?case
  proof
    assume "mapM f (x # xs) = Some ys"
    then obtain y zs where "f x = Some y" "mapM f xs = Some zs" "ys = y # zs" by (auto simp: Option.bind_eq_Some_conv)
    then show "length ys = length (x # xs) \<and> (\<forall>i<length (x # xs). f ((x # xs) ! i) = Some (ys ! i))"
      using Cons.IH [of zs] by (auto simp: nth_Cons split: nat.splits)
  next
    assume a: "length ys = length (x # xs) \<and> (\<forall>i<length (x # xs). f ((x # xs) ! i) = Some (ys ! i))"
    then obtain y zs where y: "ys = y # zs" by (cases ys) auto
    have "f x = Some y" "mapM f xs = Some zs" using a Cons.IH [of zs] y by (auto simp: All_less_Suc2)
    then show "mapM f (x # xs) = Some ys" using y by simp
  qed
qed auto

lemma mapM_length: "mapM f xs = Some ys \<Longrightarrow> length ys = length xs"
  by (simp add: mapM_Some_iff)

lemma mapM_set:
  assumes "mapM f xs = Some ys" "y \<in> set ys"
  shows "\<exists>x\<in>set xs. f x = Some y"
proof -
  obtain i where i: "i < length ys" "y = ys ! i" using assms(2) by (auto simp: in_set_conv_nth)
  then have "i < length xs" "f (xs ! i) = Some y" using assms(1) by (auto simp: mapM_Some_iff)
  then show ?thesis using nth_mem by blast
qed

lemma bind_pair_SomeE:
  assumes "Option.bind m (\<lambda>(a, b). f a b) = Some r"
  obtains a b where "m = Some (a, b)" "f a b = Some r"
  using assms by (cases m) auto

section \<open>Lists of groups\<close>

lemma concat_nth_take: "j < i \<Longrightarrow> i < length xs \<Longrightarrow> a \<in> set (f (xs ! j)) \<Longrightarrow> a \<in> set (concat (map f (take i xs)))"
proof -
  assume "j < i" "i < length xs" and a: "a \<in> set (f (xs ! j))"
  then have "xs ! j \<in> set (take i xs)" by (auto simp: in_set_conv_nth intro!: exI [of _ j])
  then show ?thesis using a by auto
qed

lemma sorted_concat_less:
  assumes "sorted_wrt (<) (concat (map f xs))" "j < i" "i < length xs" "a \<in> set (f (xs ! j))" "b \<in> set (f (xs ! i))"
  shows "(a :: nat) < b"
proof -
  have "concat (map f xs) = concat (map f (take i xs)) @ f (xs ! i) @ concat (map f (drop (Suc i) xs))"
    using assms(3) id_take_nth_drop [OF assms(3)] by (metis concat.simps(2) concat_append list.simps(9) map_append)
  then show ?thesis using assms(1,4,5) concat_nth_take [of j i xs a f, OF assms(2,3,4)] by (auto simp: sorted_wrt_append)
qed

lemma keys_disjoint:
  assumes "distinct (concat (map snd m))" "map_of m k = Some x" "map_of m k' = Some y" "k \<noteq> k'"
  shows "set x \<inter> set y = {}"
proof -
  obtain xs ys where m: "m = xs @ (k, x) # ys" using map_of_SomeD [OF assms(2)] by (meson split_list)
  have "(k', y) \<in> set xs \<union> set ys" using map_of_SomeD [OF assms(3)] assms(4) m by auto
  then have "set y \<subseteq> (\<Union>a\<in>set xs. set (snd a)) \<or> set y \<subseteq> (\<Union>a\<in>set ys. set (snd a))" by force
  then show ?thesis using assms(1) by (auto simp: m)
qed

lemma distinct_by_keys:
  assumes "distinct (concat (map snd m))" "distinct ks" "\<And>k. k \<in> set ks \<Longrightarrow> map_of m k = Some (f k)"
  shows "distinct (concat (map f ks))"
  using assms(2,3)
proof (induction ks)
  case (Cons k ks)
  have "distinct (f k)" using map_of_SomeD [of m k "f k"] Cons.prems(2) [of k] assms(1) by (auto dest!: split_list)
  moreover have "set (f k) \<inter> set (f k') = {}" if "k' \<in> set ks" for k'
    using keys_disjoint [OF assms(1) Cons.prems(2) [of k] Cons.prems(2) [of k']] that Cons.prems(1) by auto
  ultimately show ?case using Cons by auto
qed simp

lemma concat_upt_blocks:
  "concat (map (\<lambda>i. map (\<lambda>j. n + i * k + j) [0..<k]) [0..<m]) = [n..<n + m * (k :: nat)]"
proof (induction m)
  case (Suc m)
  have "map (\<lambda>j. n + m * k + j) [0..<k] = [n + m * k..<n + m * k + k]"
    by (rule nth_equalityI) simp_all
  moreover have "[n..<n + m * k + k] = [n..<n + m * k] @ [n + m * k..<n + m * k + k]"
    by (rule upt_add_eq_append) simp
  moreover have "n + Suc m * k = n + m * k + k" by simp
  ultimately show ?case using Suc unfolding upt_Suc_append [OF le0] by (simp only: map_append concat_append concat.simps list.map append_Nil2)
qed simp

section \<open>Reading the tree\<close>

lemma add_children_ok:
  "add_children g cs pm = Some pm' \<Longrightarrow> distinct (map fst pm) \<Longrightarrow>
    pm' = pm @ map (\<lambda>c. (c, g)) cs \<and> distinct (map fst pm')"
proof (induction cs arbitrary: pm)
  case (Cons c cs)
  have c: "map_of pm c = None" "add_children g cs (pm @ [(c, g)]) = Some pm'" using Cons.prems(1) by (auto split: if_splits)
  have "distinct (map fst (pm @ [(c, g)]))" using c(1) Cons.prems(2) by (auto simp: map_of_eq_None_iff)
  then have i: "pm' = (pm @ [(c, g)]) @ map (\<lambda>c. (c, g)) cs" "distinct (map fst pm')" using Cons.IH [OF c(2)] by blast+
  show ?case using i(2) by (simp only: i(1)) simp
qed simp

definition edges :: "(string \<times> string list list) list \<Rightarrow> (string \<times> string) list" where
  "edges cm = concat (map (\<lambda>(g, cv). map (\<lambda>c. (c, g)) (concat cv)) cm)"

lemma read_groups_ok:
  assumes "read_groups cfg gs cm pm = Some (cm', pm')" "pm = edges cm" "distinct (map fst pm)" "distinct (map fst cm)"
  shows "map fst cm' = map fst cm @ gs \<and> distinct (map fst cm') \<and> pm' = edges cm' \<and> distinct (map fst pm')"
  using assms
proof (induction gs arbitrary: cm pm)
  case (Cons g gs)
  from Cons.prems(1) obtain ch cv pm1 where c: "map_of cm g = None"
    "add_children g (concat cv) pm = Some pm1" "read_groups cfg gs (cm @ [(g, cv)]) pm1 = Some (cm', pm')"
    by (auto simp: Option.bind_eq_Some_conv)
  note a = add_children_ok [OF c(2) Cons.prems(3)]
  have "pm1 = edges (cm @ [(g, cv)])" using a Cons.prems(2) by (simp add: edges_def)
  moreover have "distinct (map fst (cm @ [(g, cv)]))" using c(1) Cons.prems(4) by (auto simp: map_of_eq_None_iff)
  ultimately have "map fst cm' = map fst (cm @ [(g, cv)]) @ gs \<and> distinct (map fst cm') \<and> pm' = edges cm' \<and> distinct (map fst pm')"
    using Cons.IH [OF c(3)] a by blast
  moreover have "map fst (cm @ [(g, cv)]) @ gs = map fst cm @ g # gs" by simp
  ultimately show ?case by metis
qed simp

lemma edges_iff:
  assumes "distinct (map fst cm)"
  shows "(c, g) \<in> set (edges cm) \<longleftrightarrow> c \<in> set (concat (children_of cm g))"
proof
  assume "(c, g) \<in> set (edges cm)"
  then obtain cv where "(g, cv) \<in> set cm" "c \<in> set (concat cv)" by (auto simp: edges_def)
  then show "c \<in> set (concat (children_of cm g))" using assms by (simp add: children_of_def)
next
  assume c: "c \<in> set (concat (children_of cm g))"
  then obtain cv where "map_of cm g = Some cv" "c \<in> set (concat cv)"
    by (cases "map_of cm g") (auto simp: children_of_def)
  then show "(c, g) \<in> set (edges cm)" using map_of_SomeD [of cm g cv] by (force simp: edges_def)
qed

lemma edges_children: "distinct (map fst cm) \<Longrightarrow> map fst (edges cm) = concat (map (\<lambda>g. concat (children_of cm g)) (map fst cm))"
proof -
  assume d: "distinct (map fst cm)"
  have "children_of cm (fst x) = snd x" if "x \<in> set cm" for x
    using d that by (cases x) (simp add: children_of_def)
  then have "concat (map (\<lambda>g. concat (children_of cm g)) (map fst cm)) = concat (map (\<lambda>x. concat (snd x)) cm)"
    by (simp add: comp_def cong: map_cong)
  moreover have "map fst (edges cm) = concat (map (\<lambda>x. concat (snd x)) cm)"
    by (simp add: edges_def map_concat comp_def case_prod_beta)
  ultimately show ?thesis by simp
qed

section \<open>Building the groups\<close>

definition bank_of_kind :: "bool \<Rightarrow> BaseCache \<Rightarrow> bool" where
  "bank_of_kind t b = (case b of
     CacheBank k \<Rightarrow> b_terminal k = t \<and> b_numLines k < 2 ^ 32 \<and> bank_lines k = b_numLines k | _ \<Rightarrow> True)"

text \<open>A builder of groups appends the banks of the new group, in order, to the list of all banks.\<close>

definition builder_ok ::
  "(string \<Rightarrow> bool \<Rightarrow> BaseCache list \<Rightarrow> (CacheGroup \<times> BaseCache list) option) \<Rightarrow> bool" where
  "builder_ok build \<longleftrightarrow> (\<forall>g t objs cg objs'. build g t objs = Some (cg, objs') \<longrightarrow>
     (\<exists>bs. objs' = objs @ bs \<and> concat cg = [length objs..<length objs'] \<and> [] \<notin> set cg \<and> (\<forall>b\<in>set bs. bank_of_kind t b)))"

lemma get_u32_less: "get_u32 cfg key def = Some n \<Longrightarrow> n < 2 ^ 32"
  by (auto simp: get_u32_def nat_less_iff)

lemma BuildCacheBank_kind:
  assumes "BuildCacheBank fnv cfg zi pfx name sz t dm = Some b" "sz < 2 ^ 32"
  shows "bank_of_kind t b"
proof -
  have "sz div zi_lineSize zi < 2 ^ 32" using assms(2) div_le_dividend [of sz "zi_lineSize zi"] by linarith
  then show ?thesis using assms(1) unfolding BuildCacheBank_def Let_def
    by (elim bind_pair_SomeE bind_SomeE, simp only: split: if_splits)
      (elim bind_pair_SomeE bind_SomeE, simp only: option.inject,
        force simp: bank_of_kind_def bank_lines_def build_array_def split: if_splits)+
qed

lemma BuildCacheGroup_ok: "builder_ok (BuildCacheGroup fnv cfg zi)"
  unfolding builder_ok_def
proof (intro allI impI)
  fix g t objs cg objs' assume b: "BuildCacheGroup fnv cfg zi g t objs = Some (cg, objs')"
  let ?pfx = "''sys.caches.'' @ g @ ''.''"
  obtain pf where pf: "get_bool cfg (?pfx @ ''isPrefetcher'') False = Some pf"
    using b by (auto simp: BuildCacheGroup_def Let_def Option.bind_eq_Some_conv)
  show "\<exists>bs. objs' = objs @ bs \<and> concat cg = [length objs..<length objs'] \<and> [] \<notin> set cg \<and> (\<forall>b\<in>set bs. bank_of_kind t b)"
  proof (cases pf)
    case True
    then obtain n where n: "cg = map (\<lambda>i. [length objs + i]) [0..<n]"
      "objs' = objs @ map (\<lambda>i. StreamPrefetcherObj (g @ ''-'' @ show_nat i)) [0..<n]"
      using b pf by (auto simp: BuildCacheGroup_def Let_def Option.bind_eq_Some_conv)
    have "concat cg = [length objs..<length objs + n]"
      using concat_upt_blocks [of "length objs" 1 n] by (simp add: n(1))
    then show ?thesis using n by (auto simp: bank_of_kind_def)
  next
    case False
    then obtain sz bk ca bs where c: "bk \<noteq> 0"
      "mapM (\<lambda>(i, j). BuildCacheBank fnv cfg zi ?pfx (bank_name g bk i j) (sz div bk) t
         (trunc32 (trunc32 (i * bk + j) * zi_numDomains zi) div trunc32 (ca * bk))) (List.product [0..<ca] [0..<bk]) = Some bs"
      "cg = map (\<lambda>i. map (\<lambda>j. length objs + i * bk + j) [0..<bk]) [0..<ca]" "objs' = objs @ bs" "get_u32 cfg (?pfx @ ''size'') (64 * 1024) = Some sz"
      using b pf by (auto simp: BuildCacheGroup_def Let_def Option.bind_eq_Some_conv)
    have "length bs = ca * bk" using mapM_length [OF c(2)] by simp
    moreover have "bank_of_kind t b" if "b \<in> set bs" for b
    proof -
      have "sz div bk < 2 ^ 32" using get_u32_less [OF c(5)] div_le_dividend [of sz bk] by linarith
      then show ?thesis using mapM_set [OF c(2) that] BuildCacheBank_kind by fastforce
    qed
    moreover have "[] \<notin> set cg" using c(1,3) by auto
    ultimately show ?thesis using c(3,4) concat_upt_blocks [of "length objs" bk ca] by auto
  qed
qed

text \<open>The state of the fringe loop.\<close>

definition groups_inv ::
  "(string \<times> string list list) list \<Rightarrow> string \<Rightarrow> string list \<Rightarrow> (string \<times> CacheGroup) list \<Rightarrow> BaseCache list \<Rightarrow> bool" where
  "groups_inv cm llc fringe cMap objs \<longleftrightarrow>
     distinct (map fst cMap) \<and> concat (map (concat \<circ> snd) cMap) = [0..<length objs] \<and>
     (\<forall>(g, cg)\<in>set cMap. [] \<notin> set cg \<and> (\<forall>c\<in>set (concat cg). bank_of_kind (isTerminal cm g) (objs ! c))) \<and>
     (\<forall>i<length cMap. fst (cMap ! i) = llc \<or> (\<exists>j<i. fst (cMap ! i) \<in> set (concat (children_of cm (fst (cMap ! j)))))) \<and>
     (\<forall>g\<in>set fringe. g = llc \<or> (\<exists>j<length cMap. g \<in> set (concat (children_of cm (fst (cMap ! j)))))) \<and>
     (\<forall>i<length cMap. set (concat (children_of cm (fst (cMap ! i)))) \<subseteq> fst ` set cMap \<union> set fringe)"

lemma groups_inv_step:
  assumes inv: "groups_inv cm llc (g # fringe) cMap objs" and g: "map_of cMap g = None"
    and b: "builder_ok build" "build g (isTerminal cm g) objs = Some (cg, objs')"
  shows "groups_inv cm llc (fringe @ concat (children_of cm g)) (cMap @ [(g, cg)]) objs'"
proof -
  obtain bs where bs: "objs' = objs @ bs" "concat cg = [length objs..<length objs']" "[] \<notin> set cg"
    "\<forall>b\<in>set bs. bank_of_kind (isTerminal cm g) b"
    using b unfolding builder_ok_def by blast
  have o: "concat (map (concat \<circ> snd) cMap) = [0..<length objs]" using inv by (simp add: groups_inv_def)
  have lt: "c < length objs" if "(h, ch) \<in> set cMap" "c \<in> set (concat ch)" for h ch c
  proof -
    have "c \<in> set (concat (map (concat \<circ> snd) cMap))" using that by force
    then show ?thesis by (simp only: o set_upt) simp
  qed
  have "distinct (map fst (cMap @ [(g, cg)]))" using inv g by (auto simp: groups_inv_def map_of_eq_None_iff)
  moreover have "concat (map (concat \<circ> snd) (cMap @ [(g, cg)])) = [0..<length objs']"
    using o bs(1,2) upt_add_eq_append [of 0 "length objs" "length bs"] by simp
  moreover have "[] \<notin> set ch \<and> (\<forall>c\<in>set (concat ch). bank_of_kind (isTerminal cm h) (objs' ! c))"
    if "(h, ch) \<in> set (cMap @ [(g, cg)])" for h ch
  proof (cases "(h, ch) \<in> set cMap")
    case True
    then have "[] \<notin> set ch \<and> (\<forall>c\<in>set (concat ch). bank_of_kind (isTerminal cm h) (objs ! c))"
      using inv unfolding groups_inv_def by blast
    then show ?thesis using lt [OF True] bs(1) by (auto simp: nth_append)
  next
    case False
    then have h: "h = g" "ch = cg" using that by auto
    have "objs' ! c \<in> set bs" if "c \<in> set (concat cg)" for c
      using that bs(1) unfolding bs(2) by (auto simp: nth_append)
    then show ?thesis using bs(3,4) h by blast
  qed
  moreover have "fst ((cMap @ [(g, cg)]) ! i) = llc \<or> (\<exists>j<i. fst ((cMap @ [(g, cg)]) ! i) \<in> set (concat (children_of cm (fst ((cMap @ [(g, cg)]) ! j)))))"
    if i: "i < length (cMap @ [(g, cg)])" for i
  proof (cases "i < length cMap")
    case True
    then have "fst (cMap ! i) = llc \<or> (\<exists>j<i. fst (cMap ! i) \<in> set (concat (children_of cm (fst (cMap ! j)))))"
      using inv unfolding groups_inv_def by blast
    moreover have "\<And>j. j < i \<Longrightarrow> (cMap @ [(g, cg)]) ! j = cMap ! j" using True by (simp add: nth_append)
    ultimately show ?thesis using True by (metis nth_append)
  next
    case False
    then have e: "i = length cMap" using i by simp
    have "g = llc \<or> (\<exists>j<length cMap. g \<in> set (concat (children_of cm (fst (cMap ! j)))))"
      using inv unfolding groups_inv_def by auto
    then show ?thesis unfolding e by (metis fst_conv nth_append nth_append_length)
  qed
  moreover have "h = llc \<or> (\<exists>j<length (cMap @ [(g, cg)]). h \<in> set (concat (children_of cm (fst ((cMap @ [(g, cg)]) ! j)))))"
    if h: "h \<in> set (fringe @ concat (children_of cm g))" for h
  proof (cases "h \<in> set fringe")
    case True
    then have "h = llc \<or> (\<exists>j<length cMap. h \<in> set (concat (children_of cm (fst (cMap ! j)))))"
      using inv unfolding groups_inv_def by auto
    then show ?thesis by (metis length_append_singleton less_Suc_eq nth_append)
  next
    case False
    then have "h \<in> set (concat (children_of cm (fst ((cMap @ [(g, cg)]) ! length cMap))))" using h by simp
    then show ?thesis by (metis length_append_singleton lessI)
  qed
  moreover have "set (concat (children_of cm (fst ((cMap @ [(g, cg)]) ! i)))) \<subseteq>
      fst ` set (cMap @ [(g, cg)]) \<union> set (fringe @ concat (children_of cm g))" if i: "i < length (cMap @ [(g, cg)])" for i
  proof (cases "i < length cMap")
    case True
    then have "set (concat (children_of cm (fst (cMap ! i)))) \<subseteq> fst ` set cMap \<union> set (g # fringe)"
      using inv unfolding groups_inv_def by blast
    then show ?thesis using True by (auto simp: nth_append)
  next
    case False
    then have "i = length cMap" using i by simp
    then show ?thesis by auto
  qed
  ultimately show ?thesis unfolding groups_inv_def by blast
qed

lemma build_groups_inv:
  assumes "build_groups fuel build cm fringe cMap objs = Some (cMap', objs')" "groups_inv cm llc fringe cMap objs" "builder_ok build"
  shows "groups_inv cm llc [] cMap' objs'"
  using assms(1,2)
proof (induction fuel arbitrary: fringe cMap objs)
  case 0
  then show ?case by (cases fringe) auto
next
  case (Suc fuel)
  show ?case
  proof (cases fringe)
    case (Cons g fr)
    then obtain cg objs1 where s: "map_of cMap g = None" "build g (isTerminal cm g) objs = Some (cg, objs1)"
      "build_groups fuel build cm (fr @ concat (children_of cm g)) (cMap @ [(g, cg)]) objs1 = Some (cMap', objs')"
      using Suc.prems(1) by (auto simp: Option.bind_eq_Some_conv)
    show ?thesis using Suc.IH [OF s(3)] groups_inv_step [OF _ s(1) assms(3) s(2)] Suc.prems(2) Cons by simp
  qed (use Suc.prems in auto)
qed

text \<open>
  A tree of groups as \<open>read_groups\<close> and \<open>find_llc\<close> accept it: every group has at most one parent, the
  last-level cache has none.
\<close>

definition tree_ok :: "(string \<times> string list list) list \<Rightarrow> string \<Rightarrow> bool" where
  "tree_ok cm llc \<longleftrightarrow> distinct (map fst cm) \<and> distinct (map fst (edges cm)) \<and> llc \<in> set (map fst cm) \<and>
     llc \<notin> fst ` set (edges cm) \<and> fst ` set (edges cm) \<subseteq> set (map fst cm) \<and>
     (\<forall>g\<in>set (map fst cm). g \<noteq> llc \<longrightarrow> g \<in> fst ` set (edges cm))"

lemma tree_parent_unique:
  assumes "tree_ok cm llc" "c \<in> set (concat (children_of cm g))" "c \<in> set (concat (children_of cm h))"
  shows "g = h"
proof -
  have "(c, g) \<in> set (edges cm)" "(c, h) \<in> set (edges cm)" using assms edges_iff by (auto simp: tree_ok_def)
  then show ?thesis using assms(1) by (auto simp: tree_ok_def dest: eq_key_imp_eq_value)
qed

lemma tree_child:
  assumes "tree_ok cm llc" "c \<in> set (concat (children_of cm g))"
  shows "c \<noteq> llc" "c \<in> set (map fst cm)" "g \<in> set (map fst cm)" "\<not> isTerminal cm g"
proof -
  have e: "(c, g) \<in> set (edges cm)" using assms edges_iff by (auto simp: tree_ok_def)
  then have "c \<in> fst ` set (edges cm)" by force
  then show "c \<noteq> llc" "c \<in> set (map fst cm)" using assms(1) unfolding tree_ok_def by blast+
  show "g \<in> set (map fst cm)" using e by (force simp: edges_def)
  show "\<not> isTerminal cm g" using assms(2) by (auto simp: isTerminal_def)
qed

lemma tree_children_distinct:
  assumes "tree_ok cm llc"
  shows "distinct (concat (map (\<lambda>g. concat (children_of cm g)) (map fst cm)))" "distinct (concat (children_of cm g))"
proof -
  show d: "distinct (concat (map (\<lambda>g. concat (children_of cm g)) (map fst cm)))"
    using assms edges_children [of cm] by (simp add: tree_ok_def)
  show "distinct (concat (children_of cm g))"
  proof (cases "g \<in> set (map fst cm)")
    case True
    then show ?thesis using d by (auto dest!: split_list)
  next
    case False
    then show ?thesis by (simp add: children_of_def map_of_eq_None_iff [THEN iffD2])
  qed
qed

lemma read_tree_ok:
  assumes "read_groups cfg groups [] [] = Some (cm, pm)" "find_llc cm pm groups = Some llc"
  shows "tree_ok cm llc" "map fst cm = groups" "pm = edges cm"
proof -
  have r: "map fst cm = groups" "distinct (map fst cm)" "pm = edges cm" "distinct (map fst pm)"
    using read_groups_ok [OF assms(1)] by (auto simp: edges_def)
  show "map fst cm = groups" "pm = edges cm" by (fact r)+
  let ?pl = "filter (\<lambda>g. map_of pm g = None) (map fst cm)"
  have v: "\<forall>(c, g)\<in>set pm. c \<in> set groups" and l: "length ?pl = 1" "llc = hd ?pl"
    using assms(2) by (auto simp: find_llc_def list_all_iff Let_def)
  then have pl: "?pl = [llc]" by (cases ?pl) auto
  have o: "g \<in> set (map fst cm) \<and> g \<notin> fst ` set pm \<longleftrightarrow> g = llc" for g
    using arg_cong [OF pl, of "\<lambda>xs. g \<in> set xs"] unfolding set_filter mem_Collect_eq map_of_eq_None_iff by simp
  have "llc \<in> set (map fst cm)" "llc \<notin> fst ` set pm" using o by blast+
  moreover have "g \<in> fst ` set pm" if "g \<in> set (map fst cm)" "g \<noteq> llc" for g
    using o [of g] that by blast
  moreover have "fst ` set pm \<subseteq> set (map fst cm)" using v r(1) by auto
  ultimately show "tree_ok cm llc" using r unfolding tree_ok_def by blast
qed

text \<open>
  The fringe loop never meets a group twice, whatever the tree: its panic is unreachable, and the
  loop ends after at most as many rounds as there are groups.
\<close>

lemma build_groups_total:
  assumes t: "tree_ok cm llc" and b: "\<And>g t objs. build g t objs \<noteq> None"
    and "distinct (map fst cMap @ fringe)" "set (map fst cMap @ fringe) \<subseteq> set (map fst cm)"
    and "\<forall>g\<in>set (map fst cMap @ fringe). g = llc \<or> (\<exists>q\<in>fst ` set cMap. g \<in> set (concat (children_of cm q)))"
    and "length cm \<le> length cMap + fuel"
  shows "build_groups fuel build cm fringe cMap objs \<noteq> None"
  using assms(3-6)
proof (induction fuel arbitrary: fringe cMap objs)
  case 0
  have "card (set (map fst cMap @ fringe)) \<le> card (set (map fst cm))" using 0(2) by (intro card_mono) auto
  then have "length (map fst cMap @ fringe) \<le> length cm"
    using distinct_card [OF 0(1)] distinct_card [of "map fst cm"] t by (simp add: tree_ok_def)
  then have "length fringe = 0" using 0(4) unfolding length_append length_map by linarith
  then show ?case by simp
next
  case (Suc fuel)
  show ?case
  proof (cases fringe)
    case (Cons g fr)
    let ?ch = "concat (children_of cm g)"
    have g: "map_of cMap g = None" using Suc.prems(1) Cons by (auto simp: map_of_eq_None_iff)
    obtain cg objs1 where bo: "build g (isTerminal cm g) objs = Some (cg, objs1)" using b by fastforce
    have "h \<notin> set (map fst cMap @ fringe)" if h: "h \<in> set ?ch" for h
    proof
      assume "h \<in> set (map fst cMap @ fringe)"
      then obtain q where q: "q \<in> fst ` set cMap" "h \<in> set (concat (children_of cm q))"
        using Suc.prems(3) tree_child(1) [OF t h] by blast
      then have "q = g" using tree_parent_unique [OF t q(2) h] by simp
      then show False using q(1) g by (auto simp: map_of_eq_None_iff)
    qed
    then have "distinct (map fst (cMap @ [(g, cg)]) @ fr @ ?ch)"
      using Suc.prems(1) Cons tree_children_distinct(2) [OF t, of g] by auto
    moreover have "set (map fst (cMap @ [(g, cg)]) @ fr @ ?ch) \<subseteq> set (map fst cm)"
      using Suc.prems(2) Cons tree_child(2) [OF t, of _ g] by auto
    moreover have "\<forall>h\<in>set (map fst (cMap @ [(g, cg)]) @ fr @ ?ch). h = llc \<or>
        (\<exists>q\<in>fst ` set (cMap @ [(g, cg)]). h \<in> set (concat (children_of cm q)))"
      using Suc.prems(3) Cons by auto
    ultimately have "build_groups fuel build cm (fr @ ?ch) (cMap @ [(g, cg)]) objs1 \<noteq> None"
      using Suc.IH [of "cMap @ [(g, cg)]" "fr @ ?ch" objs1] Suc.prems(4) by simp
    then show ?thesis using Cons g bo by simp
  qed simp
qed

section \<open>Connecting\<close>

lemma foldM_append: "foldM f (xs @ ys) s = Option.bind (foldM f xs s) (foldM f ys)"
  by (induction xs arbitrary: s) (auto split: bind_splits)

lemma setParents_ok:
  assumes "setParents net i ps c w = Some w'"
  shows "w_objs w' = w_objs w" "w_mems w' = w_mems w" "w_children w' = w_children w"
    "w_parents w' = (w_parents w)(c := ps)" "w_childId w' = (w_childId w)(c := i)"
  using assms by (auto simp: setParents_def)

lemma setChildren_ok:
  assumes "setChildren net cs p w = Some w'"
  shows "w_objs w' = w_objs w" "w_mems w' = w_mems w" "w_children w' = (w_children w)(p := cs)"
    "w_parents w' = w_parents w" "w_childId w' = w_childId w"
    "w_objs w ! p = CacheBank k \<Longrightarrow> \<not> b_terminal k \<and> length cs \<le> MAX_CACHE_CHILDREN"
  using assms by (auto simp: setChildren_def tcc_init_def Option.bind_eq_Some_conv split: BaseCache.splits if_splits)

text \<open>The parents of a list of banks that are numbered in order.\<close>

lemma foldM_setParents:
  assumes "foldM (\<lambda>(i, c). setParents net i ps c) (zip [n..<n + length cs] cs) w = Some w'" "distinct cs"
  shows "w_objs w' = w_objs w \<and> w_mems w' = w_mems w \<and> w_children w' = w_children w \<and>
    (\<forall>i<length cs. w_parents w' (cs ! i) = ps \<and> w_childId w' (cs ! i) = n + i) \<and>
    (\<forall>c. c \<notin> set cs \<longrightarrow> w_parents w' c = w_parents w c \<and> w_childId w' c = w_childId w c)"
  using assms
proof (induction cs arbitrary: n w)
  case (Cons c cs)
  have z: "zip [n..<n + length (c # cs)] (c # cs) = (n, c) # zip [Suc n..<Suc n + length cs] cs"
    by (simp add: upt_conv_Cons del: upt_Suc)
  obtain w1 where w1: "setParents net n ps c w = Some w1"
    "foldM (\<lambda>(i, c). setParents net i ps c) (zip [Suc n..<Suc n + length cs] cs) w1 = Some w'"
    using Cons.prems(1) unfolding z by (auto simp: Option.bind_eq_Some_conv)
  have "distinct cs" "c \<notin> set cs" using Cons.prems(2) by auto
  note i = Cons.IH [OF w1(2) this(1)] and p = setParents_ok [OF w1(1)]
  have "w_parents w' ((c # cs) ! i) = ps \<and> w_childId w' ((c # cs) ! i) = n + i" if "i < length (c # cs)" for i
    using i p(4,5) that \<open>c \<notin> set cs\<close> by (cases i) auto
  then show ?case using i p by auto
qed simp

lemma foldM_setChildren:
  assumes "foldM (setChildren net cs) ps w = Some w'"
  shows "w_objs w' = w_objs w \<and> w_mems w' = w_mems w \<and> w_parents w' = w_parents w \<and> w_childId w' = w_childId w \<and>
    (\<forall>p. w_children w' p = (if p \<in> set ps then cs else w_children w p)) \<and>
    (\<forall>p\<in>set ps. \<forall>k. w_objs w ! p = CacheBank k \<longrightarrow> \<not> b_terminal k \<and> length cs \<le> MAX_CACHE_CHILDREN)"
  using assms
proof (induction ps arbitrary: w)
  case (Cons p ps)
  then obtain w1 where w1: "setChildren net cs p w = Some w1" "foldM (setChildren net cs) ps w1 = Some w'"
    by (auto simp: Option.bind_eq_Some_conv)
  show ?case using Cons.IH [OF w1(2)] setChildren_ok [OF w1(1)] by auto
qed simp

text \<open>What the links of a list leave behind.\<close>

definition wired :: "(nat list \<times> nat list) list \<Rightarrow> wiring \<Rightarrow> wiring \<Rightarrow> bool" where
  "wired L w w' \<longleftrightarrow> w_objs w' = w_objs w \<and> w_mems w' = w_mems w \<and>
     (\<forall>(ps, cs)\<in>set L.
        (\<forall>i<length cs. w_parents w' (cs ! i) = map CacheObj ps \<and> w_childId w' (cs ! i) = i) \<and>
        (\<forall>p\<in>set ps. w_children w' p = cs \<and>
           (\<forall>k. w_objs w ! p = CacheBank k \<longrightarrow> \<not> b_terminal k \<and> length cs \<le> MAX_CACHE_CHILDREN))) \<and>
     (\<forall>c. c \<notin> set (concat (map snd L)) \<longrightarrow> w_parents w' c = w_parents w c \<and> w_childId w' c = w_childId w c) \<and>
     (\<forall>p. p \<notin> set (concat (map fst L)) \<longrightarrow> w_children w' p = w_children w p)"

lemma connect_link_ok:
  assumes "connect_link net (ps, cs) w = Some w'" "distinct cs"
  shows "wired [(ps, cs)] w w'"
proof -
  obtain w1 where w1: "foldM (\<lambda>(i, c). setParents net i (map CacheObj ps) c) (zip [0..<0 + length cs] cs) w = Some w1"
    "foldM (setChildren net cs) ps w1 = Some w'"
    using assms(1) by (auto simp: connect_link_def Option.bind_eq_Some_conv)
  show ?thesis using foldM_setParents [OF w1(1) assms(2)] foldM_setChildren [OF w1(2)] by (auto simp: wired_def)
qed

lemma wired_cons:
  assumes a: "wired [(ps, cs)] w w1" "wired L w1 w'"
    and d: "distinct (concat (map snd ((ps, cs) # L)))" "distinct (concat (map fst ((ps, cs) # L)))"
  shows "wired ((ps, cs) # L) w w'"
proof -
  have o: "w_objs w1 = w_objs w" "w_mems w1 = w_mems w" "w_objs w' = w_objs w1" "w_mems w' = w_mems w1"
    using a by (simp_all add: wired_def)
  have c: "c \<notin> set (concat (map snd L))" if "c \<in> set cs" for c using d(1) that by auto
  have p: "p \<notin> set (concat (map fst L))" if "p \<in> set ps" for p using d(2) that by auto
  have same: "w_parents w' c = w_parents w1 c \<and> w_childId w' c = w_childId w1 c" if "c \<notin> set (concat (map snd L))" for c
    using a(2) that unfolding wired_def by blast
  have sameC: "w_children w' p = w_children w1 p" if "p \<notin> set (concat (map fst L))" for p
    using a(2) that unfolding wired_def by blast
  have "w_parents w' (cs ! i) = map CacheObj ps \<and> w_childId w' (cs ! i) = i" if "i < length cs" for i
    using a(1) same [OF c] that by (simp add: wired_def)
  moreover have "w_children w' p = cs \<and> (\<forall>k. w_objs w ! p = CacheBank k \<longrightarrow> \<not> b_terminal k \<and> length cs \<le> MAX_CACHE_CHILDREN)"
    if "p \<in> set ps" for p
    using a(1) sameC [OF p [OF that]] that by (simp add: wired_def)
  moreover have "\<forall>(qs, ds)\<in>set L.
        (\<forall>i<length ds. w_parents w' (ds ! i) = map CacheObj qs \<and> w_childId w' (ds ! i) = i) \<and>
        (\<forall>p\<in>set qs. w_children w' p = ds \<and>
           (\<forall>k. w_objs w ! p = CacheBank k \<longrightarrow> \<not> b_terminal k \<and> length ds \<le> MAX_CACHE_CHILDREN))"
    using a(2) o unfolding wired_def by simp
  moreover have "w_parents w' c = w_parents w c \<and> w_childId w' c = w_childId w c" if "c \<notin> set (concat (map snd ((ps, cs) # L)))" for c
    using that same [of c] a(1) by (simp add: wired_def)
  moreover have "w_children w' p = w_children w p" if "p \<notin> set (concat (map fst ((ps, cs) # L)))" for p
    using that sameC [of p] a(1) by (simp add: wired_def)
  ultimately show ?thesis unfolding wired_def using o by simp blast
qed

lemma connect_links_ok:
  assumes "foldM (connect_link net) L w = Some w'" "distinct (concat (map snd L))" "distinct (concat (map fst L))"
  shows "wired L w w'"
  using assms
proof (induction L arbitrary: w)
  case Nil
  then show ?case by (simp add: wired_def)
next
  case (Cons l L)
  obtain ps cs where l: "l = (ps, cs)" by (cases l)
  obtain w1 where w1: "connect_link net (ps, cs) w = Some w1" "foldM (connect_link net) L w1 = Some w'"
    using Cons.prems(1) l by (auto simp: Option.bind_eq_Some_conv)
  have "distinct cs" using Cons.prems(2) l by simp
  then show ?case using wired_cons [OF connect_link_ok [OF w1(1)]] Cons.IH [OF w1(2)] Cons.prems l by auto
qed

section \<open>The links of all groups\<close>

definition links_of ::
  "(string \<times> string list list) list \<Rightarrow> (string \<times> CacheGroup) list \<Rightarrow> string \<Rightarrow> (nat list \<times> nat list) list option" where
  "links_of cm cMap g =
     (if isTerminal cm g then Some []
      else do {
        parentCaches \<leftarrow> map_of cMap g;
        childCaches \<leftarrow> linearize cMap (children_of cm g);
        group_links parentCaches childCaches
      })"

lemma connect_groups_links:
  assumes "foldM (connect_group net cm cMap) gs w = Some w'"
  shows "\<exists>Ls. mapM (links_of cm cMap) gs = Some Ls \<and> foldM (connect_link net) (concat Ls) w = Some w'"
  using assms
proof (induction gs arbitrary: w)
  case (Cons g gs)
  then obtain w1 where w1: "connect_group net cm cMap g w = Some w1" "foldM (connect_group net cm cMap) gs w1 = Some w'"
    by (auto simp: Option.bind_eq_Some_conv)
  obtain Ls where Ls: "mapM (links_of cm cMap) gs = Some Ls" "foldM (connect_link net) (concat Ls) w1 = Some w'"
    using Cons.IH [OF w1(2)] by blast
  obtain L where L: "links_of cm cMap g = Some L" "foldM (connect_link net) L w = Some w1"
    using w1(1) by (auto simp: connect_group_def links_of_def Option.bind_eq_Some_conv split: if_splits)
  show ?case using L Ls by (auto simp: foldM_append)
qed simp

lemma concat_slices:
  "length xs = m * k \<Longrightarrow> concat (map (\<lambda>p. concat (take k (drop (p * k) xs))) [0..<m]) = concat xs"
proof (induction m arbitrary: xs)
  case (Suc m)
  let ?ys = "drop k xs"
  have s: "[0..<Suc m] = 0 # map Suc [0..<m]" by (simp add: map_Suc_upt upt_conv_Cons del: upt_Suc)
  have "concat (map (\<lambda>p. concat (take k (drop (p * k) xs))) [0..<Suc m]) =
      concat (take k xs) @ concat (map (\<lambda>p. concat (take k (drop (p * k) ?ys))) [0..<m])"
    unfolding s by (simp add: comp_def add.commute)
  also have "\<dots> = concat (take k xs) @ concat ?ys" using Suc.IH [of ?ys] Suc.prems by (simp only: length_drop) simp
  also have "\<dots> = concat xs" by (metis append_take_drop_id concat_append)
  finally show ?case .
qed simp

lemma group_links_ok:
  assumes "group_links pc cc = Some L"
  shows "concat (map fst L) = concat pc" "concat (map snd L) = concat cc" "set (map fst L) = set pc"
proof -
  let ?k = "length cc div length pc"
  have L: "L = map (\<lambda>p. (pc ! p, concat (take ?k (drop (p * ?k) cc)))) [0..<length pc]" "length cc mod length pc = 0"
    using assms by (auto simp: group_links_def Let_def)
  have "map fst L = pc" unfolding L(1) by (simp add: comp_def map_nth)
  then show "concat (map fst L) = concat pc" "set (map fst L) = set pc" by simp_all
  have "length cc = length pc * ?k" using L(2) by (metis add.right_neutral mult.commute div_mult_mod_eq)
  then show "concat (map snd L) = concat cc" using concat_slices [of cc "length pc" ?k] unfolding L(1) by (simp add: comp_def)
qed

text \<open>Interleaving and concatenation only permute the banks of the child groups.\<close>

lemma mset_columns:
  "\<forall>g\<in>set gs. length g = n \<Longrightarrow> mset (concat (map (\<lambda>i. map (\<lambda>g. g ! i) gs) [0..<n])) = mset (concat gs)"
proof (induction gs)
  case Nil
  have "concat (map (\<lambda>i. []) [0..<n]) = []" by (induction n) auto
  then show ?case by simp
next
  case (Cons g gs)
  have "mset (concat (map (\<lambda>i. x i # f i) is)) = mset (map x is) + mset (concat (map f is))" for x f and "is" :: "nat list"
    by (induction "is") auto
  from this [of "\<lambda>i. g ! i" "\<lambda>i. map (\<lambda>g. g ! i) gs" "[0..<n]"]
  have "mset (concat (map (\<lambda>i. map (\<lambda>g. g ! i) (g # gs)) [0..<n])) =
      mset (map ((!) g) [0..<n]) + mset (concat (map (\<lambda>i. map (\<lambda>g. g ! i) gs) [0..<n]))"
    by simp
  also have "map ((!) g) [0..<n] = g" using Cons.prems map_nth [of g] by auto
  finally show ?case using Cons by simp
qed

lemma mset_concat_perm: "mset xs = mset ys \<Longrightarrow> mset (concat xs) = mset (concat ys)"
  by (simp add: mset_concat sum_mset_sum_list [symmetric])

lemma mset_concat_concat: "mset (concat (concat xss)) = mset (concat (map concat xss))"
  by (induction xss) auto

lemma mapM_map_of: "mapM (map_of m) ks = Some xs \<Longrightarrow> xs = map (\<lambda>k. the (map_of m k)) ks \<and> set ks \<subseteq> dom (map_of m)"
  by (induction ks arbitrary: xs) (auto simp: Option.bind_eq_Some_conv)

lemma interleave_ok:
  assumes "interleave cMap cs = Some x"
  shows "mset (concat x) = mset (concat (map (\<lambda>c. concat (the (map_of cMap c))) cs))" "set cs \<subseteq> dom (map_of cMap)"
proof -
  have "mset (concat x) = mset (concat (map (\<lambda>c. concat (the (map_of cMap c))) cs)) \<and> set cs \<subseteq> dom (map_of cMap)"
  proof (cases "cs = []")
    case True
    then show ?thesis using assms by (simp add: interleave_def)
  next
    case False
    obtain gs where gs: "mapM (map_of cMap) cs = Some gs" "\<forall>g\<in>set gs. length g = length (hd gs)"
      "x = concat (map (\<lambda>i. map (\<lambda>g. g ! i) gs) [0..<length (hd gs)])"
      using assms False by (auto simp: interleave_def Let_def list_all_iff Option.bind_eq_Some_conv)
    have "mset (concat x) = mset (concat (concat gs))"
      using mset_columns [OF gs(2)] unfolding gs(3) by (rule mset_concat_perm)
    then show ?thesis using mapM_map_of [OF gs(1)] by (simp add: mset_concat_concat comp_def)
  qed
  then show "mset (concat x) = mset (concat (map (\<lambda>c. concat (the (map_of cMap c))) cs))" "set cs \<subseteq> dom (map_of cMap)" by auto
qed

lemma linearize_ok:
  assumes "linearize cMap cvs = Some cc"
  shows "mset (concat cc) = mset (concat (map (\<lambda>c. concat (the (map_of cMap c))) (concat cvs)))" "set (concat cvs) \<subseteq> dom (map_of cMap)"
proof -
  obtain xs where "mapM (interleave cMap) cvs = Some xs" "cc = concat xs" using assms by (auto simp: linearize_def)
  then have "mset (concat cc) = mset (concat (map (\<lambda>c. concat (the (map_of cMap c))) (concat cvs))) \<and> set (concat cvs) \<subseteq> dom (map_of cMap)"
  proof (induction cvs arbitrary: xs cc)
    case (Cons cv cvs)
    then obtain y ys where y: "interleave cMap cv = Some y" "mapM (interleave cMap) cvs = Some ys" "xs = y # ys"
      by (auto simp: Option.bind_eq_Some_conv)
    show ?case using interleave_ok [OF y(1)] Cons.IH [OF y(2) refl] y(3) Cons.prems(2) by simp
  qed auto
  then show "mset (concat cc) = mset (concat (map (\<lambda>c. concat (the (map_of cMap c))) (concat cvs)))" "set (concat cvs) \<subseteq> dom (map_of cMap)"
    by auto
qed

section \<open>The connected hierarchy\<close>

definition banks_of :: "(string \<times> CacheGroup) list \<Rightarrow> string \<Rightarrow> nat list" where
  "banks_of cMap g = concat (the (map_of cMap g))"

lemma links_of_ok:
  assumes "links_of cm cMap g = Some L"
  shows "concat (map fst L) = (if isTerminal cm g then [] else banks_of cMap g)"
    "mset (concat (map snd L)) = mset (concat (map (banks_of cMap) (concat (children_of cm g))))"
    "\<not> isTerminal cm g \<Longrightarrow> g \<in> dom (map_of cMap) \<and> set (map fst L) = set (the (map_of cMap g))"
proof -
  have "concat (map fst L) = (if isTerminal cm g then [] else banks_of cMap g) \<and>
      mset (concat (map snd L)) = mset (concat (map (banks_of cMap) (concat (children_of cm g)))) \<and>
      (\<not> isTerminal cm g \<longrightarrow> g \<in> dom (map_of cMap) \<and> set (map fst L) = set (the (map_of cMap g)))"
  proof (cases "isTerminal cm g")
    case True
    then show ?thesis using assms by (simp add: links_of_def isTerminal_def)
  next
    case False
    then obtain pc cc where pc: "map_of cMap g = Some pc" "linearize cMap (children_of cm g) = Some cc" "group_links pc cc = Some L"
      using assms by (auto simp: links_of_def Option.bind_eq_Some_conv)
    then show ?thesis using False group_links_ok [OF pc(3)] linearize_ok(1) [OF pc(2)]
      by (auto simp: banks_of_def [abs_def])
  qed
  then show "concat (map fst L) = (if isTerminal cm g then [] else banks_of cMap g)"
    "mset (concat (map snd L)) = mset (concat (map (banks_of cMap) (concat (children_of cm g))))"
    "\<not> isTerminal cm g \<Longrightarrow> g \<in> dom (map_of cMap) \<and> set (map fst L) = set (the (map_of cMap g))"
    by auto
qed

lemma all_links_ok:
  assumes "mapM (links_of cm cMap) gs = Some Ls"
  shows "concat (map fst (concat Ls)) = concat (map (banks_of cMap) (filter (\<lambda>g. \<not> isTerminal cm g) gs))"
    "mset (concat (map snd (concat Ls))) = mset (concat (map (banks_of cMap) (concat (map (\<lambda>g. concat (children_of cm g)) gs))))"
proof -
  have "concat (map fst (concat Ls)) = concat (map (banks_of cMap) (filter (\<lambda>g. \<not> isTerminal cm g) gs)) \<and>
    mset (concat (map snd (concat Ls))) = mset (concat (map (banks_of cMap) (concat (map (\<lambda>g. concat (children_of cm g)) gs))))"
    using assms
  proof (induction gs arbitrary: Ls)
    case (Cons g gs)
    then obtain L Ls' where L: "links_of cm cMap g = Some L" "mapM (links_of cm cMap) gs = Some Ls'" "Ls = L # Ls'"
      by (auto simp: Option.bind_eq_Some_conv)
    show ?case using links_of_ok(1,2) [OF L(1)] Cons.IH [OF L(2)] L(3) by simp
  qed simp
  then show "concat (map fst (concat Ls)) = concat (map (banks_of cMap) (filter (\<lambda>g. \<not> isTerminal cm g) gs))"
    "mset (concat (map snd (concat Ls))) = mset (concat (map (banks_of cMap) (concat (map (\<lambda>g. concat (children_of cm g)) gs))))"
    by auto
qed

lemma banks_distinct:
  assumes "groups_inv cm llc [] cMap objs" "distinct ks" "set ks \<subseteq> dom (map_of cMap)"
  shows "distinct (concat (map (banks_of cMap) ks))"
proof (rule distinct_by_keys [where m = "map (\<lambda>(g, cg). (g, concat cg)) cMap"])
  have e: "map snd (map (\<lambda>(g, cg). (g, concat cg)) cMap) = map (concat \<circ> snd) cMap" by (induction cMap) auto
  have "concat (map (concat \<circ> snd) cMap) = [0..<length objs]" using assms(1) by (simp add: groups_inv_def)
  then show "distinct (concat (map snd (map (\<lambda>(g, cg). (g, concat cg)) cMap)))" unfolding e by simp
  show "map_of (map (\<lambda>(g, cg). (g, concat cg)) cMap) k = Some (banks_of cMap k)" if "k \<in> set ks" for k
    using assms(3) that by (force simp: map_of_map banks_of_def)
qed (rule assms(2))

text \<open>Everything a successful start leaves behind.\<close>

definition built ::
  "(string \<times> string list list) list \<Rightarrow> string \<Rightarrow> (string \<times> CacheGroup) list \<Rightarrow> nat list \<Rightarrow> (nat list \<times> nat list) list \<Rightarrow> wiring \<Rightarrow> bool" where
  "built cm llc cMap llcBanks L w \<longleftrightarrow> tree_ok cm llc \<and> groups_inv cm llc [] cMap (w_objs w) \<and> set (map fst cm) = fst ` set cMap \<and>
     map_of cMap llc = Some [llcBanks] \<and> (isTerminal cm llc \<longrightarrow> length llcBanks = 1) \<and> w_mems w \<noteq> [] \<and>
     (\<forall>c\<in>set llcBanks. w_parents w c = map MemObj [0..<length (w_mems w)]) \<and>
     (\<forall>c. c \<notin> set (concat (map snd L)) \<longrightarrow> c \<notin> set llcBanks \<longrightarrow> w_parents w c = []) \<and>
     (\<exists>w1. wired L w1 w \<and> (\<forall>p. w_children w1 p = [])) \<and>
     (\<exists>Ls. mapM (links_of cm cMap) (map fst cm) = Some Ls \<and> L = concat Ls)"

lemma init_hierarchy_built:
  assumes "init_hierarchy fnv cfg zi net = Some (cm, pm, cMap, w)"
  shows "\<exists>llc llcBanks L. built cm llc cMap llcBanks L w \<and> map fst cm = subgroups cfg ''sys.caches'' \<and> pm = edges cm"
proof -
  let ?gs = "subgroups cfg ''sys.caches''"
  obtain llc objs llcs mems w1 where h: "read_groups cfg ?gs [] [] = Some (cm, pm)" "find_llc cm pm ?gs = Some llc"
    "build_groups (length ?gs) (BuildCacheGroup fnv cfg zi) cm [llc] [] [] = Some (cMap, objs)"
    "map_of cMap llc = Some llcs" "length llcs = 1" "build_mems cfg zi = Some mems"
    "connect_mem net (hd llcs) (wiring_new objs mems) = Some w1" "foldM (connect_group net cm cMap) ?gs w1 = Some w"
    "list_all (check_terminal cm cMap) ?gs"
    using assms by (auto simp: init_hierarchy_def Let_def Option.bind_eq_Some_conv)
  note t = read_tree_ok [OF h(1,2)]
  have "groups_inv cm llc [llc] [] []" by (simp add: groups_inv_def)
  note inv = build_groups_inv [OF h(3) this BuildCacheGroup_ok]
  obtain Ls where Ls: "mapM (links_of cm cMap) ?gs = Some Ls" "foldM (connect_link net) (concat Ls) w1 = Some w"
    using connect_groups_links [OF h(8)] by blast
  note a = all_links_ok [OF Ls(1)]
  have dm: "g \<in> dom (map_of cMap)" if g: "g \<in> set ?gs" for g
  proof (cases "isTerminal cm g")
    case True
    then show ?thesis using h(9) g by (auto simp: list_all_iff check_terminal_def split: option.splits)
  next
    case False
    obtain i where "i < length ?gs" "?gs ! i = g" using g by (auto simp: in_set_conv_nth)
    then have "links_of cm cMap g = Some (Ls ! i)" using Ls(1) by (auto simp: mapM_Some_iff)
    then show ?thesis using links_of_ok(3) False by blast
  qed
  let ?ch = "concat (map (\<lambda>g. concat (children_of cm g)) ?gs)"
  have cg: "c \<noteq> llc \<and> c \<in> set ?gs" if c: "c \<in> set ?ch" for c
  proof -
    obtain q where "c \<in> set (concat (children_of cm q))" using c by auto
    then show ?thesis using tree_child(1,2) [OF t(1)] unfolding t(2) by blast
  qed
  moreover have "llc \<in> set ?gs" using t(1) unfolding tree_ok_def t(2) by blast
  ultimately have "set (llc # ?ch) \<subseteq> set ?gs" by auto
  then have ch: "set (llc # ?ch) \<subseteq> dom (map_of cMap)" "distinct (llc # ?ch)"
    using dm tree_children_distinct(1) [OF t(1)] cg [of llc] unfolding t(2) distinct.simps by blast+
  note db = banks_distinct [OF inv ch(2,1)]
  have dsnd: "distinct (concat (map snd (concat Ls)))" using mset_eq_imp_distinct_iff [OF a(2)] db by simp
  have "distinct ?gs" using t(1,2) by (auto simp: tree_ok_def)
  then have dfst: "distinct (concat (map fst (concat Ls)))"
    unfolding a(1) using dm by (intro banks_distinct [OF inv]) auto
  note wd = connect_links_ok [OF Ls(2) dsnd dfst]
  have llcs: "llcs = [hd llcs]" using h(5) by (cases llcs) auto
  have llc: "banks_of cMap llc = hd llcs" using h(4) llcs by (metis banks_of_def concat.simps append_Nil2 option.sel)
  have single: "isTerminal cm llc \<Longrightarrow> length (hd llcs) = 1"
    using h(4,9) \<open>llc \<in> set ?gs\<close> by (auto simp: list_all_iff check_terminal_def)
  have "distinct (hd llcs)" using db llc by simp
  then have m: "w_objs w1 = objs" "w_mems w1 = mems" "\<forall>p. w_children w1 p = []"
    "\<forall>c\<in>set (hd llcs). w_parents w1 c = map MemObj [0..<length mems]" "\<forall>c. c \<notin> set (hd llcs) \<longrightarrow> w_parents w1 c = []"
    using foldM_setParents [of net _ 0 "hd llcs" "wiring_new objs mems" w1] h(7)
    by (auto simp: connect_mem_def wiring_new_def in_set_conv_nth)
  have sn: "set (concat (map snd (concat Ls))) = set (concat (map (banks_of cMap) ?ch))" using mset_eq_setD [OF a(2)] .
  have "c \<notin> set (concat (map snd (concat Ls)))" if "c \<in> set (hd llcs)" for c
    using db that llc unfolding sn by auto
  then have lp: "w_parents w c = w_parents w1 c" if "c \<in> set (hd llcs) \<or> c \<notin> set (concat (map snd (concat Ls)))" for c
    using wd that unfolding wired_def by blast
  have wo: "w_objs w = objs" "w_mems w = mems" using wd m(1,2) by (simp_all add: wired_def)
  have "mems \<noteq> []"
    using h(6) by (auto simp: build_mems_def Option.bind_eq_Some_conv dest!: mapM_length split: if_splits)
  moreover have names: "set (map fst cm) = fst ` set cMap"
  proof
    show "set (map fst cm) \<subseteq> fst ` set cMap" using dm t(2) by (auto simp: map_of_eq_None_iff dom_map_of_conv_image_fst)
    show "fst ` set cMap \<subseteq> set (map fst cm)"
    proof
      fix g assume "g \<in> fst ` set cMap"
      then obtain i where i: "i < length cMap" "g = fst (cMap ! i)" by (auto simp: in_set_conv_nth)
      then have "g = llc \<or> (\<exists>q. g \<in> set (concat (children_of cm q)))" using inv unfolding groups_inv_def by blast
      then show "g \<in> set (map fst cm)" using tree_child(2) [OF t(1)] t(1) unfolding tree_ok_def by blast
    qed
  qed
  moreover have "\<exists>w1. wired (concat Ls) w1 w \<and> (\<forall>p. w_children w1 p = [])" using wd m(3) by blast
  moreover have "\<exists>Ls'. mapM (links_of cm cMap) (map fst cm) = Some Ls' \<and> concat Ls = concat Ls'" using Ls(1) t(2) by simp
  ultimately have "built cm llc cMap (hd llcs) (concat Ls) w"
    using t(1) inv h(4) llcs single lp m(4,5) unfolding built_def wo by simp
  then show ?thesis using t by blast
qed

lemma built_groups:
  assumes "built cm llc cMap llcBanks L w"
  shows "tree_ok cm llc" "distinct (map fst cMap)" "concat (map (concat \<circ> snd) cMap) = [0..<length (w_objs w)]"
    "i < length cMap \<Longrightarrow> banks_of cMap (fst (cMap ! i)) = concat (snd (cMap ! i))"
    "g \<in> set (map fst cm) \<Longrightarrow> \<exists>i<length cMap. g = fst (cMap ! i)"
    "g \<in> set (map fst cm) \<Longrightarrow> c \<in> set (banks_of cMap g) \<Longrightarrow> c < length (w_objs w) \<and> bank_of_kind (isTerminal cm g) (w_objs w ! c)"
proof -
  have inv: "groups_inv cm llc [] cMap (w_objs w)" and n: "set (map fst cm) = fst ` set cMap" using assms by (simp_all add: built_def)
  show "tree_ok cm llc" using assms by (simp add: built_def)
  show d: "distinct (map fst cMap)" and o: "concat (map (concat \<circ> snd) cMap) = [0..<length (w_objs w)]"
    using inv by (simp_all add: groups_inv_def)
  show b: "banks_of cMap (fst (cMap ! i)) = concat (snd (cMap ! i))" if "i < length cMap" for i
    using map_of_is_SomeI [OF d, of "fst (cMap ! i)" "snd (cMap ! i)"] that by (simp add: banks_of_def)
  show x: "\<exists>i<length cMap. g = fst (cMap ! i)" if g: "g \<in> set (map fst cm)" for g
  proof -
    obtain y where "y \<in> set cMap" "g = fst y" using g n by auto
    then show ?thesis by (metis in_set_conv_nth)
  qed
  show "c < length (w_objs w) \<and> bank_of_kind (isTerminal cm g) (w_objs w ! c)"
    if g: "g \<in> set (map fst cm)" "c \<in> set (banks_of cMap g)"
  proof -
    obtain i where i: "i < length cMap" "g = fst (cMap ! i)" using x [OF g(1)] by blast
    have c: "c \<in> set (concat (snd (cMap ! i)))" using g(2) b [OF i(1)] i(2) by simp
    have "c \<in> set (concat (map (concat \<circ> snd) cMap))" using c i(1) nth_mem [OF i(1)] by fastforce
    then have "c < length (w_objs w)" unfolding o by simp
    moreover have "(g, snd (cMap ! i)) \<in> set cMap" using i nth_mem [OF i(1)] by simp
    ultimately show ?thesis using inv c unfolding groups_inv_def by blast
  qed
qed

lemma built_bank:
  assumes "built cm llc cMap llcBanks L w" "c < length (w_objs w)"
  obtains g where "g \<in> set (map fst cm)" "c \<in> set (banks_of cMap g)"
proof -
  note b = built_groups [OF assms(1)]
  have "c \<in> set (concat (map (concat \<circ> snd) cMap))" unfolding b(3) using assms(2) by simp
  then obtain x where x: "x \<in> set cMap" "c \<in> set (concat (snd x))" by auto
  then obtain i where i: "i < length cMap" "x = cMap ! i" by (auto simp: in_set_conv_nth)
  have "fst x \<in> set (map fst cm)" using x(1) assms(1) by (simp add: built_def)
  then show ?thesis using that [of "fst x"] b(4) [OF i(1)] i(2) x(2) by simp
qed

lemma built_link:
  assumes "built cm llc cMap llcBanks L w" "(ps, cs) \<in> set L"
  obtains q where "q \<in> set (map fst cm)" "\<not> isTerminal cm q" "ps \<in> set (the (map_of cMap q))" "set ps \<subseteq> set (banks_of cMap q)"
    "\<And>c. c \<in> set cs \<Longrightarrow> \<exists>g\<in>set (concat (children_of cm q)). c \<in> set (banks_of cMap g)"
proof -
  obtain Ls where Ls: "mapM (links_of cm cMap) (map fst cm) = Some Ls" "L = concat Ls" using assms(1) by (auto simp: built_def)
  then obtain M where M: "M \<in> set Ls" "(ps, cs) \<in> set M" using assms(2) by auto
  obtain q where q: "q \<in> set (map fst cm)" "links_of cm cMap q = Some M" using mapM_set [OF Ls(1) M(1)] by blast
  note l = links_of_ok [OF q(2)]
  have t: "\<not> isTerminal cm q" using q(2) M(2) by (auto simp: links_of_def)
  have "ps \<in> set (map fst M)" using M(2) by force
  then have ps: "ps \<in> set (the (map_of cMap q))" using l(3) [OF t] by simp
  then have "set ps \<subseteq> set (banks_of cMap q)" by (auto simp: banks_of_def)
  moreover have "\<exists>g\<in>set (concat (children_of cm q)). c \<in> set (banks_of cMap g)" if "c \<in> set cs" for c
  proof -
    have "c \<in> set (concat (map snd M))" using that M(2) by force
    then have "c \<in> set (concat (map (banks_of cMap) (concat (children_of cm q))))" using mset_eq_setD [OF l(2)] by blast
    then show ?thesis by auto
  qed
  ultimately show ?thesis using that q(1) t ps by blast
qed

text \<open>Banks are built after the banks of their parents.\<close>

lemma built_order:
  assumes b: "built cm llc cMap llcBanks L w" and "g \<in> set (concat (children_of cm q))"
    and "p \<in> set (banks_of cMap q)" "c \<in> set (banks_of cMap g)"
  shows "p < c"
proof -
  note bg = built_groups [OF b] and tc = tree_child [OF built_groups(1) [OF b] assms(2)]
  obtain i where i: "i < length cMap" "g = fst (cMap ! i)" using bg(5) tc(2) by blast
  have inv: "groups_inv cm llc [] cMap (w_objs w)" using b by (simp add: built_def)
  then obtain j where j: "j < i" "g \<in> set (concat (children_of cm (fst (cMap ! j))))"
    using i tc(1) unfolding groups_inv_def by blast
  have "fst (cMap ! j) = q" using tree_parent_unique [OF bg(1) j(2) assms(2)] .
  then have "p \<in> set ((concat \<circ> snd) (cMap ! j))" "c \<in> set ((concat \<circ> snd) (cMap ! i))"
    using assms(3,4) bg(4) [of i] bg(4) [of j] i j(1) by auto
  moreover have "sorted_wrt (<) (concat (map (concat \<circ> snd) cMap))" unfolding bg(3) by simp
  ultimately show ?thesis using sorted_concat_less [of "concat \<circ> snd" cMap j i p c] i(1) j(1) by blast
qed

lemma built_child:
  assumes b: "built cm llc cMap llcBanks L w" and "c < length (w_objs w)" "c \<notin> set llcBanks"
  obtains ps cs where "(ps, cs) \<in> set L" "c \<in> set cs" "ps \<noteq> []"
proof -
  note bg = built_groups [OF b]
  obtain g where g: "g \<in> set (map fst cm)" "c \<in> set (banks_of cMap g)" using built_bank [OF b assms(2)] .
  have "g \<noteq> llc" using g(2) assms(3) b by (auto simp: built_def banks_of_def)
  then have "g \<in> fst ` set (edges cm)" using bg(1) g(1) unfolding tree_ok_def by blast
  then obtain q where q: "(g, q) \<in> set (edges cm)" by auto
  have gq: "g \<in> set (concat (children_of cm q))" using q bg(1) edges_iff by (auto simp: tree_ok_def)
  obtain Ls where Ls: "mapM (links_of cm cMap) (map fst cm) = Some Ls" "L = concat Ls" using b by (auto simp: built_def)
  have "g \<in> set (concat (map (\<lambda>g. concat (children_of cm g)) (map fst cm)))" using gq tree_child(3) [OF bg(1) gq] by auto
  then have "c \<in> set (concat (map snd L))" using mset_eq_setD [OF all_links_ok(2) [OF Ls(1)]] g(2) Ls(2) by auto
  then obtain ps cs where l: "(ps, cs) \<in> set L" "c \<in> set cs" by auto
  obtain q' where q': "q' \<in> set (map fst cm)" "ps \<in> set (the (map_of cMap q'))" using built_link [OF b l(1)] by metis
  obtain i where i: "i < length cMap" "q' = fst (cMap ! i)" using bg(5) [OF q'(1)] by blast
  have "the (map_of cMap q') = snd (cMap ! i)"
    using map_of_is_SomeI [OF bg(2), of q' "snd (cMap ! i)"] i nth_mem [OF i(1)] by simp
  moreover have "[] \<notin> set (snd (cMap ! i))"
    using b i nth_mem [OF i(1)] unfolding built_def groups_inv_def by (metis (no_types, lifting) case_prodD prod.collapse)
  ultimately have "ps \<noteq> []" using q'(2) by auto
  then show ?thesis using that l by blast
qed

section \<open>The topology\<close>

text \<open>The configuration of a bank that the coherence model works with.\<close>

definition hier_cfg :: "(bank \<Rightarrow> 'a CacheArray) \<Rightarrow> wiring \<Rightarrow> nat \<Rightarrow> 'a cache_cfg" where
  "hier_cfg ops w c =
     (let b = (case w_objs w ! c of CacheBank b \<Rightarrow> b) in
      \<lparr>cfg_terminal = b_terminal b, cfg_nonInclusiveHack = b_nonInclusiveHack b, cfg_parents = w_parents w c,
       cfg_parentRTTs = w_parentRTTs w c, cfg_selfId = w_childId w c, cfg_children = w_children w c,
       cfg_childrenRTTs = w_childrenRTTs w c, cfg_numLines = b_numLines b, cfg_accLat = b_accLat b,
       cfg_invLat = b_invLat b, cfg_ops = ops b\<rparr>)"

text \<open>Only inclusive caches with coherence controllers, no prefetchers or trace proxies.\<close>

definition plain :: "wiring \<Rightarrow> bool" where
  "plain w \<longleftrightarrow> (\<forall>x\<in>set (w_objs w). case x of CacheBank b \<Rightarrow> \<not> b_nonInclusiveHack b | _ \<Rightarrow> False)"

lemma plainD:
  assumes "plain w" "c < length (w_objs w)"
  shows "\<exists>b. w_objs w ! c = CacheBank b \<and> \<not> b_nonInclusiveHack b"
proof -
  have "case w_objs w ! c of CacheBank b \<Rightarrow> \<not> b_nonInclusiveHack b | _ \<Rightarrow> False"
    using assms unfolding plain_def by simp
  then show ?thesis by (cases "w_objs w ! c") simp_all
qed

lemma hier_cfg_simps [simp]:
  "cfg_parents (hier_cfg ops w c) = w_parents w c" "cfg_selfId (hier_cfg ops w c) = w_childId w c"
  "cfg_children (hier_cfg ops w c) = w_children w c"
  "w_objs w ! c = CacheBank b \<Longrightarrow> cfg_terminal (hier_cfg ops w c) = b_terminal b"
  "w_objs w ! c = CacheBank b \<Longrightarrow> cfg_nonInclusiveHack (hier_cfg ops w c) = b_nonInclusiveHack b"
  "w_objs w ! c = CacheBank b \<Longrightarrow> cfg_numLines (hier_cfg ops w c) = b_numLines b"
  "w_objs w ! c = CacheBank b \<Longrightarrow> cfg_ops (hier_cfg ops w c) = ops b"
  by (simp_all add: hier_cfg_def Let_def)

lemma built_wired:
  assumes "built cm llc cMap llcBanks L w" "(ps, cs) \<in> set L"
  shows "i < length cs \<Longrightarrow> w_parents w (cs ! i) = map CacheObj ps \<and> w_childId w (cs ! i) = i"
    "p \<in> set ps \<Longrightarrow> w_children w p = cs"
    "p \<in> set ps \<Longrightarrow> w_objs w ! p = CacheBank k \<Longrightarrow> \<not> b_terminal k \<and> length cs \<le> MAX_CACHE_CHILDREN"
proof -
  obtain w1 where "wired L w1 w" using assms(1) by (auto simp: built_def)
  then have "(\<forall>i<length cs. w_parents w (cs ! i) = map CacheObj ps \<and> w_childId w (cs ! i) = i) \<and>
        (\<forall>p\<in>set ps. w_children w p = cs \<and>
           (\<forall>k. w_objs w1 ! p = CacheBank k \<longrightarrow> \<not> b_terminal k \<and> length cs \<le> MAX_CACHE_CHILDREN))" "w_objs w = w_objs w1"
    using assms(2) unfolding wired_def by blast+
  then show "i < length cs \<Longrightarrow> w_parents w (cs ! i) = map CacheObj ps \<and> w_childId w (cs ! i) = i"
    "p \<in> set ps \<Longrightarrow> w_children w p = cs"
    "p \<in> set ps \<Longrightarrow> w_objs w ! p = CacheBank k \<Longrightarrow> \<not> b_terminal k \<and> length cs \<le> MAX_CACHE_CHILDREN"
    by auto
qed

lemma built_no_children:
  assumes "built cm llc cMap llcBanks L w" "w_children w p \<noteq> []"
  obtains ps cs where "(ps, cs) \<in> set L" "p \<in> set ps"
proof -
  obtain w1 where w1: "wired L w1 w" "\<forall>p. w_children w1 p = []" using assms(1) by (auto simp: built_def)
  have "p \<in> set (concat (map fst L))" using w1 assms(2) unfolding wired_def by metis
  then show ?thesis using that by force
qed

lemma built_parents:
  assumes b: "built cm llc cMap llcBanks L w" and c: "c < length (w_objs w)"
  shows "w_parents w c \<noteq> []"
    "CacheObj p \<in> set (w_parents w c) \<Longrightarrow> \<exists>ps cs i. (ps, cs) \<in> set L \<and> p \<in> set ps \<and> i < length cs \<and> cs ! i = c"
proof -
  have "w_parents w c \<noteq> [] \<and> (CacheObj p \<in> set (w_parents w c) \<longrightarrow>
      (\<exists>ps cs i. (ps, cs) \<in> set L \<and> p \<in> set ps \<and> i < length cs \<and> cs ! i = c))"
  proof (cases "c \<in> set llcBanks")
    case True
    then have "w_parents w c = map MemObj [0..<length (w_mems w)]" "w_mems w \<noteq> []" using b by (auto simp: built_def)
    then show ?thesis by auto
  next
    case False
    obtain ps cs where l: "(ps, cs) \<in> set L" "c \<in> set cs" "ps \<noteq> []" using built_child [OF b c False] .
    then obtain i where i: "i < length cs" "cs ! i = c" by (auto simp: in_set_conv_nth)
    have "w_parents w c = map CacheObj ps" using built_wired(1) [OF b l(1) i(1)] i(2) by simp
    then show ?thesis using l i by auto
  qed
  then show "w_parents w c \<noteq> []"
    "CacheObj p \<in> set (w_parents w c) \<Longrightarrow> \<exists>ps cs i. (ps, cs) \<in> set L \<and> p \<in> set ps \<and> i < length cs \<and> cs ! i = c" by auto
qed

lemma built_link_banks:
  assumes b: "built cm llc cMap llcBanks L w" and l: "(ps, cs) \<in> set L" "p \<in> set ps" "c \<in> set cs"
  shows "p < c" "c < length (w_objs w)" "p < length (w_objs w)"
proof -
  obtain q g where q: "q \<in> set (map fst cm)" "set ps \<subseteq> set (banks_of cMap q)" "g \<in> set (concat (children_of cm q))" "c \<in> set (banks_of cMap g)"
    using built_link [OF b l(1)] l(3) by metis
  show "p < c" using built_order [OF b q(3) _ q(4)] q(2) l(2) by blast
  have "g \<in> set (map fst cm)" using tree_child(2) [OF built_groups(1) [OF b] q(3)] .
  then show c: "c < length (w_objs w)" using built_groups(6) [OF b _ q(4)] by blast
  then show "p < length (w_objs w)" using \<open>p < c\<close> by simp
qed

lemma built_topology:
  assumes b: "built cm llc cMap llcBanks L w" and pl: "plain w"
  shows "topology (hier_cfg ops w) {..<length (w_objs w)} (\<lambda>c. length (w_objs w) - 1 - c) (length (w_objs w))"
proof
  fix c assume "c \<in> {..<length (w_objs w)}"
  then have c: "c < length (w_objs w)" by simp
  note k = plainD [OF pl]
  show "\<not> cfg_nonInclusiveHack (hier_cfg ops w c)" using k [OF c] by auto
  show "cfg_parents (hier_cfg ops w c) \<noteq> []" using built_parents(1) [OF b c] by simp
  show "length (w_objs w) - 1 - c < length (w_objs w)" using c by simp
  show "cfg_children (hier_cfg ops w c) = []" if t: "cfg_terminal (hier_cfg ops w c)"
  proof (rule ccontr)
    assume "cfg_children (hier_cfg ops w c) \<noteq> []"
    then obtain ps cs where l: "(ps, cs) \<in> set L" "c \<in> set ps" using built_no_children [OF b, of c] by auto
    obtain k where "w_objs w ! c = CacheBank k" using k [OF c] by blast
    then show False using built_wired(3) [OF b l] t by simp
  qed
  show "length (cfg_children (hier_cfg ops w c)) \<le> MAX_CACHE_CHILDREN"
  proof (cases "w_children w c = []")
    case False
    obtain ps cs where l: "(ps, cs) \<in> set L" "c \<in> set ps" using built_no_children [OF b False] .
    obtain k where "w_objs w ! c = CacheBank k" using k [OF c] by blast
    then show ?thesis using built_wired(2,3) [OF b l] by simp
  qed simp
  show "p \<in> {..<length (w_objs w)} \<and> \<not> cfg_terminal (hier_cfg ops w p) \<and>
      cfg_selfId (hier_cfg ops w c) < length (cfg_children (hier_cfg ops w p)) \<and>
      cfg_children (hier_cfg ops w p) ! cfg_selfId (hier_cfg ops w c) = c \<and>
      length (w_objs w) - 1 - c < length (w_objs w) - 1 - p"
    if p: "CacheObj p \<in> set (cfg_parents (hier_cfg ops w c))" for p
  proof -
    obtain ps cs i where l: "(ps, cs) \<in> set L" "p \<in> set ps" "i < length cs" "cs ! i = c"
      using built_parents(2) [OF b c, of p] p by auto
    have "c \<in> set cs" using l(3,4) by auto
    note o = built_link_banks [OF b l(1,2) this]
    obtain k where k: "w_objs w ! p = CacheBank k" using plainD [OF pl o(3)] by blast
    show ?thesis using built_wired [OF b l(1)] l(2-4) k o by auto
  qed
  show "cfg_children (hier_cfg ops w c) ! i \<in> {..<length (w_objs w)} \<and>
      CacheObj c \<in> set (cfg_parents (hier_cfg ops w (cfg_children (hier_cfg ops w c) ! i))) \<and>
      cfg_selfId (hier_cfg ops w (cfg_children (hier_cfg ops w c) ! i)) = i"
    if i: "i < length (cfg_children (hier_cfg ops w c))" for i
  proof -
    have "w_children w c \<noteq> []" using i by auto
    then obtain ps cs where l: "(ps, cs) \<in> set L" "c \<in> set ps" using built_no_children [OF b] by blast
    have cs: "w_children w c = cs" using built_wired(2) [OF b l] .
    then have "cs ! i \<in> set cs" using i by simp
    then show ?thesis using built_wired(1) [OF b l(1), of i] built_link_banks(2) [OF b l] i l(2) cs by auto
  qed
qed

end
