(* ===== verification/Init_Run.thy ===== *)
theory Init_Run
  imports Init_Topology
begin

text \<open>
  The hierarchy that \<open>InitSystem\<close> builds, running: the objects that \<open>BuildCacheBank\<close> and
  \<open>BuildMemoryController\<close> name are created with the constructors of the component theories, and the
  coherence proofs apply to the result. Set-associative arrays with LRU, NRU or LFU replacement and
  zcache arrays with LRU or LFU replacement, hashed by the identity or by H3, are covered; the
  memories are the fixed-latency and the M/D/1 controllers, possibly behind the address splitter
  (\<open>SplitAddrMemory\<close> of src/src/dramsim_mem_ctrl.h).
\<close>

section \<open>Arrays of any kind\<close>

datatype any_array =
  SA_LRU "LRUReplPolicy SetAssocArray" | SA_NRU "NRUReplPolicy SetAssocArray" | SA_LFU "LFUReplPolicy SetAssocArray"
| Z_LRU "LRUReplPolicy ZArray" | Z_LFU "LFUReplPolicy ZArray"

text \<open>The virtual calls of one kind of array, on arrays of any kind.\<close>

definition lift_ops :: "('b \<Rightarrow> 'a) \<Rightarrow> ('a \<Rightarrow> 'b option) \<Rightarrow> 'b CacheArray \<Rightarrow> 'a CacheArray" where
  "lift_ops wrap unwrap ops =
     \<lparr>ca_lookup = (\<lambda>L rq upd a. do { b \<leftarrow> unwrap a; (r, b') \<leftarrow> ca_lookup ops L rq upd b; Some (r, wrap b') }),
      ca_preinsert = (\<lambda>ns vl L req a. do { b \<leftarrow> unwrap a; (r, b') \<leftarrow> ca_preinsert ops ns vl L req b; Some (r, wrap b') }),
      ca_postinsert = (\<lambda>L req c a. do { b \<leftarrow> unwrap a; b' \<leftarrow> ca_postinsert ops L req c b; Some (wrap b') })\<rparr>"

lemma lift_cache_array:
  assumes "cache_array ops iv pend contents n"
    and u: "\<And>b. unwrap (wrap b) = Some b" and c: "\<And>b. contents' (wrap b) = contents b"
  shows "cache_array (lift_ops wrap unwrap ops) (\<lambda>a. \<exists>b. a = wrap b \<and> iv b) (\<lambda>L i a. \<exists>b. a = wrap b \<and> pend L i b) contents' n"
proof -
  note l = cache_array.lookup_peek [OF assms(1)] cache_array.lookup_touch [OF assms(1)] cache_array.lookup_line [OF assms(1)]
    cache_array.preinsert_ok [OF assms(1)] cache_array.postinsert_ok [OF assms(1)]
  show ?thesis
  proof
    show "\<exists>r. ca_lookup (lift_ops wrap unwrap ops) L rq False a = Some (r, a)"
      if "\<exists>b. a = wrap b \<and> iv b" "L \<noteq> 0" for a L rq
    proof -
      obtain b r where "a = wrap b" "ca_lookup ops L rq False b = Some (r, b)" using \<open>\<exists>b. a = wrap b \<and> iv b\<close> l(1) \<open>L \<noteq> 0\<close> by blast
      then show ?thesis by (simp add: lift_ops_def u)
    qed
    show "\<exists>r a'. ca_lookup (lift_ops wrap unwrap ops) L (Some q) True a = Some (r, a') \<and> (\<exists>b. a' = wrap b \<and> iv b) \<and> contents' a' = contents' a"
      if "\<exists>b. a = wrap b \<and> iv b" "L \<noteq> 0" "IsGet (req_type q)" for a L q
    proof -
      obtain b r b' where "a = wrap b" "ca_lookup ops L (Some q) True b = Some (r, b')" "iv b'" "contents b' = contents b"
        using \<open>\<exists>b. a = wrap b \<and> iv b\<close> l(2) \<open>L \<noteq> 0\<close> \<open>IsGet (req_type q)\<close> by blast
      then show ?thesis by (auto simp: lift_ops_def u c)
    qed
    show "(r = Some i) = (i < n \<and> contents' a i = L)"
      if h: "\<exists>b. a = wrap b \<and> iv b" "L \<noteq> 0" "ca_lookup (lift_ops wrap unwrap ops) L rq upd a = Some (r, a')" for a L rq upd r a' i
    proof -
      obtain b b' where "a = wrap b" "iv b" "ca_lookup ops L rq upd b = Some (r, b')"
        using h(1,3) by (auto simp: lift_ops_def u Option.bind_eq_Some_conv)
      then show ?thesis using l(3) [of b L rq upd r b' i] \<open>L \<noteq> 0\<close> c by simp
    qed
    show "\<exists>i a'. ca_preinsert (lift_ops wrap unwrap ops) ns vl L req a = Some ((i, contents' a i), a') \<and> i < n \<and>
        (\<exists>b. a' = wrap b \<and> pend L i b) \<and> contents' a' = contents' a"
      if "\<exists>b. a = wrap b \<and> iv b" "L \<noteq> 0" "\<forall>i<n. contents' a i \<noteq> L" for a L ns vl req
    proof -
      obtain b where b: "a = wrap b" "iv b" using \<open>\<exists>b. a = wrap b \<and> iv b\<close> by blast
      obtain i b' where "ca_preinsert ops ns vl L req b = Some ((i, contents b i), b')" "i < n" "pend L i b'" "contents b' = contents b"
        using l(4) [OF b(2) \<open>L \<noteq> 0\<close>] \<open>\<forall>i<n. contents' a i \<noteq> L\<close> b(1) c by metis
      then show ?thesis using b(1) by (auto simp: lift_ops_def u c)
    qed
    show "\<exists>a'. ca_postinsert (lift_ops wrap unwrap ops) L req i a = Some a' \<and> (\<exists>b. a' = wrap b \<and> iv b) \<and> contents' a' = (contents' a)(i := L)"
      if "\<exists>b. a = wrap b \<and> pend L i b" "L \<noteq> 0" "IsGet (req_type req)" for L i a req
    proof -
      obtain b b' where "a = wrap b" "ca_postinsert ops L req i b = Some b'" "iv b'" "contents b' = (contents b)(i := L)"
        using \<open>\<exists>b. a = wrap b \<and> pend L i b\<close> l(5) \<open>L \<noteq> 0\<close> \<open>IsGet (req_type req)\<close> by blast
      then show ?thesis by (auto simp: lift_ops_def u c)
    qed
  qed
qed

fun any_tags :: "any_array \<Rightarrow> nat \<Rightarrow> Address" where
  "any_tags (SA_LRU a) = sa_array a"
| "any_tags (SA_NRU a) = sa_array a"
| "any_tags (SA_LFU a) = sa_array a"
| "any_tags (Z_LRU a) = z_array a"
| "any_tags (Z_LFU a) = z_array a"

section \<open>The array of a bank\<close>

definition hash_fn :: "mtrand \<Rightarrow> HashObj \<Rightarrow> (nat \<Rightarrow> u64 \<Rightarrow> u64) option" where
  "hash_fn raw h = (case h of
     IdHF \<Rightarrow> Some id_hash
   | H3HF numFunctions outputBits seed \<Rightarrow>
       map_option (\<lambda>h3 fid val. case h3_hash h3 fid val of Some x \<Rightarrow> x | None \<Rightarrow> 0) (h3_new numFunctions outputBits (of_nat seed) raw)
   | SHA1HF _ \<Rightarrow> None)"

definition bank_array :: "mtrand \<Rightarrow> bank \<Rightarrow> any_array option" where
  "bank_array raw b = do {
     h \<leftarrow> b_hash b;
     hf \<leftarrow> hash_fn raw h;
     (case b_array b of
        SetAssoc_arr n ways \<Rightarrow> (case b_rp b of
            LRU_rp sa _ \<Rightarrow> map_option SA_LRU (sa_new n ways (lru_policy sa) lru_new hf)
          | NRU_rp l c \<Rightarrow> map_option SA_NRU (sa_new n ways nru_policy (nru_new l c) hf)
          | LFU_rp _ \<Rightarrow> map_option SA_LFU (sa_new n ways lfu_policy lfu_new hf)
          | _ \<Rightarrow> None)
      | Z_arr n ways cands \<Rightarrow> (case b_rp b of
            LRU_rp sa _ \<Rightarrow> map_option Z_LRU (z_new n ways cands (lru_policy sa) lru_new hf)
          | LFU_rp _ \<Rightarrow> map_option Z_LFU (z_new n ways cands lfu_policy lfu_new hf)
          | _ \<Rightarrow> None)
      | _ \<Rightarrow> None)
   }"

definition bank_ops :: "bank \<Rightarrow> any_array CacheArray" where
  "bank_ops b = (case b_array b of
      SetAssoc_arr _ _ \<Rightarrow> (case b_rp b of
          LRU_rp _ _ \<Rightarrow> lift_ops SA_LRU (\<lambda>a. case a of SA_LRU x \<Rightarrow> Some x | _ \<Rightarrow> None) sa_ops
        | NRU_rp _ _ \<Rightarrow> lift_ops SA_NRU (\<lambda>a. case a of SA_NRU x \<Rightarrow> Some x | _ \<Rightarrow> None) sa_ops
        | _ \<Rightarrow> lift_ops SA_LFU (\<lambda>a. case a of SA_LFU x \<Rightarrow> Some x | _ \<Rightarrow> None) sa_ops)
    | _ \<Rightarrow> (case b_rp b of
          LRU_rp _ _ \<Rightarrow> lift_ops Z_LRU (\<lambda>a. case a of Z_LRU x \<Rightarrow> Some x | _ \<Rightarrow> None) z_ops
        | _ \<Rightarrow> lift_ops Z_LFU (\<lambda>a. case a of Z_LFU x \<Rightarrow> Some x | _ \<Rightarrow> None) z_ops))"

text \<open>The invariant of the array of a bank, between accesses and while a line is being replaced.\<close>

definition bank_inv :: "bank \<Rightarrow> any_array \<Rightarrow> bool" where
  "bank_inv b a = (case b_array b of
      SetAssoc_arr n _ \<Rightarrow> (case b_rp b of
          LRU_rp sa _ \<Rightarrow> (\<exists>x. a = SA_LRU x \<and> sa_inv (lru_policy sa) (\<lambda>_. True) n x)
        | NRU_rp _ _ \<Rightarrow> (\<exists>x. a = SA_NRU x \<and> sa_inv nru_policy nru_ready n x)
        | _ \<Rightarrow> (\<exists>x. a = SA_LFU x \<and> sa_inv lfu_policy (\<lambda>r. lfu_bestCandidate r = None) n x))
    | Z_arr n _ _ \<Rightarrow> (case b_rp b of
          LRU_rp sa _ \<Rightarrow> (\<exists>x. a = Z_LRU x \<and> z_inv (lru_policy sa) (\<lambda>_. True) n x)
        | _ \<Rightarrow> (\<exists>x. a = Z_LFU x \<and> z_inv lfu_policy (\<lambda>r. lfu_bestCandidate r = None) n x))
    | _ \<Rightarrow> False)"

definition bank_pend :: "bank \<Rightarrow> Address \<Rightarrow> nat \<Rightarrow> any_array \<Rightarrow> bool" where
  "bank_pend b L i a = (case b_array b of
      SetAssoc_arr n _ \<Rightarrow> (case b_rp b of
          LRU_rp sa _ \<Rightarrow> (\<exists>x. a = SA_LRU x \<and> sa_pend (lru_policy sa) (\<lambda>_. True) n L i x)
        | NRU_rp _ _ \<Rightarrow> (\<exists>x. a = SA_NRU x \<and> sa_pend nru_policy nru_values_ok n L i x)
        | _ \<Rightarrow> (\<exists>x. a = SA_LFU x \<and> sa_pend lfu_policy (\<lambda>_. True) n L i x))
    | Z_arr n _ _ \<Rightarrow> (case b_rp b of
          LRU_rp sa _ \<Rightarrow> (\<exists>x. a = Z_LRU x \<and> z_pend (lru_policy sa) (\<lambda>_. True) n L i x)
        | _ \<Rightarrow> (\<exists>x. a = Z_LFU x \<and> z_pend lfu_policy (\<lambda>_. True) n L i x))
    | _ \<Rightarrow> False)"

definition ways_divide :: "bank \<Rightarrow> bool" where
  "ways_divide b = (case b_array b of SetAssoc_arr n ways \<Rightarrow> ways dvd n | _ \<Rightarrow> True)"

lemmas lifted_arrays =
  lift_cache_array [OF sa_lru.cache_array_axioms, where wrap = SA_LRU and contents' = any_tags]
  lift_cache_array [OF sa_nru.cache_array_axioms, where wrap = SA_NRU and contents' = any_tags]
  lift_cache_array [OF sa_lfu.cache_array_axioms, where wrap = SA_LFU and contents' = any_tags]
  lift_cache_array [OF z_lru.cache_array_axioms, where wrap = Z_LRU and contents' = any_tags]
  lift_cache_array [OF z_lfu.cache_array_axioms, where wrap = Z_LFU and contents' = any_tags]

lemma bank_cache_array:
  assumes "bank_array raw b = Some a"
  shows "cache_array (bank_ops b) (bank_inv b) (bank_pend b) any_tags (bank_lines b)"
  using assms
  by (auto simp: bank_array_def bank_ops_def bank_inv_def [abs_def] bank_pend_def [abs_def] bank_lines_def Option.bind_eq_Some_conv
      split: ArrayObj.splits ReplObj.splits intro!: lifted_arrays)

lemma bank_array_inv:
  assumes "bank_array raw b = Some a" "bank_lines b < 2 ^ 32" "ways_divide b"
  shows "bank_inv b a" "any_tags a i = 0"
proof -
  have "nru_ready (nru_new l c)" for l c by (simp add: nru_ready_def nru_new_def nru_values_ok_def)
  then show "bank_inv b a" using assms
    by (auto simp: bank_array_def bank_inv_def bank_lines_def ways_divide_def lfu_new_def Option.bind_eq_Some_conv
        split: ArrayObj.splits ReplObj.splits intro!: sa_new_inv z_new_inv)
  show "any_tags a i = 0" using assms(1)
    by (cases "b_array b"; cases "b_rp b") (auto simp: bank_array_def sa_new_def z_new_def Let_def Option.bind_eq_Some_conv)
qed

section \<open>Memories of any kind\<close>

datatype any_mem = AnySimple SimpleMemory | AnyMD1 MD1Memory

fun ctrl_access :: "(rat \<Rightarrow> rat) \<Rightarrow> any_mem mem_op" where
  "ctrl_access rnd req (AnySimple m, h, er) = do {
     (resp, st, m', h', er') \<leftarrow> simple_access req (m, h, er); Some (resp, st, AnySimple m', h', er') }"
| "ctrl_access rnd req (AnyMD1 m, h, er) = do {
     (resp, st, m', h', er') \<leftarrow> md1_access rnd req (m, h, er); Some (resp, st, AnyMD1 m', h', er') }"

text \<open>
  \<open>SplitAddrMemory::access\<close>: the controller is chosen by the address, which is divided by the
  number of controllers for the nested call. The state of a unit is the list of its controllers.
\<close>

definition split_access :: "(rat \<Rightarrow> rat) \<Rightarrow> any_mem list mem_op" where
  "split_access rnd req ms = (case ms of (mems, h, er) \<Rightarrow> do {
     assert_that (mems \<noteq> []);
     let addr = req_lineAddr req;
     let mem = unat addr mod length mems;
     let ctrlAddr = of_nat (unat addr div length mems);
     (resp, st, m', h', er') \<leftarrow> ctrl_access rnd (req\<lparr>req_lineAddr := ctrlAddr\<rparr>) (mems ! mem, h, er);
     Some (resp, st, mems[mem := m'], h', er')
   })"

definition unit_access :: "(rat \<Rightarrow> rat) \<Rightarrow> MemUnit \<Rightarrow> any_mem list mem_op" where
  "unit_access rnd u req ms = (case u of
     SplitAddr _ \<Rightarrow> split_access rnd req ms
   | MemCtrl _ _ \<Rightarrow> (case ms of (mems, h, er) \<Rightarrow> do {
       assert_that (mems \<noteq> []);
       (resp, st, m', h', er') \<leftarrow> ctrl_access rnd req (hd mems, h, er);
       Some (resp, st, [m'], h', er') }))"

definition mem_new :: "(rat \<Rightarrow> rat) \<Rightarrow> nat \<Rightarrow> MemCtrlObj \<Rightarrow> any_mem option" where
  "mem_new rnd phaseLength m = (case m of
     SimpleMem latency \<Rightarrow> Some (AnySimple \<lparr>sm_latency = latency\<rparr>)
   | MD1Mem lineSize frequency bandwidth latency \<Rightarrow> map_option AnyMD1 (md1_new rnd lineSize frequency bandwidth latency phaseLength)
   | _ \<Rightarrow> None)"

definition unit_new :: "(rat \<Rightarrow> rat) \<Rightarrow> nat \<Rightarrow> MemUnit \<Rightarrow> any_mem list option" where
  "unit_new rnd phaseLength u = mapM (mem_new rnd phaseLength) (case u of MemCtrl _ m \<Rightarrow> [m] | SplitAddr ms \<Rightarrow> map snd ms)"

fun any_mem_ok :: "any_mem \<Rightarrow> bool" where
  "any_mem_ok (AnySimple m) = (sm_latency m > 0)"
| "any_mem_ok (AnyMD1 m) = True"

interpretation any_ctrl: memory_ctrl "ctrl_access rnd" any_mem_ok
proof
  fix m h er req assume a: "any_mem_ok m" "heap_ok h" "rec_none er"
  show "\<exists>resp m' h' er'. ctrl_access rnd req (m, h, er) = Some (resp, mem_grant req, m', h', er') \<and>
        req_cycle req \<le> resp \<and> any_mem_ok m' \<and> heap_le h h' \<and> rec_ok (req_cycle req) h' er' \<and> (er' = None \<longleftrightarrow> er = None)"
  proof (cases m)
    case (AnySimple x)
    then show ?thesis using simple_mem.mem_total [of x h er req] a by fastforce
  next
    case (AnyMD1 x)
    then show ?thesis using md1_mem.mem_total [of h er rnd req x] a by fastforce
  qed
qed

definition unit_ok :: "any_mem list \<Rightarrow> bool" where
  "unit_ok ms \<longleftrightarrow> ms \<noteq> [] \<and> (\<forall>m\<in>set ms. any_mem_ok m)"

interpretation any_unit: memory_ctrl "unit_access rnd u" unit_ok
proof
  fix m h er req assume a: "unit_ok m" "heap_ok h" "rec_none er"
  show "\<exists>resp m' h' er'. unit_access rnd u req (m, h, er) = Some (resp, mem_grant req, m', h', er') \<and>
        req_cycle req \<le> resp \<and> unit_ok m' \<and> heap_le h h' \<and> rec_ok (req_cycle req) h' er' \<and> (er' = None \<longleftrightarrow> er = None)"
  proof (cases u)
    case (MemCtrl x1 x2)
    have "any_mem_ok (hd m)" using a(1) by (simp add: unit_ok_def)
    then show ?thesis using any_ctrl.mem_total [OF _ a(2,3), of "hd m" rnd req] a(1) MemCtrl
      by (fastforce simp: unit_access_def unit_ok_def)
  next
    case (SplitAddr x)
    let ?k = "unat (req_lineAddr req) mod length m"
    let ?req = "req\<lparr>req_lineAddr := of_nat (unat (req_lineAddr req) div length m)\<rparr>"
    have k: "?k < length m" "any_mem_ok (m ! ?k)" using a(1) by (auto simp: unit_ok_def)
    obtain resp m' h' er' where c: "ctrl_access rnd ?req (m ! ?k, h, er) = Some (resp, mem_grant ?req, m', h', er')"
      "req_cycle ?req \<le> resp" "any_mem_ok m'" "heap_le h h'" "rec_ok (req_cycle ?req) h' er'" "er' = None \<longleftrightarrow> er = None"
      using any_ctrl.mem_total [OF k(2) a(2,3)] by blast
    have "mem_grant ?req = mem_grant req" by (simp add: mem_grant_def req_is_def)
    moreover have "unit_ok (m[?k := m'])" using a(1) c(3) by (auto simp: unit_ok_def dest!: set_update_subset_insert [THEN subsetD])
    ultimately show ?thesis using c a(1) SplitAddr by (simp add: unit_access_def split_access_def unit_ok_def Let_def)
  qed
qed

section \<open>The system at the start\<close>

definition bank_at :: "wiring \<Rightarrow> nat \<Rightarrow> bank" where
  "bank_at w c = (case w_objs w ! c of CacheBank b \<Rightarrow> b)"

definition hier_mem :: "(rat \<Rightarrow> rat) \<Rightarrow> wiring \<Rightarrow> nat \<Rightarrow> any_mem list mem_op" where
  "hier_mem rnd w k = unit_access rnd (w_mems w ! k)"

definition prof_new :: bcc_prof where
  "prof_new = \<lparr>profGETSHit = 0, profGETSMiss = 0, profGETXHit = 0, profGETXMissIM = 0, profGETXMissSM = 0, profPUTS = 0,
     profPUTX = 0, profINV = 0, profINVX = 0, profFWD = 0, profGETNextLevelLat = 0, profGETNetLat = 0\<rparr>"

definition cache_new :: "'a \<Rightarrow> 'a cache_state" where
  "cache_new a = \<lparr>cs_array = a, cs_bcc = (\<lambda>_. I), cs_bccLock = False, cs_prof = prof_new, cs_tcc = (\<lambda>_. entry_clear), cs_tccLock = False\<rparr>"

text \<open>Memory objects are numbered from 0; no other number is ever used.\<close>

definition sys_start :: "mtrand \<Rightarrow> (rat \<Rightarrow> rat) \<Rightarrow> nat \<Rightarrow> wiring \<Rightarrow> (any_array, any_mem list) sys option" where
  "sys_start raw rnd phaseLength w = do {
     arrays \<leftarrow> mapM (\<lambda>x. case x of CacheBank b \<Rightarrow> bank_array raw b | _ \<Rightarrow> None) (w_objs w);
     mems \<leftarrow> mapM (unit_new rnd phaseLength) (w_mems w);
     Some \<lparr>s_caches = (\<lambda>c. cache_new (arrays ! c)), s_mems = (\<lambda>k. mems ! (if k < length mems then k else 0)),
       s_out = (\<lambda>_. I), s_outLocks = (\<lambda>_. False), s_evRecs = (\<lambda>_. None),
       s_heap = \<lparr>eh_ev = (\<lambda>_. None), eh_next = 0, eh_enq = []\<rparr>\<rparr>
   }"

text \<open>
  The configurations covered here: simple inclusive caches, and filter caches below them, whose ways
  divide their lines.
\<close>

definition simple_kind :: "bank \<Rightarrow> bool" where
  "simple_kind b = (case b_kind b of SimpleCache \<Rightarrow> True | FilterCache_k _ \<Rightarrow> True | _ \<Rightarrow> False)"

definition covered :: "wiring \<Rightarrow> bool" where
  "covered w \<longleftrightarrow> plain w \<and> (\<forall>x\<in>set (w_objs w). case x of CacheBank b \<Rightarrow> simple_kind b \<and> ways_divide b | _ \<Rightarrow> True)"

definition depth_of :: "wiring \<Rightarrow> nat" where
  "depth_of w = length (w_objs w)"

definition level_of :: "wiring \<Rightarrow> nat \<Rightarrow> nat" where
  "level_of w c = length (w_objs w) - 1 - c"

lemma covered_bank:
  assumes "covered w" "c < length (w_objs w)"
  shows "w_objs w ! c = CacheBank (bank_at w c)" "ways_divide (bank_at w c)"
proof -
  obtain b where b: "w_objs w ! c = CacheBank b" using plainD [of w c] assms by (auto simp: covered_def)
  then show "w_objs w ! c = CacheBank (bank_at w c)" by (simp add: bank_at_def)
  have "CacheBank b \<in> set (w_objs w)" using assms(2) b nth_mem by metis
  then have "ways_divide b" using assms(1) by (auto simp: covered_def)
  then show "ways_divide (bank_at w c)" using b by (simp add: bank_at_def)
qed

lemma sys_start_arrays:
  assumes "sys_start raw rnd pl w = Some s" "covered w" "c < length (w_objs w)"
  shows "bank_array raw (bank_at w c) = Some (cs_array (s_caches s c))"
proof -
  obtain arrays where a: "mapM (\<lambda>x. case x of CacheBank b \<Rightarrow> bank_array raw b | _ \<Rightarrow> None) (w_objs w) = Some arrays"
    "s_caches s = (\<lambda>c. cache_new (arrays ! c))"
    using assms(1) by (auto simp: sys_start_def Option.bind_eq_Some_conv)
  then have "(case w_objs w ! c of CacheBank b \<Rightarrow> bank_array raw b | _ \<Rightarrow> None) = Some (arrays ! c)"
    using assms(3) by (simp add: mapM_Some_iff)
  then show ?thesis using covered_bank(1) [OF assms(2,3)] a(2) by (simp add: cache_new_def)
qed

lemma built_lines:
  assumes "built cm llc cMap llcBanks L w" "covered w" "c < length (w_objs w)"
  shows "b_numLines (bank_at w c) < 2 ^ 32" "bank_lines (bank_at w c) = b_numLines (bank_at w c)"
proof -
  obtain g where "g \<in> set (map fst cm)" "c \<in> set (banks_of cMap g)" using built_bank [OF assms(1,3)] .
  then have "bank_of_kind (isTerminal cm g) (w_objs w ! c)" using built_groups(6) [OF assms(1)] by blast
  then show "b_numLines (bank_at w c) < 2 ^ 32" "bank_lines (bank_at w c) = b_numLines (bank_at w c)"
    using covered_bank(1) [OF assms(2,3)] by (simp_all add: bank_of_kind_def)
qed

lemma start_hierarchy:
  assumes b: "built cm llc cMap llcBanks L w" and c: "covered w" and s: "sys_start raw rnd pl w = Some s"
  shows "hierarchy (hier_cfg bank_ops w) {..<depth_of w} (level_of w) (depth_of w) any_tags
    (\<lambda>c. bank_inv (bank_at w c)) (\<lambda>c. bank_pend (bank_at w c)) (hier_mem rnd w) (\<lambda>_. unit_ok)"
proof -
  have "topology (hier_cfg bank_ops w) {..<depth_of w} (level_of w) (depth_of w)"
    using built_topology [OF b] c unfolding depth_of_def level_of_def [abs_def] covered_def by blast
  moreover have "hierarchy_axioms (hier_cfg bank_ops w) {..<depth_of w} any_tags
    (\<lambda>c. bank_inv (bank_at w c)) (\<lambda>c. bank_pend (bank_at w c)) (hier_mem rnd w) (\<lambda>_. unit_ok)"
  proof (rule hierarchy_axioms.intro)
    fix c' assume "c' \<in> {..<depth_of w}"
    then have l: "c' < length (w_objs w)" by (simp add: depth_of_def)
    note k = covered_bank(1) [OF c l] built_lines(2) [OF b c l] sys_start_arrays [OF s c l]
    then show "cache_array (cfg_ops (hier_cfg bank_ops w c')) (bank_inv (bank_at w c')) (bank_pend (bank_at w c')) any_tags
        (cfg_numLines (hier_cfg bank_ops w c'))"
      using bank_cache_array [OF k(3)] by simp
  next
    show "memory_ctrl (hier_mem rnd w k) unit_ok" for k
      unfolding hier_mem_def by (rule any_unit.memory_ctrl_axioms)
  qed
  ultimately show ?thesis by (rule hierarchy.intro)
qed

lemma start_idle:
  assumes b: "built cm llc cMap llcBanks L w" and c: "covered w" and s: "sys_start raw rnd pl w = Some s"
    and m: "\<forall>k. unit_ok (s_mems s k)"
  shows "hierarchy.idle (hier_cfg bank_ops w) {..<depth_of w} any_tags (\<lambda>c. bank_inv (bank_at w c)) (\<lambda>_. unit_ok) s"
proof -
  note h = start_hierarchy [OF b c s]
  have new: "cs_bcc (s_caches s q) = (\<lambda>_. I)" "cs_tcc (s_caches s q) = (\<lambda>_. entry_clear)" "\<not> cs_bccLock (s_caches s q)"
    "\<not> cs_tccLock (s_caches s q)" for q
    using s by (auto simp: sys_start_def cache_new_def Option.bind_eq_Some_conv)
  have hp: "heap_ok (s_heap s)" using s by (auto simp: sys_start_def heap_ok_def Option.bind_eq_Some_conv)
  have inv: "bank_inv (bank_at w q) (cs_array (s_caches s q))" "any_tags (cs_array (s_caches s q)) i = 0" if q: "q < depth_of w" for q i
  proof -
    have l: "q < length (w_objs w)" using q by (simp add: depth_of_def)
    note k = built_lines [OF b c l] covered_bank(2) [OF c l] sys_start_arrays [OF s c l]
    show "bank_inv (bank_at w q) (cs_array (s_caches s q))" "any_tags (cs_array (s_caches s q)) i = 0"
      using bank_array_inv [OF k(4) _ k(3)] k(1,2) by simp_all
  qed
  have "coherent (hier_cfg bank_ops w) {..<depth_of w} any_tags s"
    using new inv(2) by (auto simp: coherent_def lines_ok_def node_ok_def edge_ok_def entry_ok_def line_state_def line_sharer_def line_excl_def
      bcc_state_def tcc_entry_def entry_clear_def en_isExclusive_def excl_def Let_def split: option.splits)
  then show ?thesis unfolding hierarchy.idle_def [OF h] using m hp new inv(1) by simp
qed

section \<open>The way to the last level\<close>

text \<open>
  For one address, all banks below the last-level cache lead to the same bank of it: the parent is
  chosen by a hash of the address alone.
\<close>

lemma home_bank:
  assumes b: "built cm llc cMap llcBanks L w" and c: "c < depth_of w" "c \<notin> set llcBanks"
  obtains p where "home (hier_cfg ops w) c A = CacheObj p" "p < c"
    "p \<in> set llcBanks \<Longrightarrow> p = llcBanks ! (unat (parent_hash 4 A 0) mod length llcBanks)"
proof -
  obtain ps cs where l: "(ps, cs) \<in> set L" "c \<in> set cs" "ps \<noteq> []"
    using built_child [OF b _ c(2)] c(1) by (auto simp: depth_of_def)
  then obtain i where "i < length cs" "cs ! i = c" by (auto simp: in_set_conv_nth)
  then have ps: "w_parents w c = map CacheObj ps" using built_wired(1) [OF b l(1)] by auto
  let ?k = "unat (parent_hash 4 A 0) mod length ps"
  have h: "home (hier_cfg ops w) c A = CacheObj (ps ! ?k)" "ps ! ?k \<in> set ps"
    using l(3) by (simp_all add: home_def getParentId_def ps)
  have "ps = llcBanks" if p: "ps ! ?k \<in> set llcBanks"
  proof -
    obtain q where q: "q \<in> set (map fst cm)" "ps \<in> set (the (map_of cMap q))" "set ps \<subseteq> set (banks_of cMap q)"
      using built_link [OF b l(1)] by metis
    have llc: "map_of cMap llc = Some [llcBanks]" "llc \<in> set (map fst cm)" using b by (auto simp: built_def tree_ok_def)
    have dm: "set (map fst cm) = dom (map_of cMap)" using b by (simp add: built_def dom_map_of_conv_image_fst)
    have "q = llc"
    proof (rule ccontr)
      assume "q \<noteq> llc"
      then have "distinct (concat (map (banks_of cMap) [q, llc]))"
        using b q(1) llc(2) dm by (intro banks_distinct [of cm llc cMap "w_objs w"]) (auto simp: built_def)
      then show False using q(3) h(2) p llc(1) by (auto simp: banks_of_def)
    qed
    then show ?thesis using q(2) llc(1) by simp
  qed
  then show ?thesis using that [OF h(1)] built_link_banks(1) [OF b l(1) h(2) l(2)] by blast
qed

lemma below_llc:
  assumes b: "built cm llc cMap llcBanks L w"
  shows "c < depth_of w \<Longrightarrow> \<exists>r\<in>set llcBanks. below (hier_cfg ops w) {..<depth_of w} A c r"
proof (induction c rule: less_induct)
  case (less c)
  show ?case
  proof (cases "c \<in> set llcBanks")
    case False
    obtain p where p: "home (hier_cfg ops w) c A = CacheObj p" "p < c" using home_bank [OF b less.prems False] by blast
    then obtain r where "r \<in> set llcBanks" "below (hier_cfg ops w) {..<depth_of w} A p r" using less by auto
    then show ?thesis using below_step [OF _ p(1)] less.prems by blast
  qed (use less.prems in \<open>auto intro: below_refl\<close>)
qed

lemma below_llc_unique:
  assumes b: "built cm llc cMap llcBanks L w" and "below (hier_cfg ops w) {..<depth_of w} A c r" "r \<in> set llcBanks" "c \<notin> set llcBanks"
  shows "r = llcBanks ! (unat (parent_hash 4 A 0) mod length llcBanks)"
  using assms(2-4)
proof (induction rule: below.induct)
  case (below_step d d' e)
  have d: "d < depth_of w" using below_step by simp
  obtain p where p: "home (hier_cfg ops w) d A = CacheObj p"
    "p \<in> set llcBanks \<Longrightarrow> p = llcBanks ! (unat (parent_hash 4 A 0) mod length llcBanks)"
    using home_bank [OF b d below_step.prems(2)] by blast
  have "d' = p" using p(1) below_step.hyps(2) by simp
  show ?case
  proof (cases "d' \<in> set llcBanks")
    case True
    have "e = d'" using below_step.hyps(3)
    proof cases
      case (below_step x)
      have "w_parents w d' = map MemObj [0..<length (w_mems w)]" "w_mems w \<noteq> []" using b True by (auto simp: built_def)
      then show ?thesis using below_step by (auto simp: home_def getParentId_def nth_map)
    qed simp
    then show ?thesis using p(2) True \<open>d' = p\<close> by simp
  qed (use below_step in blast)
qed simp

section \<open>Running the system\<close>

text \<open>A request of a core for a read or a write, with the state of an empty filter entry.\<close>

definition core_request :: "MemReq \<Rightarrow> bool" where
  "core_request req \<longleftrightarrow> IsGet (req_type req) \<and> req_lineAddr req \<noteq> 0 \<and> \<not> has_flag (req_flags req) PREFETCH \<and>
     req_initialState req = I \<and> req_childLock req = None \<and> (case req_state req of Outside _ \<Rightarrow> True | Slot _ _ \<Rightarrow> False)"

definition terminal_bank :: "wiring \<Rightarrow> nat \<Rightarrow> bool" where
  "terminal_bank w c \<longleftrightarrow> c < length (w_objs w) \<and> b_terminal (bank_at w c)"

text \<open>A controller that answers after the request: a fixed positive latency, or the M/D/1 model.\<close>

fun ctrl_positive :: "MemCtrlObj \<Rightarrow> bool" where
  "ctrl_positive (SimpleMem latency) = (latency > 0)"
| "ctrl_positive (MD1Mem _ _ _ _) = True"
| "ctrl_positive _ = False"

definition unit_positive :: "MemUnit \<Rightarrow> bool" where
  "unit_positive u = (case u of MemCtrl _ m \<Rightarrow> ctrl_positive m | SplitAddr ms \<Rightarrow> ms \<noteq> [] \<and> list_all (ctrl_positive \<circ> snd) ms)"

definition hier_state :: "wiring \<Rightarrow> (any_array, any_mem list) sys \<Rightarrow> nat \<Rightarrow> Address \<Rightarrow> MESIState" where
  "hier_state w s c A = line_state (hier_cfg bank_ops w) any_tags s c A"

definition run_cores ::
  "(rat \<Rightarrow> rat) \<Rightarrow> wiring \<Rightarrow> (nat \<times> MemReq) list \<Rightarrow> (any_array, any_mem list) sys \<Rightarrow> (any_array, any_mem list) sys option" where
  "run_cores rnd w = hier_run (hier_cfg bank_ops w) (hier_mem rnd w) (depth_of w) (Suc (depth_of w))"

lemma unit_new_ok: "unit_positive u \<Longrightarrow> unit_new rnd pl u = Some ms \<Longrightarrow> unit_ok ms"
proof -
  assume u: "unit_positive u" and n: "unit_new rnd pl u = Some ms"
  let ?cs = "case u of MemCtrl _ m \<Rightarrow> [m] | SplitAddr ms \<Rightarrow> map snd ms"
  have cs: "?cs \<noteq> []" "\<forall>m\<in>set ?cs. ctrl_positive m" using u by (auto simp: unit_positive_def list_all_iff split: MemUnit.splits)
  have m: "mapM (mem_new rnd pl) ?cs = Some ms" using n by (simp add: unit_new_def)
  have "any_mem_ok m" if q: "m \<in> set ms" for m
  proof -
    obtain x where x: "x \<in> set ?cs" "mem_new rnd pl x = Some m" using mapM_set [OF m q] by blast
    then have "ctrl_positive x" using cs(2) by blast
    then show ?thesis using x(2) by (cases x) (auto simp: mem_new_def)
  qed
  then show ?thesis using cs(1) mapM_length [OF m] by (auto simp: unit_ok_def)
qed

lemma start_units:
  assumes "sys_start raw rnd pl w = Some s" "list_all unit_positive (w_mems w)" "w_mems w \<noteq> []"
  shows "unit_ok (s_mems s k)"
proof -
  obtain mems where m: "mapM (unit_new rnd pl) (w_mems w) = Some mems" "s_mems s = (\<lambda>k. mems ! (if k < length mems then k else 0))"
    using assms(1) by (auto simp: sys_start_def Option.bind_eq_Some_conv)
  let ?k = "if k < length mems then k else 0"
  have "?k < length (w_mems w)" using mapM_length [OF m(1)] assms(3) by auto
  then have "unit_new rnd pl (w_mems w ! ?k) = Some (mems ! ?k)" "unit_positive (w_mems w ! ?k)"
    using m(1) assms(2) by (auto simp: mapM_Some_iff list_all_length)
  then show ?thesis using unit_new_ok m(2) by auto
qed

lemma run_cores_ok:
  assumes b: "built cm llc cMap llcBanks L w" and c: "covered w" and s0: "sys_start raw rnd pl w = Some s0"
    and m: "list_all unit_positive (w_mems w)" and rs: "\<forall>(c, req)\<in>set rs. terminal_bank w c \<and> core_request req"
  shows "\<exists>s. run_cores rnd w rs s0 = Some s \<and> coherent (hier_cfg bank_ops w) {..<depth_of w} any_tags s"
proof -
  note h = start_hierarchy [OF b c s0]
  have "w_mems w \<noteq> []" using b by (simp add: built_def)
  then have i: "hierarchy.idle (hier_cfg bank_ops w) {..<depth_of w} any_tags (\<lambda>c. bank_inv (bank_at w c)) (\<lambda>_. unit_ok) s0"
    using start_idle [OF b c s0] start_units [OF s0 m] by blast
  have e: "\<forall>x. s_evRecs s0 x = None" "s_out s0 = (\<lambda>_. I)" using s0 by (auto simp: sys_start_def Option.bind_eq_Some_conv)
  have r: "c' \<in> {..<depth_of w} \<and> cfg_terminal (hier_cfg bank_ops w c') \<and> hierarchy.core_req req s0"
    if q: "(c', req) \<in> set rs" for c' req
  proof -
    have t: "terminal_bank w c'" "core_request req" using rs q by auto
    then show ?thesis using covered_bank(1) [OF c, of c'] e
      by (auto simp: terminal_bank_def depth_of_def hierarchy.core_req_def [OF h] core_request_def rec_none_def split: state_ptr.splits)
  qed
  obtain s where "run_cores rnd w rs s0 = Some s"
    "hierarchy.idle (hier_cfg bank_ops w) {..<depth_of w} any_tags (\<lambda>c. bank_inv (bank_at w c)) (\<lambda>_. unit_ok) s"
    using hierarchy.hier_run_ok [OF h, of "depth_of w" "Suc (depth_of w)" s0 rs] i e(1) r unfolding run_cores_def by fastforce
  then show ?thesis unfolding hierarchy.idle_def [OF h] by blast
qed

text \<open>Terminal caches have nothing below them.\<close>

lemma below_terminal:
  assumes t: "topology cfg caches lvl depth" and "below cfg caches A c d" "cfg_terminal (cfg d)"
  shows "c = d"
proof (rule ccontr)
  assume "c \<noteq> d"
  then obtain e where "e \<in> caches" "home cfg e A = CacheObj d" using topology.below_last [OF t assms(2)] by blast
  then show False using topology.home_cache(2) [OF t] assms(3) by blast
qed

lemma common_root:
  assumes b: "built cm llc cMap llcBanks L w" and c: "covered w" and t: "terminal_bank w c" "terminal_bank w d" "c \<noteq> d"
  shows "\<exists>r. below (hier_cfg bank_ops w) {..<depth_of w} A c r \<and> below (hier_cfg bank_ops w) {..<depth_of w} A d r"
proof -
  let ?cfg = "hier_cfg bank_ops w" and ?caches = "{..<depth_of w}"
  have top: "topology ?cfg ?caches (level_of w) (depth_of w)"
    using built_topology [OF b] c unfolding depth_of_def level_of_def [abs_def] covered_def by blast
  have no: "e \<notin> set llcBanks" if e: "terminal_bank w e" "f < depth_of w" "f \<noteq> e" for e f
  proof
    assume e': "e \<in> set llcBanks"
    have llc: "map_of cMap llc = Some [llcBanks]" "llc \<in> set (map fst cm)" using b by (auto simp: built_def tree_ok_def)
    have k: "bank_of_kind (isTerminal cm llc) (w_objs w ! e)" using built_groups(6) [OF b llc(2)] llc(1) e' by (auto simp: banks_of_def)
    then have "isTerminal cm llc" using e(1) covered_bank(1) [OF c, of e] by (auto simp: bank_of_kind_def terminal_bank_def)
    then have one: "length llcBanks = 1" using b by (auto simp: built_def)
    then have sg: "set llcBanks = {e}" using e' by (cases llcBanks) auto
    obtain r where r: "r \<in> set llcBanks" "below ?cfg ?caches A f r" using below_llc [OF b e(2)] by blast
    have "cfg_terminal (?cfg e)" using e(1) covered_bank(1) [OF c, of e] by (auto simp: terminal_bank_def)
    then show False using below_terminal [OF top r(2)] r(1) sg e(3) by auto
  qed
  have l: "c < depth_of w" "d < depth_of w" using t by (auto simp: terminal_bank_def depth_of_def)
  obtain r q where "r \<in> set llcBanks" "below ?cfg ?caches A c r" "q \<in> set llcBanks" "below ?cfg ?caches A d q"
    using below_llc [OF b l(1)] below_llc [OF b l(2)] by blast
  moreover have "c \<notin> set llcBanks" "d \<notin> set llcBanks" using no t l by metis+
  ultimately show ?thesis using below_llc_unique [OF b] by metis
qed

lemma terminal_exclusive:
  assumes b: "built cm llc cMap llcBanks L w" and c: "covered w" and s0: "sys_start raw rnd pl w = Some s0"
    and co: "coherent (hier_cfg bank_ops w) {..<depth_of w} any_tags s"
    and t: "terminal_bank w c" "terminal_bank w d" "c \<noteq> d" and A: "A \<noteq> 0" and x: "excl (hier_state w s c A)"
  shows "hier_state w s d A = I"
proof (rule ccontr)
  assume "hier_state w s d A \<noteq> I"
  note h = start_hierarchy [OF b c s0]
  obtain r where r: "below (hier_cfg bank_ops w) {..<depth_of w} A c r" "below (hier_cfg bank_ops w) {..<depth_of w} A d r"
    using common_root [OF b c t] by blast
  have "below (hier_cfg bank_ops w) {..<depth_of w} A c d \<or> below (hier_cfg bank_ops w) {..<depth_of w} A d c"
    using hierarchy.single_writer [OF h co A _ _ r] x \<open>hier_state w s d A \<noteq> I\<close> by (simp add: hier_state_def)
  moreover have "cfg_terminal (hier_cfg bank_ops w c)" "cfg_terminal (hier_cfg bank_ops w d)"
    using t covered_bank(1) [OF c] by (auto simp: terminal_bank_def)
  ultimately show False using below_terminal [OF hierarchy.axioms(1) [OF h]] t(3) by blast
qed

text \<open>An example: two first-level caches of four lines under a shared cache of eight.\<close>

definition ex_cfg :: libconfig where
  "ex_cfg =
     (let ints = map_of [(''sys.caches.l1.size'', 256), (''sys.caches.l1.caches'', 2), (''sys.caches.l1.array.ways'', 2),
            (''sys.caches.l2.size'', 512), (''sys.mem.latency'', 50)];
          strs = map_of [(''sys.caches.l2.children'', ''l1''), (''sys.caches.l2.repl.type'', ''NRU'')];
          grps = map_of [(''sys.caches'', [''l1'', ''l2''])]
      in \<lparr>lc_exists = (\<lambda>k. ints k \<noteq> None \<or> strs k \<noteq> None \<or> grps k \<noteq> None), lc_int = ints, lc_bool = (\<lambda>_. None),
          lc_string = strs, lc_groups = (\<lambda>k. case grps k of Some gs \<Rightarrow> gs | None \<Rightarrow> [])\<rparr>)"

definition ex_zinfo :: zinfo where
  "ex_zinfo = \<lparr>zi_lineSize = 64, zi_traceDriven = False, zi_numCores = 2, zi_numProcs = 1, zi_numDomains = 1,
     zi_freqMHz = 2000, zi_outputDir = ''.''\<rparr>"

definition ex_req :: "AccessType \<Rightarrow> Address \<Rightarrow> MemReq" where
  "ex_req t A = \<lparr>req_lineAddr = A, req_type = t, req_childId = 0, req_state = Outside 0, req_cycle = 1000, req_childLock = None,
     req_initialState = I, req_srcId = 0, req_flags = 0\<rparr>"

definition ex_raw :: mtrand where
  "ex_raw = \<lparr>mt_state = (\<lambda>_. 0), mt_pNext = 0, mt_left = 0\<rparr>"

definition ex_l2 :: BaseCache where
  "ex_l2 = CacheBank \<lparr>b_name = ''l2-0'', b_kind = SimpleCache, b_terminal = False, b_nonInclusiveHack = False, b_numLines = 8,
     b_array = SetAssoc_arr 8 4, b_hash = Some IdHF, b_rp = NRU_rp 8 4, b_partInterval = None, b_accLat = 10, b_invLat = 10\<rparr>"

definition ex_l1 :: "string \<Rightarrow> BaseCache" where
  "ex_l1 n = CacheBank \<lparr>b_name = n, b_kind = FilterCache_k 2, b_terminal = True, b_nonInclusiveHack = False, b_numLines = 4,
     b_array = SetAssoc_arr 4 2, b_hash = Some IdHF, b_rp = LRU_rp False 4, b_partInterval = None, b_accLat = 0, b_invLat = 10\<rparr>"

definition ex_w :: wiring where
  "ex_w = \<lparr>w_objs = [ex_l2, ex_l1 ''l1-0'', ex_l1 ''l1-1''], w_mems = [MemCtrl ''mem-0'' (SimpleMem 50)],
     w_parents = (\<lambda>_. [])(0 := [MemObj 0], 1 := [CacheObj 0], 2 := [CacheObj 0]),
     w_parentRTTs = (\<lambda>_. [])(0 := [0], 1 := [0], 2 := [0]), w_childId = (\<lambda>_. 0)(0 := 0, 1 := 0, 2 := 1),
     w_children = (\<lambda>_. [])(0 := [1, 2]), w_childrenRTTs = (\<lambda>_. [])(0 := [0, 0]),
     w_srcId = (\<lambda>_. 2 ^ 32 - 1), w_flags = (\<lambda>_. 0)\<rparr>"

lemma ex_small:
  "builtin_clz 2 = 30" "show_nat 0 = ''0''" "show_nat 1 = ''1''" "show_nat (Suc 0) = ''1''" "[0..<Suc 0] = [0]" "[0..<2] = [0, 1]"
  "isPow2 (2::u32)"
  by code_simp+

lemma ex_groups:
  "subgroups ex_cfg ''sys.caches'' = [''l1'', ''l2'']"
  "read_groups ex_cfg [''l1'', ''l2''] [] [] = Some ([(''l1'', []), (''l2'', [[''l1'']])], [(''l1'', ''l2'')])"
  "find_llc [(''l1'', []), (''l2'', [[''l1'']])] [(''l1'', ''l2'')] [''l1'', ''l2''] = Some ''l2''"
  by code_simp+

lemmas ex_build = ex_zinfo_def ex_cfg_def get_str_def get_u32_def get_bool_def genericGet_def Let_def to_int32_def trunc32_def
  BuildCacheGroup_def BuildCacheBank_def array_geometry_def set_bits_def build_hash_def build_repl_def build_array_def build_kind_def
  bank_name_def build_mems_def BuildMemoryController_def ex_small

lemma ex_banks:
  "BuildCacheGroup (\<lambda>_. 0) ex_cfg ex_zinfo ''l2'' False [] = Some ([[0]], [ex_l2])"
  "BuildCacheGroup (\<lambda>_. 0) ex_cfg ex_zinfo ''l1'' True [ex_l2] = Some ([[1], [2]], [ex_l2, ex_l1 ''l1-0'', ex_l1 ''l1-1''])"
  "build_mems ex_cfg ex_zinfo = Some [MemCtrl ''mem-0'' (SimpleMem 50)]"
  by (simp_all add: ex_build ex_l2_def ex_l1_def)

lemma ex_build_groups:
  "build_groups (Suc (Suc 0)) (BuildCacheGroup (\<lambda>_. 0) ex_cfg ex_zinfo) [(''l1'', []), (''l2'', [[''l1'']])] [''l2''] [] [] =
     Some ([(''l2'', [[0]]), (''l1'', [[1], [2]])], [ex_l2, ex_l1 ''l1-0'', ex_l1 ''l1-1''])"
  by (simp add: ex_banks isTerminal_def children_of_def)

lemma ex_init:
  "init_hierarchy (\<lambda>_. 0) ex_cfg ex_zinfo None =
     Some ([(''l1'', []), (''l2'', [[''l1'']])], [(''l1'', ''l2'')], [(''l2'', [[0]]), (''l1'', [[1], [2]])], ex_w)"
proof -
  let ?c = "[(''l1'', []), (''l2'', [[''l1'']])]" and ?m = "[(''l2'', [[0]]), (''l1'', [[1], [2]])]"
  let ?w = "wiring_new [ex_l2, ex_l1 ''l1-0'', ex_l1 ''l1-1''] [MemCtrl ''mem-0'' (SimpleMem 50)]"
  let ?w1 = "?w\<lparr>w_parents := (\<lambda>_. [])(0 := [MemObj 0]), w_parentRTTs := (\<lambda>_. [])(0 := [0])\<rparr>"
  have m: "connect_mem None [0] ?w = Some ?w1"
    by (simp add: connect_mem_def wiring_new_def setParents_def ex_l2_def rtt_def fun_eq_iff)
  have g: "connect_group None ?c ?m ''l1'' ?w1 = Some ?w1" "isTerminal ?c ''l1''" "\<not> isTerminal ?c ''l2''"
    "linearize ?m (children_of ?c ''l2'') = Some [[1], [2]]" "group_links [[0]] [[1], [2]] = Some [([0], [1, 2])]"
    by (simp_all add: connect_group_def isTerminal_def children_of_def linearize_def interleave_def group_links_def ex_small)
  have l: "connect_link None ([0], [1, 2]) ?w1 = Some ex_w"
    by (simp add: connect_link_def wiring_new_def setParents_def setChildren_def tcc_init_def MAX_CACHE_CHILDREN_def
        ex_l2_def ex_l1_def rtt_def ex_small ex_w_def fun_eq_iff)
  have "connect_group None ?c ?m ''l2'' ?w1 = Some ex_w"
    unfolding connect_group_def using g l by simp
  then show ?thesis
    using m g by (simp add: init_hierarchy_def ex_groups ex_banks ex_build_groups check_terminal_def del: read_groups.simps build_groups.simps)
qed

definition ex_start :: "(any_array, any_mem list) sys" where
  "ex_start = the (sys_start ex_raw (\<lambda>x. x) 10000 ex_w)"

lemma ex_covered: "covered ex_w" "list_all unit_positive (w_mems ex_w)" "terminal_bank ex_w 1" "terminal_bank ex_w 2"
  by (simp_all add: covered_def plain_def simple_kind_def ways_divide_def ex_w_def ex_l2_def ex_l1_def unit_positive_def
      terminal_bank_def bank_at_def)

lemma ex_started: "sys_start ex_raw (\<lambda>x. x) 10000 ex_w = Some ex_start"
  by (simp add: ex_start_def sys_start_def ex_w_def ex_l2_def ex_l1_def bank_array_def hash_fn_def sa_new_def unit_new_def mem_new_def ex_small)

lemma ex_reqs: "core_request (ex_req GETX 5)" "core_request (ex_req GETS 5)" "core_request (ex_req GETX 7)"
  by (simp_all add: core_request_def ex_req_def has_flag_def)

text \<open>
  C2: Whatever the configuration, if \<open>InitSystem\<close> accepts it then every cache bank of the hierarchy
  has parents; a bank that is a parent comes before its child in the order of construction, so there
  are no cycles, and lists the child exactly at the index the child was given; a bank listed as a
  child has the bank among its parents; and a parent memory is one of the controllers built.
\<close>

theorem init_wiring:
  assumes "init_hierarchy fnv cfg zi net = Some (cm, pm, cMap, w)" and "c < length (w_objs w)"
  shows "w_parents w c \<noteq> [] \<and>
    (\<forall>p. CacheObj p \<in> set (w_parents w c) \<longrightarrow> p < c \<and> w_childId w c < length (w_children w p) \<and> w_children w p ! w_childId w c = c) \<and>
    (\<forall>p. c \<in> set (w_children w p) \<longrightarrow> CacheObj p \<in> set (w_parents w c)) \<and>
    (\<forall>k. MemObj k \<in> set (w_parents w c) \<longrightarrow> k < length (w_mems w))"
proof -
  obtain llc llcBanks L where b: "built cm llc cMap llcBanks L w" using init_hierarchy_built [OF assms(1)] by blast
  have "p < c \<and> w_childId w c < length (w_children w p) \<and> w_children w p ! w_childId w c = c" if q: "CacheObj p \<in> set (w_parents w c)" for p
  proof -
    obtain ps cs i where l: "(ps, cs) \<in> set L" "p \<in> set ps" "i < length cs" "cs ! i = c"
      using built_parents(2) [OF b assms(2) q] by blast
    then have "p < c" using built_link_banks(1) [OF b l(1,2)] nth_mem by metis
    then show ?thesis using built_wired(1) [OF b l(1,3)] built_wired(2) [OF b l(1,2)] l(3,4) by simp
  qed
  moreover have "CacheObj p \<in> set (w_parents w c)" if q: "c \<in> set (w_children w p)" for p
  proof -
    have "w_children w p \<noteq> []" using q by auto
    then obtain ps cs where l: "(ps, cs) \<in> set L" "p \<in> set ps" using built_no_children [OF b] by blast
    then obtain i where "i < length cs" "cs ! i = c" using built_wired(2) [OF b l] q by (auto simp: in_set_conv_nth)
    then show ?thesis using built_wired(1) [OF b l(1)] l(2) by auto
  qed
  moreover have "k < length (w_mems w)" if q: "MemObj k \<in> set (w_parents w c)" for k
  proof (cases "c \<in> set llcBanks")
    case True
    then show ?thesis using b q by (auto simp: built_def)
  next
    case False
    then obtain ps cs where l: "(ps, cs) \<in> set L" "c \<in> set cs" using built_child [OF b assms(2)] by blast
    then obtain i where "i < length cs" "cs ! i = c" by (auto simp: in_set_conv_nth)
    then show ?thesis using built_wired(1) [OF b l(1)] q by auto
  qed
  ultimately show ?thesis using built_parents(1) [OF b assms(2)] by blast
qed

theorem init_wiring_witness:
  "w_parents ex_w 2 \<noteq> [] \<and> w_children ex_w 0 ! w_childId ex_w 2 = 2 \<and> CacheObj 0 \<in> set (w_parents ex_w 2)"
proof -
  have l: "2 < length (w_objs ex_w)" by (simp add: ex_w_def)
  have "CacheObj 0 \<in> set (w_parents ex_w 2)" "2 \<in> set (w_children ex_w 0)" by (simp_all add: ex_w_def)
  then show ?thesis using init_wiring [OF ex_init l] by blast
qed

text \<open>
  C23: The breadth-first loop of \<open>InitSystem\<close> that builds the cache groups never meets a group twice
  and ends within as many rounds as there are groups, as soon as the groups were read and a single
  root was found: its "loop" panic is unreachable.
\<close>

theorem build_groups_returns:
  assumes "read_groups cfg groups [] [] = Some (childMap, parentMap)" "find_llc childMap parentMap groups = Some llc"
    and "\<And>g t objs. build g t objs \<noteq> None"
  shows "build_groups (length groups) build childMap [llc] [] [] \<noteq> None"
proof -
  note t = read_tree_ok [OF assms(1,2)]
  have "length childMap = length groups" using t by (metis length_map)
  then show ?thesis using build_groups_total [OF _ assms(3), of childMap llc "[]" "[llc]"] t by (simp add: tree_ok_def)
qed

theorem build_groups_returns_witness:
  "build_groups 2 (\<lambda>_ _ objs. Some ([], objs)) [(''l1'', []), (''l2'', [[''l1'']])] [''l2''] [] [] \<noteq> None"
  using build_groups_returns [OF ex_groups(2,3), of "\<lambda>_ _ objs. Some ([], objs)"] by (simp add: numeral_2_eq_2)



end
