(* ===== verification/Locks.thy ===== *)
theory Locks
  imports Prelude
begin

text \<open>
  The locks of src/src/locks.h: the test-and-test-and-set spin lock, the ticket lock and the futex.
  Each is a program of atomic steps (one shared access each) and any number of threads take steps in
  any order. The value of the lock is a 32-bit word. The kernel's futex calls are modelled by their
  documented behaviour: \<open>FUTEX_WAIT\<close> sleeps if the lock still has the expected value, and a sleeper
  may also return early (signal or timeout); \<open>FUTEX_WAKE\<close> wakes one sleeper if there is any.
\<close>

record 'pc lock_sys =
  lk_val :: u32
  lk_pc :: "nat \<Rightarrow> 'pc"

abbreviation lk_set :: "nat \<Rightarrow> u32 \<Rightarrow> 'pc \<Rightarrow> 'pc lock_sys \<Rightarrow> 'pc lock_sys" where
  "lk_set t v p s \<equiv> s\<lparr>lk_val := v, lk_pc := (lk_pc s)(t := p)\<rparr>"

section \<open>Spin lock\<close>

text \<open>\<open>SpFail\<close> is the failed assertion of \<open>spin_unlock\<close>.\<close>

datatype spin_pc = SpOut | SpTest bool | SpCas bool | SpIn | SpFail

text \<open>The flag of \<open>SpTest\<close> and \<open>SpCas\<close> tells \<open>spin_trylock\<close> (one attempt) from \<open>spin_lock\<close>.\<close>

definition spin_init :: "spin_pc lock_sys" where
  "spin_init = \<lparr>lk_val = 0, lk_pc = (\<lambda>_. SpOut)\<rparr>"

definition spin_retry :: "bool \<Rightarrow> spin_pc" where
  "spin_retry try = (if try then SpOut else SpTest False)"

fun spin_lock :: "spin_pc \<Rightarrow> u32 \<Rightarrow> (u32 \<times> spin_pc) list" where
  "spin_lock (SpTest try) v = [(v, if v = 0 then SpCas try else spin_retry try)]"
| "spin_lock (SpCas try) v = [if v = 0 then (1, SpIn) else (v, spin_retry try)]"
| "spin_lock _ v = []"

fun spin_unlock :: "spin_pc \<Rightarrow> u32 \<Rightarrow> (u32 \<times> spin_pc) list" where
  "spin_unlock SpIn v = [if v = 1 then (0, SpOut) else (v, SpFail)]"
| "spin_unlock _ v = []"

definition spin_call :: "spin_pc \<Rightarrow> u32 \<Rightarrow> (u32 \<times> spin_pc) list" where
  "spin_call p v = (if p = SpOut then [(v, SpTest False), (v, SpTest True)] else [])"

inductive spin_step :: "spin_pc lock_sys \<Rightarrow> spin_pc lock_sys \<Rightarrow> bool" where
  "(v, p) \<in> set (spin_call (lk_pc s t) (lk_val s) @ spin_lock (lk_pc s t) (lk_val s) @ spin_unlock (lk_pc s t) (lk_val s)) \<Longrightarrow>
     spin_step s (lk_set t v p s)"

section \<open>Ticket lock\<close>

definition TICKET_MASK :: u32 where
  "TICKET_MASK = 0xFFFF"

definition serving :: "u32 \<Rightarrow> u32" where
  "serving val = drop_bit 16 val AND TICKET_MASK"

definition next_ticket :: "u32 \<Rightarrow> u32" where
  "next_ticket val = val AND TICKET_MASK"

definition take_ticket :: "u32 \<Rightarrow> u32" where
  "take_ticket val = (let hi = val AND push_bit 16 TICKET_MASK; newLo = (val + 1) AND TICKET_MASK in hi OR newLo)"

definition try_ticket :: "u32 \<Rightarrow> u32" where
  "try_ticket val = (let hi = serving val; lo = next_ticket val; newLo = (lo + 1) AND TICKET_MASK in push_bit 16 hi OR newLo)"

datatype ticket_pc = TOut | TRead | TCas u32 | TSpin u32 | TIn | TTryRead | TTryCas u32

definition ticket_init :: "ticket_pc lock_sys" where
  "ticket_init = \<lparr>lk_val = 0, lk_pc = (\<lambda>_. TOut)\<rparr>"

fun ticket_lock :: "ticket_pc \<Rightarrow> u32 \<Rightarrow> (u32 \<times> ticket_pc) list" where
  "ticket_lock TOut v = [(v, TRead)]"
| "ticket_lock TRead v = [(v, TCas v)]"
| "ticket_lock (TCas val) v = [if v = val then (take_ticket val, TSpin (next_ticket val)) else (v, TRead)]"
| "ticket_lock (TSpin ticket) v = [(v, if serving v \<noteq> ticket then TSpin ticket else TIn)]"
| "ticket_lock _ v = []"

fun ticket_trylock :: "ticket_pc \<Rightarrow> u32 \<Rightarrow> (u32 \<times> ticket_pc) list" where
  "ticket_trylock TOut v = [(v, TTryRead)]"
| "ticket_trylock TTryRead v = [(v, if serving v = next_ticket v then TTryCas v else TOut)]"
| "ticket_trylock (TTryCas val) v = [if v = val then (try_ticket val, TIn) else (v, TOut)]"
| "ticket_trylock _ v = []"

fun ticket_unlock :: "ticket_pc \<Rightarrow> u32 \<Rightarrow> (u32 \<times> ticket_pc) list" where
  "ticket_unlock TIn v = [(v + push_bit 16 1, TOut)]"
| "ticket_unlock _ v = []"

text \<open>The threads that use the lock are numbered below \<open>n\<close>.\<close>

inductive ticket_step :: "nat \<Rightarrow> ticket_pc lock_sys \<Rightarrow> ticket_pc lock_sys \<Rightarrow> bool" for n where
  "t < n \<Longrightarrow> (v, p) \<in> set (ticket_lock (lk_pc s t) (lk_val s) @ ticket_trylock (lk_pc s t) (lk_val s) @ ticket_unlock (lk_pc s t) (lk_val s)) \<Longrightarrow>
     ticket_step n s (lk_set t v p s)"

text \<open>What a fair lock is: a queue of threads, the first of which may be inside.\<close>

inductive fifo_step :: "nat list \<times> bool \<Rightarrow> nat list \<times> bool \<Rightarrow> bool" where
  fifo_join: "t \<notin> set q \<Longrightarrow> fifo_step (q, b) (q @ [t], b)"
| fifo_enter: "fifo_step (t # q, False) (t # q, True)"
| fifo_leave: "fifo_step (t # q, True) (q, False)"

section \<open>Futex\<close>

datatype futex_call = FutexLock | FutexNospin | FutexTimeout

definition spins :: "futex_call \<Rightarrow> nat" where
  "spins m = (if m = FutexLock then 5 else 1)"

datatype futex_pc =
  FOut | FTest futex_call nat | FCas futex_call nat | FXchg1 futex_call | FWait futex_call | FAsleep futex_call
| FXchg2 futex_call | FIn | FStore | FWake

definition futex_init :: "futex_pc lock_sys" where
  "futex_init = \<lparr>lk_val = 0, lk_pc = (\<lambda>_. FOut)\<rparr>"

definition futex_retry :: "futex_call \<Rightarrow> nat \<Rightarrow> futex_pc" where
  "futex_retry m i = (if i + 1 < spins m then FTest m (i + 1) else FXchg1 m)"

fun futex_lock_step :: "futex_pc \<Rightarrow> u32 \<Rightarrow> (u32 \<times> futex_pc) list" where
  "futex_lock_step FOut v = [(v, FTest FutexLock 0), (v, FTest FutexNospin 0), (v, FTest FutexTimeout 0)]"
| "futex_lock_step (FTest m i) v = [(v, if v = 0 then FCas m i else futex_retry m i)]"
| "futex_lock_step (FCas m i) v = [if v = 0 then (1, FIn) else (v, futex_retry m i)]"
| "futex_lock_step (FXchg1 m) v = [(2, if v = 0 then FIn else FWait m)]"
| "futex_lock_step (FWait m) v = [(v, if v = 2 then FAsleep m else FXchg2 m)]"
| "futex_lock_step (FAsleep m) v = [(v, FXchg2 m)]"
| "futex_lock_step (FXchg2 m) v = [(2, if v = 0 then FIn else if m = FutexTimeout then FOut else FTest m 0)]"
| "futex_lock_step _ v = []"

fun futex_unlock_step :: "futex_pc \<Rightarrow> u32 \<Rightarrow> (u32 \<times> futex_pc) list" where
  "futex_unlock_step FIn v = [(v - 1, if v \<noteq> 1 then FStore else FOut)]"
| "futex_unlock_step FStore v = [(0, FWake)]"
| "futex_unlock_step _ v = []"

definition asleep :: "futex_pc \<Rightarrow> bool" where
  "asleep p = (case p of FAsleep _ \<Rightarrow> True | _ \<Rightarrow> False)"

inductive futex_step :: "futex_pc lock_sys \<Rightarrow> futex_pc lock_sys \<Rightarrow> bool" where
  futex_local: "(v, p) \<in> set (futex_lock_step (lk_pc s t) (lk_val s) @ futex_unlock_step (lk_pc s t) (lk_val s)) \<Longrightarrow>
     futex_step s (lk_set t v p s)"
| futex_wake: "lk_pc s t = FWake \<Longrightarrow> lk_pc s u = FAsleep m \<Longrightarrow>
     futex_step s (s\<lparr>lk_pc := (lk_pc s)(t := FOut, u := FXchg2 m)\<rparr>)"
| futex_wake_none: "lk_pc s t = FWake \<Longrightarrow> \<forall>u. \<not> asleep (lk_pc s u) \<Longrightarrow>
     futex_step s (s\<lparr>lk_pc := (lk_pc s)(t := FOut)\<rparr>)"

definition futex_haswaiters :: "futex_pc lock_sys \<Rightarrow> bool" where
  "futex_haswaiters s \<longleftrightarrow> lk_val s = 2"

section \<open>Exclusion by a lock word\<close>

text \<open>
  The spin lock and the futex are free exactly when their word is 0, and otherwise exactly one thread
  owns them.
\<close>

definition owned_by :: "('pc \<Rightarrow> bool) \<Rightarrow> 'pc lock_sys \<Rightarrow> bool" where
  "owned_by owns s \<longleftrightarrow> (if lk_val s = 0 then \<forall>t. \<not> owns (lk_pc s t) else \<exists>!t. owns (lk_pc s t))"

lemma owned_excl: "owned_by owns s \<Longrightarrow> owns (lk_pc s t) \<Longrightarrow> owns (lk_pc s u) \<Longrightarrow> t = u"
  by (auto simp: owned_by_def split: if_splits)

lemma owned_step:
  assumes "owned_by owns s"
    and "if owns p = owns (lk_pc s t) then (v = 0) = (lk_val s = 0) else if owns p then lk_val s = 0 \<and> v \<noteq> 0 else v = 0"
  shows "owned_by owns (lk_set t v p s)"
proof (cases "owns p = owns (lk_pc s t)")
  case True
  then have "owns (((lk_pc s)(t := p)) u) = owns (lk_pc s u)" for u by simp
  then show ?thesis using assms True by (auto simp: owned_by_def)
next
  case False
  then show ?thesis using assms owned_excl [OF assms(1)] by (auto simp: owned_by_def split: if_splits)
qed

lemma spin_owned: "spin_step\<^sup>*\<^sup>* spin_init s \<Longrightarrow> owned_by (\<lambda>p. p = SpIn) s \<and> lk_val s \<in> {0, 1} \<and> (\<forall>t. lk_pc s t \<noteq> SpFail)"
proof (induction rule: rtranclp_induct)
  case base
  then show ?case by (simp add: owned_by_def spin_init_def)
next
  case (step s s')
  from step.hyps(2) obtain v p t where s': "s' = lk_set t v p s"
    "(v, p) \<in> set (spin_call (lk_pc s t) (lk_val s) @ spin_lock (lk_pc s t) (lk_val s) @ spin_unlock (lk_pc s t) (lk_val s))"
    by cases
  have f: "lk_val s = 0 \<Longrightarrow> lk_pc s t \<noteq> SpIn" "lk_val s = 0 \<or> lk_val s = 1" using step.IH by (auto simp: owned_by_def)
  have "owned_by (\<lambda>p. p = SpIn) s'" unfolding s'(1)
    by (rule owned_step) (use step.IH f s'(2) in \<open>cases "lk_pc s t"; auto simp: spin_call_def spin_retry_def split: if_splits\<close>)+
  moreover have "v \<in> {0, 1} \<and> p \<noteq> SpFail"
    using step.IH f s'(2) by (cases "lk_pc s t") (auto simp: spin_call_def spin_retry_def split: if_splits)
  ultimately show ?case using step.IH s'(1) by simp
qed

lemma futex_owned: "futex_step\<^sup>*\<^sup>* futex_init s \<Longrightarrow> owned_by (\<lambda>p. p = FIn \<or> p = FStore) s \<and> lk_val s \<in> {0, 1, 2}"
proof (induction rule: rtranclp_induct)
  case base
  then show ?case by (simp add: owned_by_def futex_init_def)
next
  case (step s s')
  from step.hyps(2) show ?case
  proof cases
    case (futex_local v p t)
    have f: "lk_val s = 0 \<Longrightarrow> lk_pc s t \<noteq> FIn \<and> lk_pc s t \<noteq> FStore" using step.IH by (auto simp: owned_by_def)
    have "owned_by (\<lambda>p. p = FIn \<or> p = FStore) s'" unfolding futex_local(1)
      by (rule owned_step) (use step.IH f futex_local(2) in \<open>cases "lk_pc s t"; auto simp: futex_retry_def split: if_splits\<close>)+
    moreover have "v \<in> {0, 1, 2}"
      using step.IH f futex_local(2) by (cases "lk_pc s t") (auto split: if_splits)
    ultimately show ?thesis using futex_local(1) by simp
  next
    case (futex_wake t u m)
    have "(let p = lk_pc s' x in p = FIn \<or> p = FStore) = (let p = lk_pc s x in p = FIn \<or> p = FStore)" for x using futex_wake by auto
    then show ?thesis using step.IH futex_wake(1) by (auto simp: owned_by_def Let_def)
  next
    case (futex_wake_none t)
    have "(let p = lk_pc s' x in p = FIn \<or> p = FStore) = (let p = lk_pc s x in p = FIn \<or> p = FStore)" for x using futex_wake_none by auto
    then show ?thesis using step.IH futex_wake_none(1) by (auto simp: owned_by_def Let_def)
  qed
qed

section \<open>Sleepers are woken\<close>

text \<open>
  While a thread sleeps, either the lock word tells the owner to wake someone, or a thread is about
  to store and wake, or a woken thread is about to put the mark back.
\<close>

definition will_wake :: "futex_pc \<Rightarrow> bool" where
  "will_wake p = (case p of FStore \<Rightarrow> True | FWake \<Rightarrow> True | FXchg2 _ \<Rightarrow> True | _ \<Rightarrow> False)"

definition sleepers_ok :: "futex_pc lock_sys \<Rightarrow> bool" where
  "sleepers_ok s \<longleftrightarrow> (\<forall>t. asleep (lk_pc s t) \<longrightarrow> lk_val s = 2 \<or> (\<exists>u. will_wake (lk_pc s u)))"

lemma sleepers_step:
  assumes "sleepers_ok s" and "v = 2 \<or> will_wake p \<or> v = lk_val s \<and> \<not> asleep p \<and> \<not> will_wake (lk_pc s t) \<or>
    lk_val s \<noteq> 2 \<and> \<not> asleep p \<and> \<not> will_wake (lk_pc s t)"
  shows "sleepers_ok (lk_set t v p s)"
  using assms unfolding sleepers_ok_def by (auto split: if_splits)

lemma futex_sleepers: "futex_step\<^sup>*\<^sup>* futex_init s \<Longrightarrow> sleepers_ok s"
proof (induction rule: rtranclp_induct)
  case base
  then show ?case by (simp add: sleepers_ok_def futex_init_def asleep_def)
next
  case (step s s')
  note o = futex_owned [OF step.hyps(1)]
  from step.hyps(2) show ?case
  proof cases
    case (futex_local v p t)
    have f: "lk_val s = 0 \<Longrightarrow> lk_pc s t \<noteq> FIn \<and> lk_pc s t \<noteq> FStore" using o by (auto simp: owned_by_def)
    show ?thesis unfolding futex_local(1)
      by (rule sleepers_step [OF step.IH])
        (use o f futex_local(2) in \<open>cases "lk_pc s t"; auto simp: futex_retry_def will_wake_def asleep_def split: if_splits\<close>)
  next
    case (futex_wake t u m)
    then have "will_wake (lk_pc s' u)" by (simp add: will_wake_def)
    then show ?thesis unfolding sleepers_ok_def by blast
  next
    case (futex_wake_none t)
    then have "\<not> asleep (lk_pc s' x)" for x by (simp add: asleep_def)
    then show ?thesis unfolding sleepers_ok_def by blast
  qed
qed

section \<open>The ticket lock is a queue\<close>

text \<open>The two halves of the word, as numbers.\<close>

lemma ticket_mask: "TICKET_MASK = mask 16"
  by (simp add: TICKET_MASK_def mask_eq_exp_minus_1)

lemma unat_next: "unat (next_ticket v) = unat v mod 2 ^ 16"
  by (simp add: next_ticket_def ticket_mask take_bit_eq_mask [symmetric] take_bit_eq_mod unat_mod)

lemma unat_half: "unat (v :: u32) div 2 ^ 16 < 2 ^ 16"
proof -
  have "unat v < 2 ^ LENGTH(32)" by (rule unsigned_less)
  then show ?thesis by simp
qed

lemma unat_serving: "unat (serving v) = unat v div 2 ^ 16"
  using unat_half [of v]
  by (simp add: serving_def ticket_mask take_bit_eq_mask [symmetric] take_bit_eq_mod unat_mod drop_bit_eq_div unat_div)

lemma ticket_halves: "v = push_bit 16 (serving v) OR next_ticket v" "val AND push_bit 16 TICKET_MASK = push_bit 16 (serving val)"
  by (rule bit_word_eqI, auto simp: serving_def next_ticket_def ticket_mask bit_simps)+

lemma unat_ticket_join:
  assumes "unat a < 2 ^ 16" "unat b < 2 ^ 16"
  shows "unat (push_bit 16 a OR b :: u32) = unat a * 2 ^ 16 + unat b"
proof -
  have u: "unat (push_bit 16 a) = unat a * 2 ^ 16"
    using assms(1) by (simp add: push_bit_eq_mult unat_mult_lem [THEN iffD1])
  have "take_bit 16 b = b" using assms(2) by (simp add: word_unat_eq_iff unsigned_take_bit_eq take_bit_nat_eq_self)
  then have h: "bit b n \<Longrightarrow> n < 16" for n by (metis bit_take_bit_iff)
  have "push_bit 16 a AND b = 0" by (intro bit_word_eqI) (auto simp: bit_simps dest: h)
  then have "push_bit 16 a OR b = push_bit 16 a + b" by (simp add: disjunctive_add_eq_or)
  then show ?thesis using assms u by (simp add: unat_add_lem [THEN iffD1])
qed

lemma unat_inc_mask: "unat ((v + 1) AND TICKET_MASK) = (unat v + 1) mod 2 ^ 16"
  using unat_next [of "v + 1"] by (simp add: next_ticket_def unat_word_ariths mod_mod_cancel)

lemma unat_ticket_ops:
  "unat (take_ticket v) = unat v div 2 ^ 16 * 2 ^ 16 + (unat v + 1) mod 2 ^ 16"
  "unat (try_ticket v) = unat v div 2 ^ 16 * 2 ^ 16 + (unat v + 1) mod 2 ^ 16"
  "unat (v + push_bit 16 1) = (unat v div 2 ^ 16 + 1) mod 2 ^ 16 * 2 ^ 16 + unat v mod 2 ^ 16"
proof -
  show "unat (take_ticket v) = unat v div 2 ^ 16 * 2 ^ 16 + (unat v + 1) mod 2 ^ 16"
    unfolding take_ticket_def Let_def ticket_halves(2)
    by (subst unat_ticket_join) (use unat_half [of v] in \<open>simp_all add: unat_serving unat_inc_mask\<close>)
  show "unat (try_ticket v) = unat v div 2 ^ 16 * 2 ^ 16 + (unat v + 1) mod 2 ^ 16"
    unfolding try_ticket_def Let_def
    by (subst unat_ticket_join) (use unat_half [of v] in \<open>simp_all add: unat_serving unat_inc_mask unat_next mod_Suc_eq\<close>)
  have v: "unat v = unat v div 2 ^ 16 * 2 ^ 16 + unat v mod 2 ^ 16" by (rule div_mult_mod_eq [symmetric])
  have "unat (v + push_bit 16 1) = (unat v + 2 ^ 16) mod 2 ^ 32" by (simp add: unat_word_ariths push_bit_eq_mult)
  also have "\<dots> = (unat v div 2 ^ 16 + 1) mod 2 ^ 16 * 2 ^ 16 + unat v mod 2 ^ 16"
    using mod_mult2_eq [of "unat v + 2 ^ 16" "2 ^ 16" "2 ^ 16"] div_add_self2 [of "2 ^ 16" "unat v"] by simp
  finally show "unat (v + push_bit 16 1) = (unat v div 2 ^ 16 + 1) mod 2 ^ 16 * 2 ^ 16 + unat v mod 2 ^ 16" .
qed

definition ticket_of :: "nat \<Rightarrow> nat \<Rightarrow> u32" where
  "ticket_of k i = of_nat ((k + i) mod 2 ^ 16)"

lemma unat_ticket_of: "unat (ticket_of k i) = (k + i) mod 2 ^ 16"
  by (simp add: ticket_of_def unat_of_nat)

definition waiting :: "ticket_pc \<Rightarrow> bool" where
  "waiting p = (case p of TSpin _ \<Rightarrow> True | TIn \<Rightarrow> True | _ \<Rightarrow> False)"

definition ticket_queue :: "ticket_pc lock_sys \<Rightarrow> nat list \<Rightarrow> bool \<Rightarrow> bool" where
  "ticket_queue s q b \<longleftrightarrow> unat (lk_val s) mod 2 ^ 16 = (unat (lk_val s) div 2 ^ 16 + length q) mod 2 ^ 16 \<and>
     (\<forall>i<length q. lk_pc s (q ! i) = (if i = 0 \<and> b then TIn else TSpin (ticket_of (unat (lk_val s) div 2 ^ 16) i)))"

definition ticket_sim :: "nat \<Rightarrow> ticket_pc lock_sys \<Rightarrow> nat list \<times> bool \<Rightarrow> bool" where
  "ticket_sim n s a \<longleftrightarrow> (case a of (q, b) \<Rightarrow> distinct q \<and> set q \<subseteq> {..<n} \<and> (b \<longrightarrow> q \<noteq> []) \<and> ticket_queue s q b \<and>
     (\<forall>t. t \<notin> set q \<longrightarrow> \<not> waiting (lk_pc s t)) \<and> (\<forall>t val. lk_pc s t = TTryCas val \<longrightarrow> serving val = next_ticket val))"

lemma ticket_sim_stutter:
  assumes "ticket_sim n s (q, b)" "\<not> waiting (lk_pc s t)" "\<not> waiting p" "\<forall>val. p = TTryCas val \<longrightarrow> serving val = next_ticket val"
  shows "ticket_sim n (lk_set t (lk_val s) p s) (q, b)"
proof -
  have t: "t \<notin> set q"
  proof
    assume "t \<in> set q"
    then obtain i where "i < length q" "q ! i = t" by (auto simp: in_set_conv_nth)
    then show False using assms(1,2) by (auto simp: ticket_sim_def ticket_queue_def waiting_def split: if_splits)
  qed
  then have "q ! i \<noteq> t" if "i < length q" for i using that nth_mem by metis
  then show ?thesis using assms by (auto simp: ticket_sim_def ticket_queue_def)
qed

lemma ticket_not_queued:
  assumes "ticket_sim n s (q, b)" "\<not> waiting (lk_pc s t)"
  shows "t \<notin> set q"
proof
  assume "t \<in> set q"
  then obtain i where "i < length q" "q ! i = t" by (auto simp: in_set_conv_nth)
  then show False using assms by (auto simp: ticket_sim_def ticket_queue_def waiting_def split: if_splits)
qed

lemma ticket_queue_at:
  assumes "ticket_sim n s (q, b)" "waiting (lk_pc s t)"
  obtains i where "i < length q" "q ! i = t" "lk_pc s t = (if i = 0 \<and> b then TIn else TSpin (ticket_of (unat (lk_val s) div 2 ^ 16) i))"
proof -
  have "t \<in> set q" using assms by (auto simp: ticket_sim_def)
  then show ?thesis using that assms by (auto simp: in_set_conv_nth ticket_sim_def ticket_queue_def)
qed

lemma ticket_length: "ticket_sim n s (q, b) \<Longrightarrow> length q \<le> n"
  using card_mono [of "{..<n}" "set q"] by (auto simp: ticket_sim_def distinct_card)

lemma ticket_sim_join:
  assumes a: "ticket_sim n s (q, b)" "\<not> waiting (lk_pc s t)" "t < n" and p: "p = TIn \<and> q = [] \<and> b' \<or> p = TSpin (next_ticket (lk_val s)) \<and> b' = b"
    and v: "unat v = unat (lk_val s) div 2 ^ 16 * 2 ^ 16 + (unat (lk_val s) + 1) mod 2 ^ 16"
  shows "ticket_sim n (lk_set t v p s) (q @ [t], b')"
proof -
  let ?k = "unat (lk_val s) div 2 ^ 16"
  note t = ticket_not_queued [OF a(1,2)]
  have k: "unat v div 2 ^ 16 = ?k" "unat v mod 2 ^ 16 = (unat (lk_val s) + 1) mod 2 ^ 16" by (simp_all add: v)
  have m: "unat (lk_val s) mod 2 ^ 16 = (?k + length q) mod 2 ^ 16" using a(1) by (simp add: ticket_sim_def ticket_queue_def)
  then have "unat v mod 2 ^ 16 = (?k + length (q @ [t])) mod 2 ^ 16" using k(2) by (metis add.assoc length_append_singleton mod_add_left_eq Suc_eq_plus1)
  moreover have "((lk_pc s)(t := p)) ((q @ [t]) ! i) = (if i = 0 \<and> b' then TIn else TSpin (ticket_of ?k i))" if i: "i < length (q @ [t])" for i
  proof (cases "i = length q")
    case True
    have "next_ticket (lk_val s) = ticket_of ?k (length q)" using m by (simp add: word_unat_eq_iff unat_next unat_ticket_of)
    then show ?thesis using True p a(1) by (auto simp: ticket_sim_def)
  next
    case False
    then have "i < length q" using i by simp
    moreover have "q ! i \<noteq> t" using t calculation nth_mem by metis
    ultimately show ?thesis using p a(1) by (auto simp: ticket_sim_def ticket_queue_def nth_append)
  qed
  ultimately have "ticket_queue (lk_set t v p s) (q @ [t]) b'" by (simp add: ticket_queue_def k(1) [simplified])
  then show ?thesis using a t p by (auto simp: ticket_sim_def)
qed

lemma ticket_sim_leave:
  assumes a: "ticket_sim n s (t # q, True)" and v: "v = lk_val s + push_bit 16 1"
  shows "ticket_sim n (lk_set t v TOut s) (q, False)"
proof -
  let ?k = "unat (lk_val s) div 2 ^ 16"
  have k: "unat v div 2 ^ 16 = (?k + 1) mod 2 ^ 16" "unat v mod 2 ^ 16 = unat (lk_val s) mod 2 ^ 16"
    unfolding v unat_ticket_ops(3) by simp_all
  have "unat v mod 2 ^ 16 = (unat v div 2 ^ 16 + length q) mod 2 ^ 16"
    using a unfolding k by (simp add: ticket_sim_def ticket_queue_def mod_Suc_eq mod_simps)
  moreover have "((lk_pc s)(t := TOut)) (q ! i) = TSpin (ticket_of (unat v div 2 ^ 16) i)" if i: "i < length q" for i
  proof -
    have "q ! i \<noteq> t" using a i nth_mem by (fastforce simp: ticket_sim_def)
    moreover have "lk_pc s ((t # q) ! Suc i) = TSpin (ticket_of ?k (Suc i))"
      using a i by (auto simp: ticket_sim_def ticket_queue_def)
    moreover have "ticket_of (unat v div 2 ^ 16) i = ticket_of ?k (Suc i)"
      unfolding k ticket_of_def by (simp add: mod_simps)
    ultimately show ?thesis by simp
  qed
  ultimately have "ticket_queue (lk_set t v TOut s) q False" by (simp add: ticket_queue_def)
  then show ?thesis using a by (auto simp: ticket_sim_def waiting_def)
qed

lemma mod_shift_zero: "k < N \<Longrightarrow> i < N \<Longrightarrow> k = (k + i) mod N \<Longrightarrow> i = (0::nat)"
  by (cases "k + i < N") (auto simp: le_mod_geq)

lemma ticket_sim_step:
  assumes sim: "ticket_sim n s a" and n: "n \<le> 2 ^ 16" and st: "ticket_step n s s'"
  shows "\<exists>a'. fifo_step\<^sup>*\<^sup>* a a' \<and> ticket_sim n s' a'"
proof -
  obtain q b where a: "a = (q, b)" by (cases a)
  note sim = sim [unfolded a]
  obtain t v p where t: "t < n" and s': "s' = lk_set t v p s" and
    c: "(v, p) \<in> set (ticket_lock (lk_pc s t) (lk_val s) @ ticket_trylock (lk_pc s t) (lk_val s) @ ticket_unlock (lk_pc s t) (lk_val s))"
    using st by cases
  note stutter = ticket_sim_stutter [OF sim, of t] and nq = ticket_not_queued [OF sim]
  have keep: ?thesis if "v = lk_val s" "\<not> waiting (lk_pc s t)" "\<not> waiting p" "\<forall>val. p = TTryCas val \<longrightarrow> serving val = next_ticket val"
    using stutter [OF that(2-4)] that(1) unfolding a s' by blast
  show ?thesis
  proof (cases "lk_pc s t")
    case (TCas val)
    then show ?thesis
    proof (cases "lk_val s = val")
      case True
      then have "ticket_sim n s' (q @ [t], b)" using ticket_sim_join [OF sim _ t, of p b v] TCas c unat_ticket_ops(1) [of val]
        by (auto simp: s' waiting_def)
      moreover have "fifo_step (q, b) (q @ [t], b)" using nq [of t] TCas by (intro fifo_join) (simp add: waiting_def)
      ultimately show ?thesis unfolding a by blast
    next
      case False
      then show ?thesis using c TCas by (intro keep) (auto simp: waiting_def)
    qed
  next
    case (TSpin k)
    then have "waiting (lk_pc s t)" by (simp add: waiting_def)
    then obtain i where iq: "i < length q" "q ! i = t" "lk_pc s t = (if i = 0 \<and> b then TIn else TSpin (ticket_of (unat (lk_val s) div 2 ^ 16) i))"
      using ticket_queue_at [OF sim] by blast
    then have i: "i < length q" "q ! i = t" "\<not> (i = 0 \<and> b)" "k = ticket_of (unat (lk_val s) div 2 ^ 16) i"
      using TSpin by (auto split: if_splits)
    show ?thesis
    proof (cases "serving (lk_val s) = k")
      case True
      let ?k = "unat (lk_val s) div 2 ^ 16"
      have "i < 2 ^ 16" using i(1) ticket_length [OF sim] n by simp
      have "?k = (?k + i) mod 2 ^ 16" using True i(4) by (metis unat_serving unat_ticket_of)
      then have "i = 0" using mod_shift_zero [OF unat_half \<open>i < 2 ^ 16\<close>] by blast
      then obtain q' where q: "q = t # q'" "\<not> b" using i by (cases q) auto
      have "ticket_sim n s' (t # q', True)" using sim True TSpin c q unfolding s'
        by (auto simp: ticket_sim_def ticket_queue_def waiting_def nth_Cons')
      moreover have "fifo_step (t # q', False) (t # q', True)" by (rule fifo_enter)
      ultimately show ?thesis unfolding a using q by auto
    next
      case False
      then have "s' = s" using TSpin c unfolding s' by (auto simp: fun_upd_idem)
      then show ?thesis using sim a by blast
    qed
  next
    case TIn
    then have "waiting (lk_pc s t)" by (simp add: waiting_def)
    then obtain i where "i < length q" "q ! i = t" "lk_pc s t = (if i = 0 \<and> b then TIn else TSpin (ticket_of (unat (lk_val s) div 2 ^ 16) i))"
      using ticket_queue_at [OF sim] by blast
    then have "i < length q" "q ! i = t" "i = 0 \<and> b" using TIn by (auto split: if_splits)
    then obtain q' where q: "q = t # q'" "b" by (cases q) auto
    have "ticket_sim n s' (q', False)" using ticket_sim_leave [of n s t q' v] sim TIn c q unfolding s' by simp
    moreover have "fifo_step (t # q', True) (q', False)" by (rule fifo_leave)
    ultimately show ?thesis unfolding a using q by auto
  next
    case (TTryCas val)
    show ?thesis
    proof (cases "lk_val s = val")
      case True
      have m: "unat (lk_val s) mod 2 ^ 16 = (unat (lk_val s) div 2 ^ 16 + length q) mod 2 ^ 16" "serving val = next_ticket val"
        using sim TTryCas by (auto simp: ticket_sim_def ticket_queue_def)
      have "set q \<subset> {..<n}" using nq [of t] t sim TTryCas by (auto simp: waiting_def ticket_sim_def)
      then have "length q < 2 ^ 16" using psubset_card_mono [of "{..<n}" "set q"] sim n by (auto simp: ticket_sim_def distinct_card)
      moreover have "unat (lk_val s) div 2 ^ 16 = (unat (lk_val s) div 2 ^ 16 + length q) mod 2 ^ 16"
        using m True unat_serving [of val] unat_next [of val] by argo
      ultimately have q: "q = []" using mod_shift_zero [OF unat_half] by blast
      have "ticket_sim n s' (q @ [t], True)" using ticket_sim_join [OF sim _ t, of p True v] TTryCas c True q unat_ticket_ops(2) [of val]
        by (auto simp: s' waiting_def)
      moreover have "b = False" using sim q by (simp add: ticket_sim_def)
      moreover have "fifo_step\<^sup>*\<^sup>* ([], False) ([t], True)"
        using fifo_join [of t "[]" False] fifo_enter [of t "[]"] by (auto intro: rtranclp.rtrancl_into_rtrancl)
      ultimately show ?thesis unfolding a q by auto
    next
      case False
      then show ?thesis using c TTryCas by (intro keep) (auto simp: waiting_def)
    qed
  next
    case TOut
    then show ?thesis using c by (intro keep) (auto simp: waiting_def)
  next
    case TRead
    then show ?thesis using c by (intro keep) (auto simp: waiting_def)
  next
    case TTryRead
    then show ?thesis using c by (intro keep) (auto simp: waiting_def)
  qed
qed

lemma ticket_reach_sim:
  assumes "n \<le> 2 ^ 16" "(ticket_step n)\<^sup>*\<^sup>* ticket_init s"
  shows "\<exists>a. fifo_step\<^sup>*\<^sup>* ([], False) a \<and> ticket_sim n s a"
  using assms(2)
proof (induction rule: rtranclp_induct)
  case base
  have "ticket_sim n ticket_init ([], False)" by (simp add: ticket_sim_def ticket_queue_def ticket_init_def waiting_def)
  then show ?case by blast
next
  case (step s s')
  then show ?case using ticket_sim_step [OF _ assms(1)] by (meson rtranclp_trans)
qed

section \<open>Properties\<close>

text \<open>A run of two threads: the second blocks on the lock the first has taken.\<close>

abbreviation two_threads :: "u32 \<Rightarrow> futex_pc \<Rightarrow> futex_pc \<Rightarrow> futex_pc lock_sys" where
  "two_threads v p q \<equiv> \<lparr>lk_val = v, lk_pc = (\<lambda>_. FOut)(0 := p, 1 := q)\<rparr>"

lemma two_threads_step:
  "(v', p') \<in> set (futex_lock_step p v @ futex_unlock_step p v) \<Longrightarrow> futex_step (two_threads v p q) (two_threads v' p' q)"
  "(v', q') \<in> set (futex_lock_step q v @ futex_unlock_step q v) \<Longrightarrow> futex_step (two_threads v p q) (two_threads v' p q')"
  using futex_local [of v' p' "two_threads v p q" 0] futex_local [of v' q' "two_threads v p q" 1] by (simp_all add: fun_upd_twist)

lemma futex_block: "futex_step\<^sup>*\<^sup>* futex_init (two_threads 1 FIn (FXchg1 FutexNospin))"
proof -
  have i: "futex_init = two_threads 0 FOut FOut" by (simp add: futex_init_def fun_eq_iff)
  have s: "futex_step (two_threads 0 FOut FOut) (two_threads 0 (FTest FutexLock 0) FOut)"
    "futex_step (two_threads 0 (FTest FutexLock 0) FOut) (two_threads 0 (FCas FutexLock 0) FOut)"
    "futex_step (two_threads 0 (FCas FutexLock 0) FOut) (two_threads 1 FIn FOut)"
    "futex_step (two_threads 1 FIn FOut) (two_threads 1 FIn (FTest FutexNospin 0))"
    "futex_step (two_threads 1 FIn (FTest FutexNospin 0)) (two_threads 1 FIn (FXchg1 FutexNospin))"
    by (rule two_threads_step; simp add: futex_retry_def spins_def)+
  show ?thesis unfolding i
    by (rule r_into_rtranclp [of futex_step, OF s(1), THEN rtranclp.rtrancl_into_rtrancl, OF s(2), THEN rtranclp.rtrancl_into_rtrancl, OF s(3), THEN rtranclp.rtrancl_into_rtrancl, OF s(4), THEN rtranclp.rtrancl_into_rtrancl, OF s(5)])
qed

lemma futex_sleeps: "futex_step\<^sup>*\<^sup>* futex_init (two_threads 2 FIn (FAsleep FutexNospin))"
proof -
  have s: "futex_step (two_threads 1 FIn (FXchg1 FutexNospin)) (two_threads 2 FIn (FWait FutexNospin))"
    "futex_step (two_threads 2 FIn (FWait FutexNospin)) (two_threads 2 FIn (FAsleep FutexNospin))"
    by (rule two_threads_step; simp)+
  show ?thesis by (rule futex_block [THEN rtranclp.rtrancl_into_rtrancl, OF s(1), THEN rtranclp.rtrancl_into_rtrancl, OF s(2)])
qed

text \<open>
  C8: The futex excludes: whatever the number of threads and however their calls of \<open>futex_lock\<close>,
  \<open>futex_lock_nospin\<close>, \<open>futex_trylock_nospin_timeout\<close> and \<open>futex_unlock\<close> interleave, sleeping and
  waking included, at most one thread is between taking the lock and giving it up.
\<close>

theorem futex_excludes:
  assumes "futex_step\<^sup>*\<^sup>* futex_init s" "lk_pc s t = FIn" "lk_pc s u = FIn"
  shows "t = u"
  using owned_excl [OF conjunct1 [OF futex_owned [OF assms(1)]]] assms(2,3) by blast

theorem futex_excludes_witness: "\<exists>s. futex_step\<^sup>*\<^sup>* futex_init s \<and> lk_pc s 0 = FIn \<and> (\<nexists>u. u \<noteq> 0 \<and> lk_pc s u = FIn)"
proof -
  let ?s = "two_threads 2 FIn (FAsleep FutexNospin)"
  have "lk_pc ?s 0 = FIn" by simp
  moreover from this have "\<nexists>u. u \<noteq> 0 \<and> lk_pc ?s u = FIn" using futex_excludes [OF futex_sleeps] by blast
  ultimately show ?thesis using futex_sleeps by blast
qed

text \<open>
  C9: No wakeup is lost: in every state the threads can reach, if a thread sleeps in the kernel then
  some thread is inside the critical section, about to store and wake, or awake and about to take the
  lock or mark it contended. The sleepers never wait for each other.
\<close>

theorem futex_no_lost_wakeup:
  assumes "futex_step\<^sup>*\<^sup>* futex_init s" "lk_pc s t = FAsleep m"
  shows "\<exists>u. lk_pc s u \<in> {FIn, FStore, FWake} \<union> range FXchg2"
proof (cases "\<exists>u. will_wake (lk_pc s u)")
  case True
  then obtain u where "will_wake (lk_pc s u)" by blast
  then have "lk_pc s u \<in> {FIn, FStore, FWake} \<union> range FXchg2" by (cases "lk_pc s u") (simp_all add: will_wake_def)
  then show ?thesis by blast
next
  case False
  moreover have "asleep (lk_pc s t)" using assms(2) by (simp add: asleep_def)
  ultimately have "lk_val s = 2" using futex_sleepers [OF assms(1)] unfolding sleepers_ok_def by blast
  then show ?thesis using futex_owned [OF assms(1)] by (auto simp: owned_by_def)
qed

theorem futex_no_lost_wakeup_witness:
  "\<exists>u. lk_pc (two_threads 2 FIn (FAsleep FutexNospin)) u \<in> {FIn, FStore, FWake} \<union> range FXchg2"
  by (rule futex_no_lost_wakeup [OF futex_sleeps, of 1 FutexNospin]) simp



text \<open>
  C27: \<open>futex_haswaiters\<close> can be true without any waiter, although its comment promises that there are
  no false positives: a thread that takes the lock after blocking leaves the contended mark.
\<close>

theorem futex_haswaiters_false_positive:
  "\<exists>s. futex_step\<^sup>*\<^sup>* futex_init s \<and> futex_haswaiters s \<and> (\<forall>t. lk_pc s t = FOut \<or> lk_pc s t = FIn)"
proof -
  have s: "futex_step (two_threads 1 FIn (FXchg1 FutexNospin)) (two_threads 0 FOut (FXchg1 FutexNospin))"
    "futex_step (two_threads 0 FOut (FXchg1 FutexNospin)) (two_threads 2 FOut FIn)"
    by (rule two_threads_step; simp)+
  have "futex_step\<^sup>*\<^sup>* futex_init (two_threads 2 FOut FIn)"
    by (rule futex_block [THEN rtranclp.rtrancl_into_rtrancl, OF s(1), THEN rtranclp.rtrancl_into_rtrancl, OF s(2)])
  then show ?thesis by (intro exI [of _ "two_threads 2 FOut FIn"]) (simp add: futex_haswaiters_def)
qed

end
