(* ===== verification/Multimap.thy ===== *)
theory Multimap
  imports Prelude
begin

text \<open>
  The ordered multimap of the C++ library (\<open>g_multimap\<close>), used by the priority queue, the event queue
  and the scheduler: a list of pairs sorted by key; a new pair goes behind the pairs of the same key.
\<close>

definition mm_insert :: "'k::linorder \<Rightarrow> 'v \<Rightarrow> ('k \<times> 'v) list \<Rightarrow> ('k \<times> 'v) list" where
  "mm_insert k v m = takeWhile (\<lambda>e. fst e \<le> k) m @ (k, v) # dropWhile (\<lambda>e. fst e \<le> k) m"

abbreviation mm_sorted :: "('k::linorder \<times> 'v) list \<Rightarrow> bool" where
  "mm_sorted m \<equiv> sorted (map fst m)"

lemma mm_insert_set [simp]: "set (mm_insert k v m) = insert (k, v) (set m)"
proof -
  have "set m = set (takeWhile (\<lambda>e. fst e \<le> k) m) \<union> set (dropWhile (\<lambda>e. fst e \<le> k) m)"
    by (metis set_append takeWhile_dropWhile_id)
  then show ?thesis by (auto simp: mm_insert_def)
qed

lemma mm_insert_length [simp]: "length (mm_insert k v m) = Suc (length m)"
proof -
  have "length m = length (takeWhile (\<lambda>e. fst e \<le> k) m) + length (dropWhile (\<lambda>e. fst e \<le> k) m)"
    by (metis length_append takeWhile_dropWhile_id)
  then show ?thesis by (simp add: mm_insert_def)
qed

lemma mm_insert_not_Nil [simp]: "mm_insert k v m \<noteq> []"
  by (simp add: mm_insert_def)

lemma dropWhile_sorted_gt: "mm_sorted m \<Longrightarrow> e \<in> set (dropWhile (\<lambda>e. fst e \<le> k) m) \<Longrightarrow> k < fst e"
  by (induction m) (auto split: if_splits)

lemma mm_insert_sorted: "mm_sorted m \<Longrightarrow> mm_sorted (mm_insert k v m)"
proof -
  assume s: "mm_sorted m"
  let ?t = "takeWhile (\<lambda>e. fst e \<le> k) m" and ?d = "dropWhile (\<lambda>e. fst e \<le> k) m"
  have "mm_sorted (?t @ ?d)" using s by simp
  then have "mm_sorted ?t" "mm_sorted ?d" by (simp_all add: sorted_append del: takeWhile_dropWhile_id)
  moreover have "\<forall>e\<in>set ?t. fst e \<le> k" by (auto dest: set_takeWhileD)
  moreover have "\<forall>e\<in>set ?d. k < fst e" using dropWhile_sorted_gt [OF s] by blast
  ultimately show ?thesis by (fastforce simp: mm_insert_def sorted_append)
qed

lemma mm_insert_distinct: "(k, v) \<notin> set m \<Longrightarrow> distinct m \<Longrightarrow> distinct (mm_insert k v m)"
proof -
  assume a: "(k, v) \<notin> set m" "distinct m"
  let ?t = "takeWhile (\<lambda>e. fst e \<le> k) m" and ?d = "dropWhile (\<lambda>e. fst e \<le> k) m"
  have m: "m = ?t @ ?d" by simp
  then have "distinct (?t @ ?d)" "(k, v) \<notin> set (?t @ ?d)" using a by metis+
  then show ?thesis by (auto simp: mm_insert_def simp del: takeWhile_dropWhile_id)
qed

lemma mm_insert_values: "distinct (map snd m) \<Longrightarrow> v \<notin> snd ` set m \<Longrightarrow> distinct (map snd (mm_insert k v m))"
proof -
  assume a: "distinct (map snd m)" "v \<notin> snd ` set m"
  let ?t = "takeWhile (\<lambda>e. fst e \<le> k) m" and ?d = "dropWhile (\<lambda>e. fst e \<le> k) m"
  have m: "m = ?t @ ?d" by simp
  then have "distinct (map snd (?t @ ?d))" "v \<notin> snd ` set (?t @ ?d)" using a by metis+
  then show ?thesis by (auto simp: mm_insert_def simp del: takeWhile_dropWhile_id)
qed

end
