(* ===== verification/Prio_Queue.thy ===== *)
theory Prio_Queue
  imports Multimap "HOL-Library.Multiset"
begin

text \<open>
  \<open>PrioQueue\<close> of src/src/prio_queue.h, the event queue of a contention-simulation domain: a calendar
  of \<open>B\<close> blocks of 64 cycles, each cycle with an intrusive list of objects, and a multimap for the
  objects beyond the calendar. Objects are numbers; the \<open>next\<close> pointers they carry are part of the
  state. Cycles are unbounded.
\<close>

section \<open>Blocks\<close>

definition builtin_ctzl :: "u64 \<Rightarrow> nat" where
  "builtin_ctzl x = length (takeWhile (\<lambda>i. \<not> bit x i) [0..<64])"

record PQBlock =
  pb_array :: "nat \<Rightarrow> nat option"
  pb_occ :: u64

type_synonym nexts = "nat \<Rightarrow> nat option"

definition pb_new :: PQBlock where
  "pb_new = \<lparr>pb_array = (\<lambda>_. None), pb_occ = 0\<rparr>"

definition pb_dequeue :: "PQBlock \<Rightarrow> nexts \<Rightarrow> ((nat \<times> nat) \<times> PQBlock \<times> nexts) option" where
  "pb_dequeue b nx = do {
     assert_that (pb_occ b \<noteq> 0);
     let pos = builtin_ctzl (pb_occ b);
     res \<leftarrow> pb_array b pos;
     let nxt = nx res;
     Some ((res, pos), b\<lparr>pb_array := (pb_array b)(pos := nxt),
        pb_occ := if nxt = None then pb_occ b XOR push_bit pos 1 else pb_occ b\<rparr>, nx(res := None))
   }"

definition pb_enqueue :: "nat \<Rightarrow> nat \<Rightarrow> PQBlock \<Rightarrow> nexts \<Rightarrow> (PQBlock \<times> nexts) option" where
  "pb_enqueue obj pos b nx = do {
     assert_that (nx obj = None);
     Some (b\<lparr>pb_array := (pb_array b)(pos := Some obj), pb_occ := pb_occ b OR push_bit pos 1\<rparr>, nx(obj := pb_array b pos))
   }"

section \<open>The queue\<close>

record PrioQueue =
  pq_blocks :: "nat \<Rightarrow> PQBlock"
  pq_feMap :: "(nat \<times> nat) list"
  pq_curBlock :: nat
  pq_elems :: nat
  pq_next :: nexts

definition pq_new :: PrioQueue where
  "pq_new = \<lparr>pq_blocks = (\<lambda>_. pb_new), pq_feMap = [], pq_curBlock = 0, pq_elems = 0, pq_next = (\<lambda>_. None)\<rparr>"

text \<open>An object goes to the block and offset of its cycle.\<close>

definition pq_place :: "nat \<Rightarrow> nat \<Rightarrow> nat \<Rightarrow> PrioQueue \<Rightarrow> PrioQueue option" where
  "pq_place B obj cycle q = do {
     let i = cycle div 64 mod B;
     (b, nx) \<leftarrow> pb_enqueue obj (cycle mod 64) (pq_blocks q i) (pq_next q);
     Some (q\<lparr>pq_blocks := (pq_blocks q)(i := b), pq_next := nx\<rparr>)
   }"

definition pq_enqueue :: "nat \<Rightarrow> nat \<Rightarrow> nat \<Rightarrow> PrioQueue \<Rightarrow> PrioQueue option" where
  "pq_enqueue B obj cycle q = do {
     let absBlock = cycle div 64;
     assert_that (absBlock \<ge> pq_curBlock q);
     q' \<leftarrow> (if absBlock < pq_curBlock q + B then pq_place B obj cycle q
            else Some (q\<lparr>pq_feMap := mm_insert cycle obj (pq_feMap q)\<rparr>));
     Some (q'\<lparr>pq_elems := pq_elems q' + 1\<rparr>)
   }"

text \<open>The far objects that now fit in the calendar move there.\<close>

fun pq_move :: "nat \<Rightarrow> nat \<Rightarrow> (nat \<times> nat) list \<Rightarrow> PrioQueue \<Rightarrow> PrioQueue option" where
  "pq_move B topCycle [] q = Some (q\<lparr>pq_feMap := []\<rparr>)"
| "pq_move B topCycle ((cycle, obj) # fe) q =
     (if cycle < topCycle then do {
        let absBlock = cycle div 64;
        assert_that (absBlock \<ge> pq_curBlock q);
        assert_that (absBlock < pq_curBlock q + B);
        q' \<leftarrow> pq_place B obj cycle q;
        pq_move B topCycle fe q'
      }
      else Some (q\<lparr>pq_feMap := (cycle, obj) # fe\<rparr>))"

definition pq_turn :: "nat \<Rightarrow> PrioQueue \<Rightarrow> PrioQueue option" where
  "pq_turn B q = do {
     let q1 = q\<lparr>pq_curBlock := pq_curBlock q + 1\<rparr>;
     if pq_curBlock q1 mod (B div 2) = 0 \<and> pq_feMap q1 \<noteq> [] then pq_move B ((pq_curBlock q1 + B) * 64) (pq_feMap q1) q1
     else Some q1
   }"

partial_function (option) pq_advance :: "nat \<Rightarrow> PrioQueue \<Rightarrow> PrioQueue option" where
  "pq_advance B q =
     (if pb_occ (pq_blocks q (pq_curBlock q mod B)) \<noteq> 0 then Some q
      else Option.bind (pq_turn B q) (pq_advance B))"

definition pq_dequeue :: "nat \<Rightarrow> PrioQueue \<Rightarrow> ((nat \<times> nat) \<times> PrioQueue) option" where
  "pq_dequeue B q = do {
     assert_that (pq_elems q \<noteq> 0);
     q1 \<leftarrow> pq_advance B q;
     let i = pq_curBlock q1 mod B;
     ((obj, offset), b, nx) \<leftarrow> pb_dequeue (pq_blocks q1 i) (pq_next q1);
     Some ((obj, pq_curBlock q1 * 64 + offset),
       q1\<lparr>pq_blocks := (pq_blocks q1)(i := b), pq_next := nx, pq_elems := pq_elems q1 - 1\<rparr>)
   }"

definition pq_size :: "PrioQueue \<Rightarrow> nat" where
  "pq_size q = pq_elems q"

definition pq_firstCycle :: "nat \<Rightarrow> PrioQueue \<Rightarrow> nat option" where
  "pq_firstCycle B q = do {
     assert_that (pq_elems q \<noteq> 0);
     let occ = (\<lambda>i. pb_occ (pq_blocks q ((pq_curBlock q + i) mod B)));
     case List.find (\<lambda>i. occ i \<noteq> 0) [0..<B div 2] of
       Some i \<Rightarrow> Some ((pq_curBlock q + i) * 64 + builtin_ctzl (occ i))
     | None \<Rightarrow> (case List.find (\<lambda>i. occ i \<noteq> 0) [B div 2..<B] of
         Some i \<Rightarrow> (let cycle = (pq_curBlock q + i) * 64 + builtin_ctzl (occ i)
                    in Some (if pq_feMap q = [] then cycle else min cycle (fst (hd (pq_feMap q)))))
       | None \<Rightarrow> (if pq_feMap q = [] then None else Some (fst (hd (pq_feMap q)))))
   }"

section \<open>Intrusive lists\<close>

fun chain :: "nexts \<Rightarrow> nat option \<Rightarrow> nat list \<Rightarrow> bool" where
  "chain nx p [] \<longleftrightarrow> p = None"
| "chain nx p (x # xs) \<longleftrightarrow> p = Some x \<and> chain nx (nx x) xs"

lemma chain_frame [simp]: "x \<notin> set xs \<Longrightarrow> chain (nx(x := v)) p xs = chain nx p xs"
  by (induction xs arbitrary: p) auto

lemma chain_empty: "chain nx p xs \<Longrightarrow> p = None \<longleftrightarrow> xs = []"
  by (cases xs) auto

lemma ctzl_least:
  assumes "x \<noteq> 0"
  shows "bit x (builtin_ctzl x)" "i < builtin_ctzl x \<Longrightarrow> \<not> bit x i" "builtin_ctzl x < 64"
proof -
  let ?t = "takeWhile (\<lambda>i. \<not> bit x i) [0..<64]"
  obtain j where j: "bit x j" using assms by (metis bit_word_eqI bit_0_eq bot_apply bot_bool_def)
  then have "j < 64" using bit_imp_le_length by fastforce
  then have "?t \<noteq> [0..<64]" using j by (auto simp: takeWhile_eq_all_conv)
  then have l: "length ?t < length [0..<64]" by (metis length_takeWhile_le order_le_neq_trans takeWhile_eq_take take_all)
  then show "builtin_ctzl x < 64" by (simp add: builtin_ctzl_def)
  show "bit x (builtin_ctzl x)" using nth_length_takeWhile [OF l] l by (simp add: builtin_ctzl_def)
  show "\<not> bit x i" if i: "i < builtin_ctzl x"
  proof -
    have "?t ! i \<in> set ?t" using i by (intro nth_mem) (simp add: builtin_ctzl_def)
    moreover have "?t ! i = i" using i l by (simp add: builtin_ctzl_def takeWhile_nth)
    ultimately show ?thesis by (metis set_takeWhileD)
  qed
qed

section \<open>The calendar\<close>

text \<open>
  The queue holds the objects of the lists \<open>L c\<close>, one list for every cycle of the window of \<open>B\<close>
  blocks, and the far objects. Far objects are beyond every block that the queue can reach before it
  looks at them again, which it does at the multiples of \<open>B div 2\<close>.
\<close>

definition in_window :: "nat \<Rightarrow> nat \<Rightarrow> nat \<Rightarrow> bool" where
  "in_window B cur c \<longleftrightarrow> cur \<le> c div 64 \<and> c div 64 < cur + B"

definition slots_ok :: "nat \<Rightarrow> PrioQueue \<Rightarrow> (nat \<Rightarrow> nat list) \<Rightarrow> bool" where
  "slots_ok B q L \<longleftrightarrow> (\<forall>c. in_window B (pq_curBlock q) c \<longrightarrow>
     (let b = pq_blocks q (c div 64 mod B) in chain (pq_next q) (pb_array b (c mod 64)) (L c) \<and> (bit (pb_occ b) (c mod 64) \<longleftrightarrow> L c \<noteq> [])))"

definition lists_ok :: "nat \<Rightarrow> PrioQueue \<Rightarrow> (nat \<Rightarrow> nat list) \<Rightarrow> bool" where
  "lists_ok B q L \<longleftrightarrow> (\<forall>c. \<not> in_window B (pq_curBlock q) c \<longrightarrow> L c = []) \<and> (\<forall>c. distinct (L c)) \<and>
     (\<forall>c c' x. x \<in> set (L c) \<longrightarrow> x \<in> set (L c') \<longrightarrow> c = c') \<and> (\<forall>x. (\<forall>c. x \<notin> set (L c)) \<longrightarrow> pq_next q x = None)"

definition last_look :: "nat \<Rightarrow> nat \<Rightarrow> nat" where
  "last_look B cur = cur - cur mod (B div 2)"

definition far_ok :: "nat \<Rightarrow> nat \<Rightarrow> (nat \<Rightarrow> nat list) \<Rightarrow> (nat \<times> nat) list \<Rightarrow> bool" where
  "far_ok B cur L fe \<longleftrightarrow> mm_sorted fe \<and> distinct (map snd fe) \<and>
     (\<forall>c x. (c, x) \<in> set fe \<longrightarrow> last_look B cur + B \<le> c div 64 \<and> (\<forall>c'. x \<notin> set (L c')))"

definition holds :: "(nat \<Rightarrow> nat list) \<Rightarrow> (nat \<times> nat) list \<Rightarrow> (nat \<rightharpoonup> nat) \<Rightarrow> bool" where
  "holds L fe m \<longleftrightarrow> (\<forall>x c. m x = Some c \<longleftrightarrow> x \<in> set (L c) \<or> (c, x) \<in> set fe)"

text \<open>The queue holds exactly the objects of \<open>m\<close>, each with its cycle.\<close>

definition pq_holds :: "nat \<Rightarrow> PrioQueue \<Rightarrow> (nat \<rightharpoonup> nat) \<Rightarrow> bool" where
  "pq_holds B q m \<longleftrightarrow> (\<exists>L. slots_ok B q L \<and> lists_ok B q L \<and> far_ok B (pq_curBlock q) L (pq_feMap q) \<and> holds L (pq_feMap q) m) \<and>
     finite (dom m) \<and> pq_elems q = card (dom m)"

lemma slots_lists_frame [simp]:
  "slots_ok B (q\<lparr>pq_elems := n\<rparr>) L = slots_ok B q L" "slots_ok B (q\<lparr>pq_feMap := fe\<rparr>) L = slots_ok B q L"
  "lists_ok B (q\<lparr>pq_elems := n\<rparr>) L = lists_ok B q L" "lists_ok B (q\<lparr>pq_feMap := fe\<rparr>) L = lists_ok B q L"
  by (simp_all add: slots_ok_def lists_ok_def)

lemma pq_holdsI:
  "slots_ok B q L \<Longrightarrow> lists_ok B q L \<Longrightarrow> far_ok B (pq_curBlock q) L (pq_feMap q) \<Longrightarrow> holds L (pq_feMap q) m \<Longrightarrow>
   finite (dom m) \<Longrightarrow> pq_elems q = card (dom m) \<Longrightarrow> pq_holds B q m"
  unfolding pq_holds_def by blast

lemma window_unique:
  assumes "in_window B cur c" "in_window B cur c'" "c div 64 mod B = c' div 64 mod B" "c mod 64 = c' mod 64"
  shows "c = c'"
proof -
  have e: "a = b" if h: "cur \<le> a" "a < cur + B" "cur \<le> b" "b < cur + B" "a mod B = b mod B" "a \<le> b" for a b
  proof -
    have "B dvd b - a" using h(5,6) by (metis mod_eq_dvd_iff_nat)
    moreover have "b - a < B" using h by simp
    ultimately show ?thesis using h(6) by (auto dest: dvd_imp_le)
  qed
  have "c div 64 = c' div 64"
    using e [of "c div 64" "c' div 64"] e [of "c' div 64" "c div 64"] assms
    by (cases "c div 64 \<le> c' div 64") (auto simp: in_window_def)
  then show ?thesis using assms(4) by (metis div_mult_mod_eq)
qed

lemma last_look_less: "2 \<le> B \<Longrightarrow> cur + B div 2 < last_look B cur + B"
proof -
  assume "2 \<le> B"
  then have "cur mod (B div 2) < B div 2" "cur mod (B div 2) \<le> cur" "B div 2 + B div 2 \<le> B" by auto
  then show ?thesis unfolding last_look_def by linarith
qed

lemma place_ok:
  assumes "slots_ok B q L" "lists_ok B q L" "in_window B (pq_curBlock q) c" "\<forall>c'. x \<notin> set (L c')"
  obtains q' where "pq_place B x c q = Some q'" "slots_ok B q' (L(c := x # L c))" "lists_ok B q' (L(c := x # L c))"
    "pq_curBlock q' = pq_curBlock q" "pq_feMap q' = pq_feMap q" "pq_elems q' = pq_elems q"
proof -
  let ?i = "c div 64 mod B" and ?L = "L(c := x # L c)"
  let ?b = "(pq_blocks q ?i)\<lparr>pb_array := (pb_array (pq_blocks q ?i))(c mod 64 := Some x),
    pb_occ := pb_occ (pq_blocks q ?i) OR push_bit (c mod 64) 1\<rparr>"
  let ?q = "q\<lparr>pq_blocks := (pq_blocks q)(?i := ?b), pq_next := (pq_next q)(x := pb_array (pq_blocks q ?i) (c mod 64))\<rparr>"
  have "pq_next q x = None" using assms(2,4) by (simp add: lists_ok_def)
  then have p: "pq_place B x c q = Some ?q" by (simp add: pq_place_def pb_enqueue_def Let_def)
  have "let b = pq_blocks ?q (d div 64 mod B) in chain (pq_next ?q) (pb_array b (d mod 64)) (?L d) \<and> (bit (pb_occ b) (d mod 64) \<longleftrightarrow> ?L d \<noteq> [])"
    if d: "in_window B (pq_curBlock q) d" for d
  proof (cases "d = c")
    case True
    then show ?thesis using assms(1,4) d by (auto simp: slots_ok_def Let_def bit_simps)
  next
    case False
    have o: "chain (pq_next q) (pb_array (pq_blocks q (d div 64 mod B)) (d mod 64)) (L d)"
      "bit (pb_occ (pq_blocks q (d div 64 mod B))) (d mod 64) \<longleftrightarrow> L d \<noteq> []"
      using assms(1) d by (auto simp: slots_ok_def Let_def)
    have "d div 64 mod B = ?i \<Longrightarrow> d mod 64 \<noteq> c mod 64" using window_unique [OF d assms(3)] False by blast
    then show ?thesis using o assms(4) False by (auto simp: Let_def bit_simps)
  qed
  then have s: "slots_ok B ?q ?L" by (simp add: slots_ok_def)
  have "lists_ok B ?q ?L" using assms(2-4) unfolding lists_ok_def by auto
  then show ?thesis using that [OF p s] by simp
qed

text \<open>The enqueued object joins; the far objects that fit move to the calendar.\<close>

lemma holds_none: "holds L fe m \<Longrightarrow> m x = None \<Longrightarrow> x \<notin> set (L c) \<and> (c, x) \<notin> set fe"
  unfolding holds_def by (metis option.distinct(1))

lemma holds_place:
  assumes "holds L fe m" "m x = None"
  shows "holds (L(c := x # L c)) fe (m(x \<mapsto> c))"
proof -
  have "(m(x \<mapsto> c)) y = Some d \<longleftrightarrow> y \<in> set ((L(c := x # L c)) d) \<or> (d, y) \<in> set fe" for y d
    using assms(1) holds_none [OF assms, of d] by (cases "y = x") (auto simp: holds_def)
  then show ?thesis by (simp add: holds_def)
qed

lemma holds_far:
  assumes "holds L fe m" "m x = None"
  shows "holds L (mm_insert c x fe) (m(x \<mapsto> c))"
proof -
  have "(m(x \<mapsto> c)) y = Some d \<longleftrightarrow> y \<in> set (L d) \<or> (d, y) \<in> set (mm_insert c x fe)" for y d
    using assms(1) holds_none [OF assms, of d] by (cases "y = x") (auto simp: holds_def)
  then show ?thesis by (simp add: holds_def)
qed

lemma far_place:
  assumes "far_ok B cur L fe" "x \<notin> snd ` set fe"
  shows "far_ok B cur (L(c := x # L c)) fe"
  using assms unfolding far_ok_def by force

lemma move_ok:
  assumes "slots_ok B q L" "lists_ok B q L" "far_ok B cur L fe" "holds L fe m"
    and "\<forall>c x. (c, x) \<in> set fe \<longrightarrow> pq_curBlock q \<le> c div 64" and "topc = (pq_curBlock q + B) * 64"
  shows "\<exists>q' L'. pq_move B topc fe q = Some q' \<and> slots_ok B q' L' \<and> lists_ok B q' L' \<and> holds L' (pq_feMap q') m \<and>
    pq_curBlock q' = pq_curBlock q \<and> pq_elems q' = pq_elems q \<and> far_ok B cur L' (pq_feMap q') \<and>
    (\<forall>c x. (c, x) \<in> set (pq_feMap q') \<longrightarrow> topc \<le> c)"
  using assms
proof (induction fe arbitrary: q L)
  case Nil
  then show ?case by (intro exI [of _ "q\<lparr>pq_feMap := []\<rparr>"] exI [of _ L]) (simp add: slots_ok_def lists_ok_def)
next
  case (Cons e fe)
  obtain c x where e: "e = (c, x)" by (cases e)
  show ?case
  proof (cases "c < topc")
    case True
    have w: "in_window B (pq_curBlock q) c" using True Cons.prems(5,6) e by (auto simp: in_window_def)
    have x: "\<forall>c'. x \<notin> set (L c')" "x \<notin> snd ` set fe" using Cons.prems(3) e by (auto simp: far_ok_def)
    obtain q' where q': "pq_place B x c q = Some q'" "slots_ok B q' (L(c := x # L c))" "lists_ok B q' (L(c := x # L c))"
      "pq_curBlock q' = pq_curBlock q" "pq_feMap q' = pq_feMap q" "pq_elems q' = pq_elems q"
      using place_ok [OF Cons.prems(1,2) w x(1)] .
    have "far_ok B cur L fe" using Cons.prems(3) by (auto simp: far_ok_def)
    then have f: "far_ok B cur (L(c := x # L c)) fe" using far_place x(2) by blast
    have h: "holds (L(c := x # L c)) fe m" using Cons.prems(4) e unfolding holds_def by auto
    have n: "\<forall>c x. (c, x) \<in> set fe \<longrightarrow> pq_curBlock q' \<le> c div 64" "topc = (pq_curBlock q' + B) * 64"
      using Cons.prems(5,6) q'(4) by simp_all
    have m: "pq_move B topc (e # fe) q = pq_move B topc fe q'" using True q'(1) w e by (simp add: in_window_def Let_def)
    show ?thesis unfolding m using Cons.IH [OF q'(2,3) f h n] unfolding q'(4,6) .
  next
    case False
    let ?q = "q\<lparr>pq_feMap := e # fe\<rparr>"
    have "\<forall>c' x'. (c', x') \<in> set (e # fe) \<longrightarrow> topc \<le> c'" using False Cons.prems(3) e by (force simp: far_ok_def)
    moreover have "pq_move B topc (e # fe) q = Some ?q" using False e by simp
    ultimately show ?thesis using Cons.prems by (intro exI [of _ ?q] exI [of _ L]) (simp add: slots_ok_def lists_ok_def)
  qed
qed

text \<open>A block without objects is left behind; its slots serve the new end of the window.\<close>

lemma turn_ok:
  assumes B: "2 \<le> B" and h: "pq_holds B q m" and e: "pb_occ (pq_blocks q (pq_curBlock q mod B)) = 0"
  shows "\<exists>q'. pq_turn B q = Some q' \<and> pq_holds B q' m \<and> pq_curBlock q' = pq_curBlock q + 1"
proof -
  let ?cur = "pq_curBlock q" and ?q = "q\<lparr>pq_curBlock := pq_curBlock q + 1\<rparr>"
  obtain L where L: "slots_ok B q L" "lists_ok B q L" "far_ok B ?cur L (pq_feMap q)" "holds L (pq_feMap q) m"
    using h by (auto simp: pq_holds_def)
  have empty: "L c = []" "c mod 64 = d mod 64 \<Longrightarrow> pb_array (pq_blocks q (?cur mod B)) (d mod 64) = None" if c: "c div 64 = ?cur" for c d
  proof -
    have w: "in_window B ?cur c" using c B by (simp add: in_window_def)
    then show "L c = []" using L(1) c e by (auto simp: slots_ok_def Let_def)
    then show "pb_array (pq_blocks q (?cur mod B)) (d mod 64) = None" if "c mod 64 = d mod 64"
      using L(1) w c that by (auto simp: slots_ok_def Let_def)
  qed
  have "let b = pq_blocks q (c div 64 mod B) in chain (pq_next q) (pb_array b (c mod 64)) (L c) \<and> (bit (pb_occ b) (c mod 64) \<longleftrightarrow> L c \<noteq> [])"
    if w: "in_window B (?cur + 1) c" for c
  proof (cases "in_window B ?cur c")
    case True
    then show ?thesis using L(1) by (simp add: slots_ok_def)
  next
    case False
    then have c: "c div 64 = ?cur + B" using w by (auto simp: in_window_def)
    then have "c div 64 mod B = ?cur mod B" by simp
    moreover have "L c = []" using L(2) False by (simp add: lists_ok_def)
    moreover have "pb_array (pq_blocks q (?cur mod B)) (c mod 64) = None"
      using empty(2) [of "?cur * 64 + c mod 64" c] by simp
    ultimately show ?thesis using e by simp
  qed
  then have s: "slots_ok B ?q L" by (simp add: slots_ok_def)
  have "\<not> in_window B (?cur + 1) c \<Longrightarrow> L c = []" for c
    using L(2) empty(1) [of c] by (cases "in_window B ?cur c") (auto simp: lists_ok_def in_window_def)
  then have l: "lists_ok B ?q L" using L(2) by (simp add: lists_ok_def)
  have far: "?cur + 1 \<le> c div 64" if "(c, x) \<in> set (pq_feMap q)" for c x
    using L(3) last_look_less [OF B, of ?cur] that by (fastforce simp: far_ok_def)
  show ?thesis
  proof (cases "(?cur + 1) mod (B div 2) = 0 \<and> pq_feMap q \<noteq> []")
    case True
    obtain q' L' where q': "pq_move B ((pq_curBlock ?q + B) * 64) (pq_feMap q) ?q = Some q'" "slots_ok B q' L'" "lists_ok B q' L'"
      "holds L' (pq_feMap q') m" "pq_curBlock q' = pq_curBlock ?q" "pq_elems q' = pq_elems ?q" "far_ok B ?cur L' (pq_feMap q')"
      "\<forall>c x. (c, x) \<in> set (pq_feMap q') \<longrightarrow> (pq_curBlock ?q + B) * 64 \<le> c"
      using move_ok [OF s l L(3,4) _ refl] far by auto
    have "last_look B (?cur + 1) = ?cur + 1" using True by (simp add: last_look_def)
    then have "far_ok B (pq_curBlock q') L' (pq_feMap q')"
      using q'(5,7,8) by (fastforce simp: far_ok_def less_eq_div_iff_mult_less_eq)
    then show ?thesis using q' h True by (auto simp: pq_turn_def pq_holds_def Let_def)
  next
    case False
    have ll: "last_look B (?cur + 1) = last_look B ?cur" if "(?cur + 1) mod (B div 2) \<noteq> 0"
      using that by (simp add: last_look_def mod_Suc split: if_splits)
    then have "far_ok B (?cur + 1) L (pq_feMap q)" using L(3) False by (auto simp: far_ok_def)
    then show ?thesis using s l L(4) h False by (auto simp: pq_turn_def pq_holds_def Let_def)
  qed
qed

lemma occ_block:
  assumes "slots_ok B q L" "in_window B (pq_curBlock q) (a * 64)" "pb_occ (pq_blocks q (a mod B)) \<noteq> 0"
  defines "c \<equiv> a * 64 + builtin_ctzl (pb_occ (pq_blocks q (a mod B)))"
  shows "L c \<noteq> []" "in_window B (pq_curBlock q) c" "c div 64 = a" "c mod 64 = builtin_ctzl (pb_occ (pq_blocks q (a mod B)))"
    "d div 64 = a \<Longrightarrow> L d \<noteq> [] \<Longrightarrow> c \<le> d"
proof -
  note z = ctzl_least [OF assms(3)]
  show d: "c div 64 = a" and m: "c mod 64 = builtin_ctzl (pb_occ (pq_blocks q (a mod B)))" using z(3) by (simp_all add: c_def)
  show w: "in_window B (pq_curBlock q) c" using assms(2) d by (simp add: in_window_def)
  then show "L c \<noteq> []" using assms(1) z(1) d m by (auto simp: slots_ok_def Let_def)
  show "c \<le> d" if "d div 64 = a" "L d \<noteq> []"
  proof -
    have "in_window B (pq_curBlock q) d" using assms(2) that(1) by (simp add: in_window_def)
    then have "bit (pb_occ (pq_blocks q (a mod B))) (d mod 64)" using assms(1) that by (auto simp: slots_ok_def Let_def)
    then have "c mod 64 \<le> d mod 64" using z(2) m by (metis not_less)
    then show ?thesis using that(1) d div_mult_mod_eq [of c 64] div_mult_mod_eq [of d 64] by linarith
  qed
qed

text \<open>The loop of \<open>dequeue\<close> ends at the first block with an object.\<close>

lemma advance_ok:
  assumes B: "2 \<le> B" and h: "pq_holds B q m" and x: "m x = Some c"
  shows "\<exists>q'. pq_advance B q = Some q' \<and> pq_holds B q' m \<and> pq_curBlock q \<le> pq_curBlock q' \<and>
    pb_occ (pq_blocks q' (pq_curBlock q' mod B)) \<noteq> 0"
  using h
proof (induction "c div 64 - pq_curBlock q" arbitrary: q rule: less_induct)
  case less
  show ?case
  proof (cases "pb_occ (pq_blocks q (pq_curBlock q mod B)) = 0")
    case True
    obtain q1 where q1: "pq_turn B q = Some q1" "pq_holds B q1 m" "pq_curBlock q1 = pq_curBlock q + 1"
      using turn_ok [OF B less.prems True] by blast
    obtain L where L: "slots_ok B q L" "lists_ok B q L" "far_ok B (pq_curBlock q) L (pq_feMap q)" "holds L (pq_feMap q) m"
      using less.prems by (auto simp: pq_holds_def)
    have "pq_curBlock q < c div 64"
    proof (cases "x \<in> set (L c)")
      case mem: True
      then have w: "in_window B (pq_curBlock q) c" using L(2) by (fastforce simp: lists_ok_def)
      then have "pq_curBlock q \<noteq> c div 64" using L(1) mem True by (fastforce simp: slots_ok_def Let_def)
      then show ?thesis using w by (simp add: in_window_def)
    next
      case False
      then have "(c, x) \<in> set (pq_feMap q)" using L(4) x by (auto simp: holds_def)
      then show ?thesis using L(3) last_look_less [OF B, of "pq_curBlock q"] by (fastforce simp: far_ok_def)
    qed
    then have "c div 64 - pq_curBlock q1 < c div 64 - pq_curBlock q" using q1(3) by simp
    then obtain q' where q': "pq_advance B q1 = Some q'" "pq_holds B q' m" "pq_curBlock q1 \<le> pq_curBlock q'"
      "pb_occ (pq_blocks q' (pq_curBlock q' mod B)) \<noteq> 0"
      using less.hyps [OF _ q1(2)] by blast
    moreover have "pq_advance B q = pq_advance B q1" using True q1(1) by (simp add: pq_advance.simps [of B q])
    ultimately show ?thesis using q1(3) by auto
  next
    case False
    then have "pq_advance B q = Some q" by (simp add: pq_advance.simps)
    then show ?thesis using less.prems False by blast
  qed
qed

text \<open>The refinement of the two operations.\<close>

lemma pq_new_holds: "pq_holds B pq_new Map.empty"
  by (auto simp: pq_holds_def pq_new_def slots_ok_def lists_ok_def far_ok_def holds_def pb_new_def intro!: exI [of _ "\<lambda>_. []"])

lemma enqueue_ok:
  assumes h: "pq_holds B q m" and x: "m x = None" and c: "pq_curBlock q \<le> c div 64"
  shows "\<exists>q'. pq_enqueue B x c q = Some q' \<and> pq_holds B q' (m(x \<mapsto> c)) \<and> pq_curBlock q' = pq_curBlock q"
proof -
  obtain L where L: "slots_ok B q L" "lists_ok B q L" "far_ok B (pq_curBlock q) L (pq_feMap q)" "holds L (pq_feMap q) m"
    and d: "finite (dom m)" "pq_elems q = card (dom m)"
    using h by (auto simp: pq_holds_def)
  have n: "\<forall>c'. x \<notin> set (L c')" "x \<notin> snd ` set (pq_feMap q)" using holds_none [OF L(4) x] by auto
  have card: "card (dom (m(x \<mapsto> c))) = card (dom m) + 1" using d(1) x by (simp add: domIff)
  show ?thesis
  proof (cases "c div 64 < pq_curBlock q + B")
    case True
    then have "in_window B (pq_curBlock q) c" using c by (simp add: in_window_def)
    then obtain q' where q': "pq_place B x c q = Some q'" "slots_ok B q' (L(c := x # L c))" "lists_ok B q' (L(c := x # L c))"
      "pq_curBlock q' = pq_curBlock q" "pq_feMap q' = pq_feMap q" "pq_elems q' = pq_elems q"
      using place_ok [OF L(1,2) _ n(1)] by blast
    let ?q = "q'\<lparr>pq_elems := pq_elems q' + 1\<rparr>"
    have "pq_holds B ?q (m(x \<mapsto> c))"
      by (rule pq_holdsI [where L = "L(c := x # L c)"])
        (use q' d card far_place [OF L(3) n(2), of c] holds_place [OF L(4) x, of c] in simp_all)
    moreover have "pq_enqueue B x c q = Some ?q" using True c q'(1) by (simp add: pq_enqueue_def)
    ultimately show ?thesis using q'(4) by simp
  next
    case False
    let ?q = "q\<lparr>pq_feMap := mm_insert c x (pq_feMap q), pq_elems := pq_elems q + 1\<rparr>"
    have "last_look B (pq_curBlock q) \<le> pq_curBlock q" by (simp add: last_look_def)
    then have "far_ok B (pq_curBlock q) L (mm_insert c x (pq_feMap q))"
      using L(3) n False mm_insert_sorted mm_insert_values [of "pq_feMap q" x c] by (auto simp: far_ok_def)
    moreover have "holds L (mm_insert c x (pq_feMap q)) (m(x \<mapsto> c))"
      using holds_far [OF L(4) x] .
    ultimately have "pq_holds B ?q (m(x \<mapsto> c))"
      by (intro pq_holdsI [where L = L]) (use L d card in simp_all)
    moreover have "pq_enqueue B x c q = Some ?q" using False c by (simp add: pq_enqueue_def)
    ultimately show ?thesis by simp
  qed
qed

lemma dequeue_ok:
  assumes B: "2 \<le> B" and h: "pq_holds B q m" and ne: "m \<noteq> Map.empty"
  shows "\<exists>x c q'. pq_dequeue B q = Some ((x, c), q') \<and> m x = Some c \<and> (\<forall>y d. m y = Some d \<longrightarrow> c \<le> d) \<and>
    pq_holds B q' (m(x := None)) \<and> pq_curBlock q' = c div 64 \<and> pq_curBlock q \<le> pq_curBlock q'"
proof -
  obtain y d where "m y = Some d" using ne by (metis not_None_eq ext)
  then obtain q1 where q1: "pq_advance B q = Some q1" "pq_holds B q1 m" "pq_curBlock q \<le> pq_curBlock q1"
    "pb_occ (pq_blocks q1 (pq_curBlock q1 mod B)) \<noteq> 0"
    using advance_ok [OF B h] by blast
  let ?cur = "pq_curBlock q1" and ?fe = "pq_feMap q1" and ?nx = "pq_next q1"
  let ?i = "?cur mod B" and ?b = "pq_blocks q1 (?cur mod B)"
  obtain L where L: "slots_ok B q1 L" "lists_ok B q1 L" "far_ok B ?cur L ?fe" "holds L ?fe m"
    and d: "finite (dom m)" "pq_elems q1 = card (dom m)"
    using q1(2) by (auto simp: pq_holds_def)
  have w: "in_window B ?cur (?cur * 64)" using B by (simp add: in_window_def)
  define pos where "pos = builtin_ctzl (pb_occ ?b)"
  define c where "c = ?cur * 64 + pos"
  note o = occ_block [OF L(1) w q1(4), folded pos_def, folded c_def]
  obtain x xs where x: "L c = x # xs" using o(1) by (cases "L c") auto
  have m: "m x = Some c" using L(4) x by (simp add: holds_def)
  have ch: "pb_array ?b pos = Some x" "chain ?nx (?nx x) xs" "x \<notin> set xs"
    using L(1,2) o(2-4) x by (auto simp: slots_ok_def lists_ok_def Let_def dest!: spec [of _ c])
  let ?b' = "?b\<lparr>pb_array := (pb_array ?b)(pos := ?nx x), pb_occ := if ?nx x = None then pb_occ ?b XOR push_bit pos 1 else pb_occ ?b\<rparr>"
  let ?q = "q1\<lparr>pq_blocks := (pq_blocks q1)(?i := ?b'), pq_next := ?nx(x := None), pq_elems := pq_elems q1 - 1\<rparr>"
  have "pq_elems q \<noteq> 0" using h \<open>m y = Some d\<close> by (auto simp: pq_holds_def)
  then have q': "pq_dequeue B q = Some ((x, c), ?q)"
    using q1 ch by (simp add: pq_dequeue_def pb_dequeue_def Let_def pos_def [symmetric] c_def)
  have min: "c \<le> d" if "m y = Some d" for y d
  proof (cases "y \<in> set (L d)")
    case True
    then have "in_window B ?cur d" using L(2) by (fastforce simp: lists_ok_def)
    moreover have "L d \<noteq> []" using True by auto
    ultimately show ?thesis using o(3) o(5) [of d] div_le_mono [of d c 64] by (cases "d div 64 = ?cur") (auto simp: in_window_def)
  next
    case False
    then have "last_look B ?cur + B \<le> d div 64" using L(3,4) that by (auto simp: holds_def far_ok_def)
    then have "c div 64 < d div 64" using last_look_less [OF B, of ?cur] o(3) by linarith
    then show ?thesis using div_le_mono [of d c 64] by linarith
  qed
  have x_in: "x \<notin> set (L e)" if "e \<noteq> c" for e using L(2) x that by (auto simp: lists_ok_def)
  have "let b = pq_blocks ?q (e div 64 mod B) in chain (pq_next ?q) (pb_array b (e mod 64)) ((L(c := xs)) e) \<and>
      (bit (pb_occ b) (e mod 64) \<longleftrightarrow> (L(c := xs)) e \<noteq> [])" if e: "in_window B ?cur e" for e
  proof (cases "e = c")
    case True
    have "bit (pb_occ ?b) pos" "pos < 64" using ctzl_least(1,3) [OF q1(4)] by (simp_all add: pos_def)
    moreover have "?nx x = None \<longleftrightarrow> xs = []" using chain_empty [OF ch(2)] .
    ultimately show ?thesis using True ch o(3,4) by (simp add: Let_def bit_simps)
  next
    case False
    have "e mod 64 \<noteq> pos" if "e div 64 mod B = ?i" using window_unique [OF e o(2)] that o(3,4) False by auto
    then show ?thesis using L(1) e False x_in [OF False] by (auto simp: slots_ok_def Let_def bit_simps)
  qed
  then have s: "slots_ok B ?q (L(c := xs))" by (simp add: slots_ok_def)
  have "distinct (L c)" using L(2) by (simp add: lists_ok_def)
  moreover have "?nx z = None" if "z \<noteq> x" "\<forall>e. z \<notin> set ((L(c := xs)) e)" for z
  proof -
    have "z \<notin> set (L e)" for e using that x by (cases "e = c") (auto dest: spec [of _ e])
    then show ?thesis using L(2) by (simp add: lists_ok_def)
  qed
  ultimately have l: "lists_ok B ?q (L(c := xs))" using L(2) o(2) x x_in ch(3) unfolding lists_ok_def by auto
  have "(e, x) \<notin> set ?fe" for e using L(3) x unfolding far_ok_def by (metis list.set_intros(1))
  then have "holds (L(c := xs)) ?fe (m(x := None))"
  proof -
    assume f: "\<And>e. (e, x) \<notin> set ?fe"
    have "(m(x := None)) z = Some e \<longleftrightarrow> z \<in> set ((L(c := xs)) e) \<or> (e, z) \<in> set ?fe" for z e
      using L(4) x x_in [of e] ch(3) f [of e] by (cases "z = x"; cases "e = c") (auto simp: holds_def)
    then show ?thesis by (simp add: holds_def)
  qed
  moreover have "far_ok B ?cur (L(c := xs)) ?fe"
  proof -
    have "set ((L(c := xs)) e) \<subseteq> set (L e)" for e using x by auto
    then show ?thesis using L(3) unfolding far_ok_def by blast
  qed
  moreover have "dom (m(x := None)) = dom m - {x}" "x \<in> dom m" using m by auto
  ultimately have "pq_holds B ?q (m(x := None))" by (intro pq_holdsI [OF s l]) (use d in simp_all)
  then show ?thesis using q' m min o(3) q1(3) by auto
qed

text \<open>\<open>firstCycle\<close> looks at the far objects only where one of them can be first.\<close>

lemma first_in_block:
  assumes L: "slots_ok B q L" "lists_ok B q L" "holds L (pq_feMap q) m" and i: "i < B"
    and o: "pb_occ (pq_blocks q ((pq_curBlock q + i) mod B)) \<noteq> 0" "\<forall>j<i. pb_occ (pq_blocks q ((pq_curBlock q + j) mod B)) = 0"
  defines "c \<equiv> (pq_curBlock q + i) * 64 + builtin_ctzl (pb_occ (pq_blocks q ((pq_curBlock q + i) mod B)))"
  shows "\<exists>x. m x = Some c" "y \<in> set (L d) \<Longrightarrow> c \<le> d" "c div 64 = pq_curBlock q + i"
proof -
  have w: "in_window B (pq_curBlock q) ((pq_curBlock q + i) * 64)" using i by (simp add: in_window_def)
  note b = occ_block [OF L(1) w o(1), folded c_def]
  obtain x where "x \<in> set (L c)" using b(1) by (cases "L c") auto
  then show "\<exists>x. m x = Some c" using L(3) by (auto simp: holds_def)
  show d: "c div 64 = pq_curBlock q + i" by (rule b(3))
  show "c \<le> d" if y: "y \<in> set (L d)"
  proof -
    have wd: "in_window B (pq_curBlock q) d" "L d \<noteq> []" using L(2) y by (fastforce simp: lists_ok_def)+
    then have "bit (pb_occ (pq_blocks q (d div 64 mod B))) (d mod 64)" using L(1) by (auto simp: slots_ok_def Let_def)
    then have "pb_occ (pq_blocks q (d div 64 mod B)) \<noteq> 0" by auto
    moreover have "d div 64 = pq_curBlock q + (d div 64 - pq_curBlock q)" using wd(1) by (simp add: in_window_def)
    ultimately have "\<not> d div 64 - pq_curBlock q < i" using o(2) by metis
    then show ?thesis using b(5) [of d] wd d div_le_mono [of d c 64] by (cases "d div 64 = pq_curBlock q + i") (auto simp: in_window_def)
  qed
qed

lemma find_first: "List.find P [a..<b] = Some i \<Longrightarrow> a \<le> i \<and> i < b \<and> P i \<and> (\<forall>j. a \<le> j \<longrightarrow> j < i \<longrightarrow> \<not> P j)"
proof -
  assume f: "List.find P [a..<b] = Some i"
  then obtain k where k: "k < length [a..<b]" "P ([a..<b] ! k)" "i = [a..<b] ! k" "\<forall>j<k. \<not> P ([a..<b] ! j)"
    by (auto simp: find_Some_iff)
  have "\<not> P j" if "a \<le> j" "j < i" for j using k(4) [rule_format, of "j - a"] k(1,3) that by auto
  then show ?thesis using k by auto
qed

lemma firstCycle_ok:
  assumes B: "2 \<le> B" and h: "pq_holds B q m" and ne: "m \<noteq> Map.empty"
  shows "\<exists>x c. pq_firstCycle B q = Some c \<and> m x = Some c \<and> (\<forall>y d. m y = Some d \<longrightarrow> c \<le> d)"
proof -
  obtain L where L: "slots_ok B q L" "lists_ok B q L" "far_ok B (pq_curBlock q) L (pq_feMap q)" "holds L (pq_feMap q) m"
    and e: "pq_elems q = card (dom m)" "finite (dom m)" using h by (auto simp: pq_holds_def)
  let ?occ = "\<lambda>i. pb_occ (pq_blocks q ((pq_curBlock q + i) mod B))" and ?fe = "pq_feMap q"
  have "pq_elems q \<noteq> 0" using e ne by simp
  note f = pq_firstCycle_def [of B q, unfolded Let_def]
  have far: "pq_curBlock q + B div 2 < d div 64" "fst (hd ?fe) \<le> d" if "(d, y) \<in> set ?fe" for d y
  proof -
    show "pq_curBlock q + B div 2 < d div 64" using L(3) that last_look_less [OF B, of "pq_curBlock q"] by (fastforce simp: far_ok_def)
    show "fst (hd ?fe) \<le> d" using L(3) that by (cases ?fe) (auto simp: far_ok_def)
  qed
  have hd: "\<exists>x. m x = Some (fst (hd ?fe))" if "?fe \<noteq> []" using L(4) that by (cases ?fe) (auto simp: holds_def)
  have cases: "y \<in> set (L d) \<or> (d, y) \<in> set ?fe" if "m y = Some d" for y d using L(4) that by (simp add: holds_def)
  show ?thesis
  proof (cases "List.find (\<lambda>i. ?occ i \<noteq> 0) [0..<B div 2]")
    case (Some i)
    note i = find_first [OF Some]
    have "i < B" using i by linarith
    note c = first_in_block [OF L(1,2,4) this]
    have o: "?occ i \<noteq> 0" "\<forall>j<i. ?occ j = 0" using i by auto
    let ?c = "(pq_curBlock q + i) * 64 + builtin_ctzl (?occ i)"
    have "?c \<le> d" if "m y = Some d" for y d
    proof (cases "y \<in> set (L d)")
      case True
      then show ?thesis by (rule c(2) [OF o])
    next
      case False
      then have "?c div 64 < d div 64" using far(1) cases [OF that] c(3) [OF o] i by fastforce
      then show ?thesis using div_le_mono [of d ?c 64] by linarith
    qed
    moreover have "pq_firstCycle B q = Some ?c" using Some \<open>pq_elems q \<noteq> 0\<close> by (simp add: f)
    ultimately show ?thesis using c(1) [OF o] by blast
  next
    case none: None
    then have z: "?occ j = 0" if "j < B div 2" for j using that by (auto simp: find_None_iff)
    show ?thesis
    proof (cases "List.find (\<lambda>i. ?occ i \<noteq> 0) [B div 2..<B]")
      case (Some i)
      note i = find_first [OF Some]
      have o: "i < B" "?occ i \<noteq> 0" "\<forall>j<i. ?occ j = 0" using i z by (auto simp: not_less [symmetric])
      note c = first_in_block [OF L(1,2,4) o]
      let ?c = "(pq_curBlock q + i) * 64 + builtin_ctzl (?occ i)"
      have "pq_firstCycle B q = Some (if ?fe = [] then ?c else min ?c (fst (hd ?fe)))" using none Some \<open>pq_elems q \<noteq> 0\<close> by (simp add: f)
      moreover have "(if ?fe = [] then ?c else min ?c (fst (hd ?fe))) \<le> d" if "m y = Some d" for y d
        using cases [OF that] c(2) [of y d] far(2) [of d y] by (auto simp: min_le_iff_disj)
      moreover have "\<exists>x. m x = Some (if ?fe = [] then ?c else min ?c (fst (hd ?fe)))" using c(1) hd by (simp add: min_def)
      ultimately show ?thesis by blast
    next
      case None
      then have "?occ j = 0" if "j < B" for j using that z [of j] by (cases "j < B div 2") (auto simp: find_None_iff)
      then have "pb_occ (pq_blocks q (d div 64 mod B)) = 0" if "in_window B (pq_curBlock q) d" for d
        using that by (metis in_window_def le_add_diff_inverse nat_add_left_cancel_less)
      then have "L d = []" for d
        using L(1,2) by (cases "in_window B (pq_curBlock q) d") (auto simp: slots_ok_def lists_ok_def Let_def)
      then have "m y = Some d \<longleftrightarrow> (d, y) \<in> set ?fe" for y d using L(4) by (simp add: holds_def)
      moreover obtain y d where "m y = Some d" using ne by (metis not_None_eq ext)
      ultimately have fe: "?fe \<noteq> []" "\<And>y d. m y = Some d \<Longrightarrow> fst (hd ?fe) \<le> d" using far(2) by auto
      have "pq_firstCycle B q = Some (fst (hd ?fe))" using none None \<open>pq_elems q \<noteq> 0\<close> fe(1) by (simp add: f)
      then show ?thesis using hd [OF fe(1)] fe(2) by blast
    qed
  qed
qed

section \<open>The interface\<close>

text \<open>
  What the contention simulation relies on: objects are queued for a cycle that is not in the past
  and come out in the order of their cycles.
\<close>

locale priority_queue =
  fixes queue :: "'q \<Rightarrow> (nat \<rightharpoonup> nat) \<Rightarrow> bool" and now :: "'q \<Rightarrow> nat"
    and enq :: "nat \<Rightarrow> nat \<Rightarrow> 'q \<Rightarrow> 'q option" and deq :: "'q \<Rightarrow> ((nat \<times> nat) \<times> 'q) option"
  assumes enq_ok: "queue q m \<Longrightarrow> m x = None \<Longrightarrow> now q \<le> c \<Longrightarrow> \<exists>q'. enq x c q = Some q' \<and> queue q' (m(x \<mapsto> c)) \<and> now q' = now q"
    and deq_ok: "queue q m \<Longrightarrow> m \<noteq> Map.empty \<Longrightarrow> \<exists>x c q'. deq q = Some ((x, c), q') \<and> m x = Some c \<and>
      (\<forall>y d. m y = Some d \<longrightarrow> c \<le> d) \<and> queue q' (m(x := None)) \<and> now q \<le> now q' \<and> now q' \<le> c"
    and finite_queue: "queue q m \<Longrightarrow> finite (dom m)"
begin

lemma fill_ok:
  assumes "queue q m" "distinct (map fst evs)" "\<forall>(x, c)\<in>set evs. m x = None \<and> now q \<le> c"
  shows "\<exists>q'. fold (\<lambda>(x, c) q. Option.bind q (enq x c)) evs (Some q) = Some q' \<and> queue q' (m ++ map_of evs)"
  using assms
proof (induction evs arbitrary: q m)
  case (Cons e evs)
  obtain x c where e: "e = (x, c)" by (cases e)
  obtain q1 where q1: "enq x c q = Some q1" "queue q1 (m(x \<mapsto> c))" "now q1 = now q"
    using enq_ok [OF Cons.prems(1), of x c] Cons.prems(3) e by auto
  have f: "\<forall>(y, d)\<in>set evs. (m(x \<mapsto> c)) y = None \<and> now q1 \<le> d" "distinct (map fst evs)"
    using Cons.prems(2,3) q1(3) e by (auto simp: image_iff split: prod.splits)
  have x: "map_of evs x = None" using Cons.prems(2) e by (simp add: map_of_eq_None_iff)
  have m: "m(x \<mapsto> c) ++ map_of evs = m ++ map_of (e # evs)"
    using x by (auto simp: e fun_eq_iff map_add_def split: option.splits)
  have "fold (\<lambda>(x, c) q. Option.bind q (enq x c)) (e # evs) (Some q) = fold (\<lambda>(x, c) q. Option.bind q (enq x c)) evs (Some q1)"
    using q1(1) e by simp
  then show ?case using Cons.IH [OF q1(2) f(2,1)] unfolding m by metis
qed simp

end

text \<open>Taking everything out.\<close>

fun drain :: "('q \<Rightarrow> ((nat \<times> nat) \<times> 'q) option) \<Rightarrow> nat \<Rightarrow> 'q \<Rightarrow> ((nat \<times> nat) list \<times> 'q) option" where
  "drain deq 0 q = Some ([], q)"
| "drain deq (Suc n) q = do { (x, q1) \<leftarrow> deq q; (xs, q2) \<leftarrow> drain deq n q1; Some (x # xs, q2) }"

context priority_queue
begin

lemma drain_ok:
  assumes "queue q m" "n = card (dom m)"
  shows "\<exists>xs q'. drain deq n q = Some (xs, q') \<and> queue q' Map.empty \<and> sorted (map snd xs) \<and> distinct (map fst xs) \<and>
    set xs = {(x, c). m x = Some c}"
  using assms
proof (induction n arbitrary: q m)
  case 0
  then have "m = Map.empty" using finite_queue by auto
  then show ?case using 0 by auto
next
  case (Suc n)
  then have "m \<noteq> Map.empty" by auto
  then obtain x c q1 where d: "deq q = Some ((x, c), q1)" "m x = Some c" "\<forall>y d. m y = Some d \<longrightarrow> c \<le> d" "queue q1 (m(x := None))"
    using deq_ok [OF Suc.prems(1)] by blast
  have "n = card (dom (m(x := None)))" using Suc.prems(2) finite_queue [OF Suc.prems(1)] d(2) by (simp add: dom_fun_upd domI)
  then obtain xs q' where r: "drain deq n q1 = Some (xs, q')" "queue q' Map.empty" "sorted (map snd xs)" "distinct (map fst xs)"
    "set xs = {(y, e). (m(x := None)) y = Some e}"
    using Suc.IH [OF d(4)] by blast
  have "\<forall>(y, e)\<in>set xs. c \<le> e \<and> y \<noteq> x" using r(5) d(3) by (auto split: if_splits)
  then have "sorted (map snd ((x, c) # xs))" "distinct (map fst ((x, c) # xs))" using r(3,4) by auto
  moreover have "set ((x, c) # xs) = {(y, e). m y = Some e}" using r(5) d(2) by (auto split: if_splits)
  ultimately show ?case using d(1) r(1,2) by auto
qed

end

definition PQ_BLOCKS :: nat where
  "PQ_BLOCKS = 1024"

interpretation calendar: priority_queue "pq_holds PQ_BLOCKS" "\<lambda>q. pq_curBlock q * 64" "pq_enqueue PQ_BLOCKS" "pq_dequeue PQ_BLOCKS"
proof
  fix q m x c
  show "\<exists>q'. pq_enqueue PQ_BLOCKS x c q = Some q' \<and> pq_holds PQ_BLOCKS q' (m(x \<mapsto> c)) \<and> pq_curBlock q' * 64 = pq_curBlock q * 64"
    if "pq_holds PQ_BLOCKS q m" "m x = None" "pq_curBlock q * 64 \<le> c"
    using enqueue_ok [OF that(1,2), of c] that(3) by (simp add: less_eq_div_iff_mult_less_eq)
  show "finite (dom m)" if "pq_holds PQ_BLOCKS q m" using that by (simp add: pq_holds_def)
  show "\<exists>x c q'. pq_dequeue PQ_BLOCKS q = Some ((x, c), q') \<and> m x = Some c \<and> (\<forall>y d. m y = Some d \<longrightarrow> c \<le> d) \<and>
      pq_holds PQ_BLOCKS q' (m(x := None)) \<and> pq_curBlock q * 64 \<le> pq_curBlock q' * 64 \<and> pq_curBlock q' * 64 \<le> c"
    if h: "pq_holds PQ_BLOCKS q m" "m \<noteq> Map.empty"
  proof -
    have "2 \<le> PQ_BLOCKS" by (simp add: PQ_BLOCKS_def)
    from dequeue_ok [OF this h] obtain x c q' where d: "pq_dequeue PQ_BLOCKS q = Some ((x, c), q')" "m x = Some c"
      "\<forall>y d. m y = Some d \<longrightarrow> c \<le> d" "pq_holds PQ_BLOCKS q' (m(x := None))" "pq_curBlock q' = c div 64" "pq_curBlock q \<le> pq_curBlock q'"
      by blast
    have "pq_curBlock q' * 64 \<le> c" using d(5) by simp
    then show ?thesis using d by (intro exI [of _ x] exI [of _ c] exI [of _ q']) simp
  qed
qed

section \<open>Properties\<close>

text \<open>Runs of the operations, with the contents the queue should have and the last cycle taken out.\<close>

inductive pq_run :: "nat \<Rightarrow> PrioQueue \<Rightarrow> (nat \<rightharpoonup> nat) \<Rightarrow> nat \<Rightarrow> bool" for B where
  run_new: "pq_run B pq_new Map.empty 0"
| run_enqueue: "pq_run B q m t \<Longrightarrow> m x = None \<Longrightarrow> t \<le> c \<Longrightarrow> pq_enqueue B x c q = Some q' \<Longrightarrow> pq_run B q' (m(x \<mapsto> c)) t"
| run_dequeue: "pq_run B q m t \<Longrightarrow> pq_dequeue B q = Some ((x, c), q') \<Longrightarrow> pq_run B q' (m(x := None)) c"

lemma run_holds:
  assumes "2 \<le> B" "pq_run B q m t"
  shows "pq_holds B q m \<and> pq_curBlock q \<le> t div 64"
  using assms(2)
proof (induction rule: pq_run.induct)
  case run_new
  then show ?case using pq_new_holds by (simp add: pq_new_def)
next
  case (run_enqueue q m t x c q')
  have "pq_curBlock q \<le> c div 64" using run_enqueue div_le_mono [of t c 64] by linarith
  then show ?case using enqueue_ok [of B q m x c] run_enqueue by (auto simp del: fun_upd_apply)
next
  case (run_dequeue q m t x c q')
  then have "m \<noteq> Map.empty" by (auto simp: pq_holds_def pq_dequeue_def)
  then show ?case using dequeue_ok [OF assms(1), of q m] run_dequeue by (auto simp del: fun_upd_apply)
qed

text \<open>
  C4: The calendar queue refines a priority queue. After any sequence of operations in which an
  object is queued at most once at a time and never before the last cycle taken out, another object
  can be queued, a dequeue of a non-empty queue ends and returns an object with the least cycle,
  \<open>firstCycle\<close> is that least cycle, and \<open>size\<close> is the number of queued objects.
\<close>

theorem pq_refines:
  assumes "2 \<le> B" "pq_run B q m t"
  shows "pq_size q = card (dom m) \<and> (\<forall>x c. m x = None \<longrightarrow> t \<le> c \<longrightarrow> pq_enqueue B x c q \<noteq> None) \<and>
    (if m = Map.empty then pq_dequeue B q = None
     else \<exists>x c q'. pq_dequeue B q = Some ((x, c), q') \<and> pq_firstCycle B q = Some c \<and> m x = Some c \<and> (\<forall>y d. m y = Some d \<longrightarrow> c \<le> d))"
proof -
  note h = run_holds [OF assms]
  have "pq_enqueue B x c q \<noteq> None" if "m x = None" "t \<le> c" for x c
    using enqueue_ok [of B q m x c] h that div_le_mono [OF that(2), of 64] by fastforce
  moreover have "pq_size q = card (dom m)" using h by (simp add: pq_size_def pq_holds_def)
  moreover have "pq_dequeue B q = None" if "m = Map.empty" using h that by (auto simp: pq_holds_def pq_dequeue_def)
  moreover have "\<exists>x c q'. pq_dequeue B q = Some ((x, c), q') \<and> pq_firstCycle B q = Some c \<and> m x = Some c \<and> (\<forall>y d. m y = Some d \<longrightarrow> c \<le> d)"
    if ne: "m \<noteq> Map.empty"
  proof -
    obtain x c q' where d: "pq_dequeue B q = Some ((x, c), q')" "m x = Some c" "\<forall>y d. m y = Some d \<longrightarrow> c \<le> d"
      using dequeue_ok [OF assms(1) _ ne] h by blast
    obtain y e where "pq_firstCycle B q = Some e" "m y = Some e" "\<forall>z f. m z = Some f \<longrightarrow> e \<le> f"
      using firstCycle_ok [OF assms(1) _ ne] h by blast
    moreover have "c = e" using calculation d by (meson le_antisym)
    ultimately show ?thesis using d by blast
  qed
  ultimately show ?thesis by auto
qed

theorem pq_refines_witness:
  "\<exists>q. pq_run 4 q [7 \<mapsto> 900] 0 \<and> pq_firstCycle 4 q = Some 900 \<and> pq_size q = 1"
proof -
  obtain q where q: "pq_enqueue 4 7 900 pq_new = Some q"
    using enqueue_ok [OF pq_new_holds [of 4], where x = 7 and c = 900] by (auto simp: pq_new_def)
  then have r: "pq_run 4 q [7 \<mapsto> 900] 0" using run_enqueue [OF run_new, where x = 7 and c = 900] by simp
  note t = pq_refines [OF _ r]
  have "[7 \<mapsto> 900] \<noteq> Map.empty" by simp
  then have "pq_firstCycle 4 q = Some 900" using t by (auto split: if_splits)
  moreover have "pq_size q = 1" using t by simp
  ultimately show ?thesis using r by blast
qed

text \<open>
  C5: The calendar queue of a contention domain sorts: objects queued for arbitrary cycles, near or
  far, come out in the order of their cycles, each exactly once, and the queue is empty afterwards.
\<close>

theorem pq_sorts:
  assumes "distinct (map fst evs)"
  shows "\<exists>q xs q'. fold (\<lambda>(x, c) q. Option.bind q (pq_enqueue PQ_BLOCKS x c)) evs (Some pq_new) = Some q \<and>
    drain (pq_dequeue PQ_BLOCKS) (length evs) q = Some (xs, q') \<and> sorted (map snd xs) \<and> mset xs = mset evs \<and> pq_size q' = 0"
proof -
  obtain q where q: "fold (\<lambda>(x, c) q. Option.bind q (pq_enqueue PQ_BLOCKS x c)) evs (Some pq_new) = Some q"
    "pq_holds PQ_BLOCKS q (Map.empty ++ map_of evs)"
    using calendar.fill_ok [OF pq_new_holds assms] by (auto simp: pq_new_def)
  have "length evs = card (dom (map_of evs))" using assms by (metis distinct_card dom_map_of_conv_image_fst length_map list.set_map)
  then obtain xs q' where d: "drain (pq_dequeue PQ_BLOCKS) (length evs) q = Some (xs, q')" "pq_holds PQ_BLOCKS q' Map.empty"
    "sorted (map snd xs)" "distinct (map fst xs)" "set xs = {(x, c). map_of evs x = Some c}"
    using calendar.drain_ok [OF q(2)] by auto
  have "set xs = set evs" using d(5) assms by auto
  then have "mset xs = mset evs" using d(4) assms by (simp add: set_eq_iff_mset_eq_distinct distinct_map)
  moreover have "pq_size q' = 0" using d(2) by (simp add: pq_size_def pq_holds_def)
  ultimately show ?thesis using q(1) d(1,3) by blast
qed

theorem pq_sorts_witness:
  "\<exists>q xs q'. fold (\<lambda>(x, c) q. Option.bind q (pq_enqueue PQ_BLOCKS x c)) [(1, 70000), (2, 5), (3, 70)] (Some pq_new) = Some q \<and>
    drain (pq_dequeue PQ_BLOCKS) 3 q = Some (xs, q') \<and> sorted (map snd xs) \<and> mset xs = {#(1, 70000), (2, 5), (3, 70)#} \<and> pq_size q' = 0"
  using pq_sorts [of "[(1, 70000), (2, 5), (3, 70)]"] by (simp add: numeral_3_eq_3 add_mset_commute)

end
