(* ===== verification/Event_Queue.thy ===== *)
theory Event_Queue
  imports Multimap
begin

text \<open>
  The queue of periodic events of src/src/event_queue.h. An event is a value with a period; its
  callback may change it and the rest of the simulator, the \<open>world\<close>. \<open>tick\<close> is called at the end of
  every phase. Phase numbers are unbounded.
\<close>

section \<open>The queue\<close>

type_synonym 'e event_map = "(nat \<times> 'e) list"

function eq_tick ::
  "('e \<Rightarrow> nat) \<Rightarrow> ('e \<Rightarrow> 'w \<Rightarrow> ('e \<times> 'w) option) \<Rightarrow> nat \<Rightarrow> 'e event_map \<Rightarrow> 'w \<Rightarrow> ('e event_map \<times> 'w) option" where
  "eq_tick period callback curPhase [] world = Some ([], world)"
| "eq_tick period callback curPhase ((phase, ev) # evMap) world =
     (if \<not> phase \<le> curPhase then Some ((phase, ev) # evMap, world)
      else if phase \<noteq> curPhase then None
      else case callback ev world of
          None \<Rightarrow> None
        | Some (ev', world') \<Rightarrow>
            eq_tick period callback curPhase
              (if period ev' \<noteq> 0 then mm_insert (curPhase + period ev') ev' evMap else evMap) world')"
  by pat_completeness auto

lemma filter_mm_insert: "\<not> P (k, v) \<Longrightarrow> filter P (mm_insert k v m) = filter P m"
proof -
  assume p: "\<not> P (k, v)"
  let ?t = "takeWhile (\<lambda>e. fst e \<le> k) m" and ?d = "dropWhile (\<lambda>e. fst e \<le> k) m"
  have "filter P (mm_insert k v m) = filter P ?t @ filter P ?d" using p by (simp add: mm_insert_def)
  also have "\<dots> = filter P (?t @ ?d)" by (rule filter_append [symmetric])
  finally show ?thesis by (simp only: takeWhile_dropWhile_id)
qed

termination eq_tick
  by (relation "measure (\<lambda>(_, _, curPhase, evMap, _). length (filter (\<lambda>e. fst e \<le> curPhase) evMap))")
    (auto simp: filter_mm_insert)

definition eq_insert :: "('e \<Rightarrow> nat) \<Rightarrow> nat \<Rightarrow> 'e \<Rightarrow> int \<Rightarrow> 'e event_map \<Rightarrow> 'e event_map option" where
  "eq_insert period curPhase ev startDelay evMap = do {
     let eventPhase = (if startDelay = -1 then int (curPhase + period ev) else int curPhase + startDelay);
     assert_that (eventPhase \<ge> int curPhase);
     Some (mm_insert (nat eventPhase) ev evMap)
   }"

section \<open>Adaptive events\<close>

text \<open>\<open>get\<close> reads a counter of the simulator; \<open>fire\<close> is recorded in the result.\<close>

record AdaptiveEvent =
  ae_period :: nat
  ae_target :: nat
  ae_maxRate :: nat

definition ae_next :: "nat \<Rightarrow> nat \<Rightarrow> nat \<Rightarrow> nat" where
  "ae_next target cur maxRate = (let p = (target - cur) div maxRate in if p = 0 then 1 else p)"

definition ae_new :: "nat \<Rightarrow> nat \<Rightarrow> nat \<Rightarrow> AdaptiveEvent option" where
  "ae_new start target maxRate = do {
     assert_that (target \<ge> start);
     assert_that (maxRate \<noteq> 0);
     Some \<lparr>ae_period = ae_next target start maxRate, ae_target = target, ae_maxRate = maxRate\<rparr>
   }"

definition ae_callback :: "nat \<Rightarrow> AdaptiveEvent \<Rightarrow> (AdaptiveEvent \<times> bool) option" where
  "ae_callback cur ev =
     (if cur \<ge> ae_target ev then do {
        assert_that (cur - ae_target ev \<le> ae_maxRate ev);
        Some (ev\<lparr>ae_period := 0\<rparr>, True)
      } else do {
        assert_that (ae_maxRate ev \<noteq> 0);
        Some (ev\<lparr>ae_period := ae_next (ae_target ev) cur (ae_maxRate ev)\<rparr>, False)
      })"

section \<open>Ticks\<close>

text \<open>Events that are due now run in the order they were inserted; the others stay.\<close>

fun run_due :: "('e \<Rightarrow> 'w \<Rightarrow> ('e \<times> 'w) option) \<Rightarrow> 'e list \<Rightarrow> 'w \<Rightarrow> ('e list \<times> 'w) option" where
  "run_due callback [] w = Some ([], w)"
| "run_due callback (e # es) w = do {
     (e', w1) \<leftarrow> callback e w;
     (es', w2) \<leftarrow> run_due callback es w1;
     Some (e' # es', w2)
   }"

definition resched :: "('e \<Rightarrow> nat) \<Rightarrow> nat \<Rightarrow> 'e list \<Rightarrow> 'e event_map \<Rightarrow> 'e event_map" where
  "resched period p es m = fold (\<lambda>e m. if period e \<noteq> 0 then mm_insert (p + period e) e m else m) es m"

lemma mm_insert_front: "p < k \<Longrightarrow> mm_insert k v (map (Pair p) es @ m) = map (Pair p) es @ mm_insert k v m"
  by (induction es) (auto simp: mm_insert_def)

lemma tick_spec:
  assumes "mm_sorted later" "\<forall>e\<in>set later. p < fst e"
  shows "eq_tick period callback p (map (Pair p) due @ later) w =
    map_option (\<lambda>(es, w'). (resched period p es later, w')) (run_due callback due w)"
  using assms
proof (induction due arbitrary: later w)
  case Nil
  then show ?case by (cases later) (auto simp: resched_def)
next
  case (Cons e due)
  show ?case
  proof (cases "callback e w")
    case (Some r)
    obtain e' w' where r: "r = (e', w')" by (cases r)
    let ?later = "if period e' \<noteq> 0 then mm_insert (p + period e') e' later else later"
    have l: "mm_sorted ?later" "\<forall>x\<in>set ?later. p < fst x" using Cons.prems mm_insert_sorted by auto
    have "(if period e' \<noteq> 0 then mm_insert (p + period e') e' (map (Pair p) due @ later) else map (Pair p) due @ later) =
        map (Pair p) due @ ?later"
      by (simp add: mm_insert_front)
    then have "eq_tick period callback p (map (Pair p) (e # due) @ later) w = eq_tick period callback p (map (Pair p) due @ ?later) w'"
      using Some r by (simp del: append_assoc)
    also have "\<dots> = map_option (\<lambda>(es, w'). (resched period p es ?later, w')) (run_due callback due w')" by (rule Cons.IH [OF l])
    finally show ?thesis using Some r by (cases "run_due callback due w'") (auto simp: resched_def)
  qed simp
qed

lemma resched_later:
  assumes "mm_sorted later" "\<forall>e\<in>set later. p < fst e"
  shows "mm_sorted (resched period p es later)" "\<forall>e\<in>set (resched period p es later). p < fst e"
    "set (resched period p es later) = set later \<union> {(p + period e, e) | e. e \<in> set es \<and> period e \<noteq> 0}"
proof -
  have "mm_sorted (resched period p es later) \<and> (\<forall>e\<in>set (resched period p es later). p < fst e) \<and>
    set (resched period p es later) = set later \<union> {(p + period e, e) | e. e \<in> set es \<and> period e \<noteq> 0}"
    using assms
  proof (induction es arbitrary: later)
    case (Cons e es)
    let ?later = "if period e \<noteq> 0 then mm_insert (p + period e) e later else later"
    have "mm_sorted ?later" "\<forall>x\<in>set ?later. p < fst x" using Cons.prems mm_insert_sorted by auto
    then show ?case using Cons.IH [of ?later] by (auto simp: resched_def)
  qed (simp add: resched_def)
  then show "mm_sorted (resched period p es later)" "\<forall>e\<in>set (resched period p es later). p < fst e"
    "set (resched period p es later) = set later \<union> {(p + period e, e) | e. e \<in> set es \<and> period e \<noteq> 0}"
    by blast+
qed

lemma split_due:
  assumes "mm_sorted m" "\<forall>e\<in>set m. p \<le> fst e"
  shows "m = map (Pair p) (map snd (filter (\<lambda>e. fst e = p) m)) @ filter (\<lambda>e. p < fst e) m"
  using assms
proof (induction m)
  case (Cons e m)
  show ?case
  proof (cases "fst e = p")
    case True
    then show ?thesis using Cons by (cases e) auto
  next
    case False
    then have "\<forall>x\<in>set (e # m). p < fst x" using Cons.prems by fastforce
    moreover from this have "filter (\<lambda>x. fst x = p) (e # m) = []" by (auto simp: filter_empty_conv)
    ultimately show ?thesis by (simp add: filter_id_conv)
  qed
qed simp

lemma tick_due:
  assumes "mm_sorted m" "\<forall>e\<in>set m. p \<le> fst e"
  shows "eq_tick period callback p m w = map_option (\<lambda>(es, w'). (resched period p es (filter (\<lambda>e. p < fst e) m), w'))
    (run_due callback (map snd (filter (\<lambda>e. fst e = p) m)) w)"
proof -
  have "mm_sorted (filter (\<lambda>e. p < fst e) m)" using assms(1) by (simp add: sorted_filter)
  then have "eq_tick period callback p (map (Pair p) (map snd (filter (\<lambda>e. fst e = p) m)) @ filter (\<lambda>e. p < fst e) m) w =
    map_option (\<lambda>(es, w'). (resched period p es (filter (\<lambda>e. p < fst e) m), w')) (run_due callback (map snd (filter (\<lambda>e. fst e = p) m)) w)"
    by (intro tick_spec) auto
  then show ?thesis using split_due [OF assms] by simp
qed

text \<open>Phases \<open>p\<close>, \<open>p + 1\<close>, and so on, each ended by a tick.\<close>

fun eq_phases ::
  "('e \<Rightarrow> nat) \<Rightarrow> (nat \<Rightarrow> 'e \<Rightarrow> 'w \<Rightarrow> ('e \<times> 'w) option) \<Rightarrow> nat \<Rightarrow> nat \<Rightarrow> 'e event_map \<Rightarrow> 'w \<Rightarrow> ('e event_map \<times> 'w) option" where
  "eq_phases period callback p 0 m w = Some (m, w)"
| "eq_phases period callback p (Suc n) m w = do {
     (m', w') \<leftarrow> eq_tick period (callback p) p m w;
     eq_phases period callback (p + 1) n m' w'
   }"

text \<open>The callback of an adaptive event, which notes the phases in which it fired.\<close>

definition ae_note :: "(nat \<Rightarrow> nat) \<Rightarrow> nat \<Rightarrow> AdaptiveEvent \<Rightarrow> nat list \<Rightarrow> (AdaptiveEvent \<times> nat list) option" where
  "ae_note get p ev fired = map_option (\<lambda>(ev', f). (ev', if f then fired @ [p] else fired)) (ae_callback (get p) ev)"

definition ae_inv :: "(nat \<Rightarrow> nat) \<Rightarrow> nat \<Rightarrow> nat \<Rightarrow> AdaptiveEvent \<Rightarrow> bool" where
  "ae_inv get p0 k ev \<longleftrightarrow> ae_maxRate ev \<noteq> 0 \<and> p0 < k \<and> (\<forall>j. p0 < j \<and> j < k \<longrightarrow> get j < ae_target ev) \<and> get k \<le> ae_target ev + ae_maxRate ev"

lemma rate_sum:
  assumes "\<forall>j\<ge>p0. get (Suc j) \<le> get j + (r::nat)" "p0 \<le> p"
  shows "get (p + n) \<le> get p + n * r"
proof (induction n)
  case (Suc n)
  have "get (Suc (p + n)) \<le> get (p + n) + r" using assms by simp
  then show ?case using Suc by simp
qed simp

lemma ae_next_inv:
  assumes rate: "\<forall>j\<ge>p0. get (Suc j) \<le> get j + ae_maxRate ev" and p: "p0 \<le> p" "\<forall>j. p0 < j \<and> j \<le> p \<longrightarrow> get j < ae_target ev"
    and r: "ae_maxRate ev \<noteq> 0" "get p \<le> ae_target ev"
  defines "d \<equiv> ae_next (ae_target ev) (get p) (ae_maxRate ev)"
  shows "d \<noteq> 0" "ae_inv get p0 (p + d) (ev\<lparr>ae_period := d\<rparr>)"
proof -
  let ?r = "ae_maxRate ev" and ?t = "ae_target ev"
  show d: "d \<noteq> 0" by (simp add: d_def ae_next_def Let_def)
  have e: "d * ?r + get p \<le> ?t \<or> d = 1"
  proof (cases "(?t - get p) div ?r = 0")
    case False
    then have "d = (?t - get p) div ?r" by (simp add: d_def ae_next_def Let_def)
    then have "d * ?r \<le> ?t - get p" by simp
    then show ?thesis using r(2) by linarith
  qed (simp add: d_def ae_next_def Let_def)
  have lt: "get j < ?t" if j: "p < j" "j < p + d" for j
  proof -
    have "get j \<le> get p + (j - p) * ?r" using rate_sum [OF rate p(1), of "j - p"] j by simp
    moreover have "(j - p) * ?r \<le> (d - 1) * ?r" using j by (intro mult_right_mono) auto
    ultimately have "get j \<le> get p + (d - 1) * ?r" by linarith
    moreover have "d * ?r = (d - 1) * ?r + ?r" using d by (cases d) simp_all
    ultimately show ?thesis using e j r(1) by linarith
  qed
  have "get (p + d) \<le> get p + d * ?r" by (rule rate_sum [OF rate p(1)])
  then have "get (p + d) \<le> ?t + ?r" using e r(2) by auto
  then show "ae_inv get p0 (p + d) (ev\<lparr>ae_period := d\<rparr>)" using lt p r d unfolding ae_inv_def
    by (auto simp: not_less) (metis less_or_eq_imp_le linorder_neqE_nat)
qed

lemma phases_empty: "eq_phases period callback p n [] w = Some ([], w)"
  by (induction n arbitrary: p) simp_all

lemma ae_first:
  assumes rate: "\<forall>j\<ge>p0. get (Suc j) \<le> get j + maxRate"
    and ev: "ae_maxRate ev = maxRate" "ae_target ev = target" "ae_inv get p0 k ev" and k: "p \<le> k" "p0 \<le> p"
  shows "\<exists>m'. eq_phases ae_period (ae_note get) p n [(k, ev)] fired =
    Some (m', fired @ (if \<exists>j. p0 < j \<and> j < p + n \<and> target \<le> get j then [LEAST j. p0 < j \<and> target \<le> get j] else []))"
  using ev k
proof (induction n arbitrary: p k ev)
  case 0
  then have "\<not> (\<exists>j. p0 < j \<and> j < p \<and> target \<le> get j)" by (auto simp: ae_inv_def not_le)
  then show ?case by simp
next
  case (Suc n)
  note i = Suc.prems(3) [unfolded ae_inv_def]
  consider "p < k" | "p = k" "target \<le> get k" | "p = k" "get k < target" using Suc.prems(4) by linarith
  then show ?case
  proof cases
    case 1
    then have "eq_phases ae_period (ae_note get) p (Suc n) [(k, ev)] fired = eq_phases ae_period (ae_note get) (p + 1) n [(k, ev)] fired" by simp
    then show ?thesis using Suc.IH [of ev k "p + 1"] Suc.prems 1 by simp
  next
    case 2
    have "get k - target \<le> ae_maxRate ev" using i Suc.prems(2) by auto
    then have "eq_phases ae_period (ae_note get) p (Suc n) [(k, ev)] fired = Some ([], fired @ [k])"
      using 2 Suc.prems(2) by (simp add: ae_note_def ae_callback_def phases_empty)
    moreover have "(LEAST j. p0 < j \<and> target \<le> get j) = k"
    proof (rule Least_equality)
      show "p0 < k \<and> target \<le> get k" using 2 i by blast
      show "k \<le> y" if "p0 < y \<and> target \<le> get y" for y using that i Suc.prems(2) by (meson leD leI)
    qed
    moreover have "\<exists>j. p0 < j \<and> j < p + Suc n \<and> target \<le> get j" using 2 i by auto
    ultimately show ?thesis by auto
  next
    case 3
    let ?d = "ae_next (ae_target ev) (get k) (ae_maxRate ev)" and ?ev = "ev\<lparr>ae_period := ae_next (ae_target ev) (get k) (ae_maxRate ev)\<rparr>"
    have "\<forall>j. p0 < j \<and> j \<le> k \<longrightarrow> get j < ae_target ev" using i 3 Suc.prems(2) by (auto simp: le_less)
    then have n: "?d \<noteq> 0" "ae_inv get p0 (k + ?d) ?ev"
      using ae_next_inv [of p0 get ev k] rate Suc.prems(1,2) i 3 by auto
    then have "eq_phases ae_period (ae_note get) p (Suc n) [(k, ev)] fired = eq_phases ae_period (ae_note get) (p + 1) n [(k + ?d, ?ev)] fired"
      using 3 Suc.prems(2) i by (simp add: ae_note_def ae_callback_def mm_insert_def)
    then show ?thesis using Suc.IH [OF _ _ n(2), of "p + 1"] Suc.prems n(1) 3 by simp
  qed
qed

section \<open>Properties\<close>

text \<open>
  C28: With no event overdue, a tick runs the callbacks of exactly the events due in this phase, each
  once and in the order of their insertion, and fails only if one of them does; afterwards the
  queue is sorted, holds the other events and the periodic ones at their next phase, and nothing in it
  is due in this phase any more.
\<close>

theorem tick_runs_due:
  assumes "mm_sorted m" "\<forall>e\<in>set m. p \<le> fst e"
  shows "eq_tick period callback p m w =
    (case run_due callback (map snd (filter (\<lambda>e. fst e = p) m)) w of
       None \<Rightarrow> None
     | Some (es, w') \<Rightarrow> Some (resched period p es (filter (\<lambda>e. p < fst e) m), w')) \<and>
   (\<forall>es. mm_sorted (resched period p es (filter (\<lambda>e. p < fst e) m)) \<and>
     set (resched period p es (filter (\<lambda>e. p < fst e) m)) =
       {e \<in> set m. p < fst e} \<union> {(p + period e, e) | e. e \<in> set es \<and> period e \<noteq> 0})"
proof
  let ?later = "filter (\<lambda>e. p < fst e) m"
  show "eq_tick period callback p m w = (case run_due callback (map snd (filter (\<lambda>e. fst e = p) m)) w of
       None \<Rightarrow> None | Some (es, w') \<Rightarrow> Some (resched period p es ?later, w'))"
    unfolding tick_due [OF assms] by (cases "run_due callback (map snd (filter (\<lambda>e. fst e = p) m)) w") auto
  have l: "mm_sorted ?later" "\<forall>e\<in>set ?later. p < fst e" using assms(1) by (simp_all add: sorted_filter)
  show "\<forall>es. mm_sorted (resched period p es ?later) \<and>
     set (resched period p es ?later) = {e \<in> set m. p < fst e} \<union> {(p + period e, e) | e. e \<in> set es \<and> period e \<noteq> 0}"
    using resched_later(1,3) [OF l] by simp
qed

theorem tick_runs_due_witness:
  "\<exists>m'. eq_tick (\<lambda>e. e) (\<lambda>e w. Some (e, w @ [e])) 3 [(3, 2), (3, 0), (8, 1)] [] = Some (m', [2, 0]) \<and> set m' = {(5, 2), (8, 1::nat)}"
proof -
  have "mm_sorted [(3::nat, 2), (3, 0), (8, 1::nat)]" "\<forall>e\<in>set [(3::nat, 2), (3, 0), (8, 1::nat)]. 3 \<le> fst e" by simp_all
  from tick_runs_due [OF this, of "\<lambda>e. e" "\<lambda>e w. Some (e, w @ [e])" "[]"]
  have t: "eq_tick (\<lambda>e. e) (\<lambda>e w. Some (e, w @ [e])) 3 [(3, 2), (3, 0), (8, 1)] [] = Some (resched (\<lambda>e. e) 3 [2, 0] [(8, 1)], [2, 0])"
    "set (resched (\<lambda>e. e) 3 [2, 0] [(8, 1)]) = {e \<in> set [(3, 2), (3, 0), (8, 1)]. 3 < fst e} \<union> {(3 + e, e) | e. e \<in> set [2, 0] \<and> e \<noteq> 0}"
    by simp_all
  then show ?thesis by auto
qed

text \<open>
  C29: An adaptive event fires exactly once, and at the end of the first phase after its insertion in
  which the counter has reached the target, as long as the counter never grows by more than
  \<open>maxRate\<close> per phase; it does not fire before.
\<close>

theorem adaptive_fires_on_time:
  assumes "\<forall>j\<ge>p0. get (Suc j) \<le> get j + maxRate" and "ae_new (get p0) target maxRate = Some ev"
    and "eq_insert ae_period p0 ev (-1) [] = Some m"
  shows "\<exists>m'. eq_phases ae_period (ae_note get) p0 n m [] =
    Some (m', if \<exists>j. p0 < j \<and> j < p0 + n \<and> target \<le> get j then [LEAST j. p0 < j \<and> target \<le> get j] else [])"
proof -
  have ev: "target \<ge> get p0" "maxRate \<noteq> 0" "ev = \<lparr>ae_period = ae_next target (get p0) maxRate, ae_target = target, ae_maxRate = maxRate\<rparr>"
    using assms(2) by (auto simp: ae_new_def)
  have m: "m = [(p0 + ae_period ev, ev)]" using assms(3) by (auto simp: eq_insert_def mm_insert_def nat_int_add Let_def)
  have "ae_inv get p0 (p0 + ae_period ev) ev"
    using ae_next_inv(2) [of p0 get ev p0] assms(1) ev by simp
  then show ?thesis unfolding m using ae_first [of p0 get maxRate ev target _ p0 n "[]"] assms(1) ev by simp
qed

theorem adaptive_fires_on_time_witness:
  "\<exists>m'. eq_phases ae_period (ae_note (\<lambda>j. 3 * j)) 2 9 [(6, \<lparr>ae_period = 4, ae_target = 26, ae_maxRate = 5\<rparr>)] [] = Some (m', [9])"
proof -
  have a: "\<forall>j\<ge>2. 3 * Suc j \<le> 3 * j + 5" "ae_new (3 * 2) 26 5 = Some \<lparr>ae_period = 4, ae_target = 26, ae_maxRate = 5\<rparr>"
    "eq_insert ae_period 2 \<lparr>ae_period = 4, ae_target = 26, ae_maxRate = 5\<rparr> (-1) [] = Some [(6, \<lparr>ae_period = 4, ae_target = 26, ae_maxRate = 5\<rparr>)]"
    by (simp_all add: ae_new_def ae_next_def eq_insert_def mm_insert_def Let_def)
  have l: "(LEAST j::nat. 2 < j \<and> 26 \<le> 3 * j) = 9" by (rule Least_equality) auto
  have "\<exists>j::nat. 2 < j \<and> j < 2 + 9 \<and> 26 \<le> 3 * j" by (rule exI [of _ 9]) simp
  then show ?thesis using adaptive_fires_on_time [of 2 "\<lambda>j. 3 * j", OF a, of 9] l by simp
qed

end
