(* ===== verification/Intrusive_List.thy ===== *)
theory Intrusive_List
  imports Prelude
begin

text \<open>
  The intrusive doubly-linked list of src/src/intrusive_list.h. Nodes and lists are numbers; the
  pointers and the owner that the nodes carry are a store from nodes to their fields, shared by all
  lists. A failed assertion and a null dereference are \<open>None\<close>.
\<close>

record InListNode =
  nd_next :: "nat option"
  nd_prev :: "nat option"
  nd_owner :: "nat option"

type_synonym nodes = "nat \<Rightarrow> InListNode"

definition node_new :: InListNode where
  "node_new = \<lparr>nd_next = None, nd_prev = None, nd_owner = None\<rparr>"

abbreviation upd_next :: "nat \<Rightarrow> nat option \<Rightarrow> nodes \<Rightarrow> nodes" where
  "upd_next x v nd \<equiv> nd(x := (nd x)\<lparr>nd_next := v\<rparr>)"

abbreviation upd_prev :: "nat \<Rightarrow> nat option \<Rightarrow> nodes \<Rightarrow> nodes" where
  "upd_prev x v nd \<equiv> nd(x := (nd x)\<lparr>nd_prev := v\<rparr>)"

section \<open>Nodes\<close>

definition nd_unlink :: "nat \<Rightarrow> nat \<Rightarrow> nodes \<Rightarrow> nodes option" where
  "nd_unlink lst e nd = do {
     let nxt = nd_next (nd e);
     let prv = nd_prev (nd e);
     let nd1 = (case nxt of Some n \<Rightarrow> upd_prev n prv nd | None \<Rightarrow> nd);
     let nd2 = (case prv of Some p \<Rightarrow> upd_next p nxt nd1 | None \<Rightarrow> nd1);
     assert_that (nd_owner (nd2 e) = Some lst);
     Some (nd2(e := node_new))
   }"

definition nd_linkPrev :: "nat \<Rightarrow> nat \<Rightarrow> nat \<Rightarrow> nodes \<Rightarrow> nodes option" where
  "nd_linkPrev e p lst nd = do {
     assert_that (nd_owner (nd e) = None);
     assert_that (nd_prev (nd e) = None \<and> nd_next (nd e) = None);
     nd1 \<leftarrow> (case nd_next (nd p) of
         Some n \<Rightarrow> do {
           assert_that (nd_prev (nd n) = Some p);
           let nda = upd_prev n (Some e) nd;
           Some (upd_next e (nd_next (nda p)) nda)
         }
       | None \<Rightarrow> Some nd);
     let nd2 = upd_next p (Some e) nd1;
     Some (nd2(e := (nd2 e)\<lparr>nd_prev := Some p, nd_owner := Some lst\<rparr>))
   }"

section \<open>Lists\<close>

record InList =
  il_head :: "nat option"
  il_tail :: "nat option"
  il_elems :: nat

definition il_new :: InList where
  "il_new = \<lparr>il_head = None, il_tail = None, il_elems = 0\<rparr>"

definition il_empty :: "InList \<Rightarrow> bool" where
  "il_empty l \<longleftrightarrow> il_head l = None"

definition il_front :: "InList \<Rightarrow> nat option" where
  "il_front l = il_head l"

definition il_back :: "InList \<Rightarrow> nat option" where
  "il_back l = il_tail l"

definition il_push_front :: "nat \<Rightarrow> nat \<Rightarrow> InList \<times> nodes \<Rightarrow> (InList \<times> nodes) option" where
  "il_push_front lst e s = (case s of (l, nd) \<Rightarrow> do {
     assert_that (nd_next (nd e) = None \<and> nd_prev (nd e) = None \<and> nd_owner (nd e) = None);
     (l1, nd1) \<leftarrow> (case il_head l of
         None \<Rightarrow> Some (l\<lparr>il_head := Some e, il_tail := Some e\<rparr>, nd)
       | Some h \<Rightarrow> do {
           assert_that (nd_prev (nd h) = None \<and> nd_owner (nd h) = Some lst);
           let nda = upd_next e (Some h) nd;
           Some (l\<lparr>il_head := Some e\<rparr>, upd_prev h (Some e) nda)
         });
     Some (l1\<lparr>il_elems := il_elems l1 + 1\<rparr>, nd1(e := (nd1 e)\<lparr>nd_owner := Some lst\<rparr>))
   })"

definition il_push_back :: "nat \<Rightarrow> nat \<Rightarrow> InList \<times> nodes \<Rightarrow> (InList \<times> nodes) option" where
  "il_push_back lst e s = (case s of (l, nd) \<Rightarrow> do {
     assert_that (nd_next (nd e) = None \<and> nd_prev (nd e) = None \<and> nd_owner (nd e) = None);
     (l1, nd1) \<leftarrow>
       (if il_empty l then Some (l\<lparr>il_head := Some e, il_tail := Some e\<rparr>, nd(e := (nd e)\<lparr>nd_owner := Some lst\<rparr>))
        else do {
          t \<leftarrow> il_tail l;
          nda \<leftarrow> nd_linkPrev e t lst nd;
          Some (l\<lparr>il_tail := Some e\<rparr>, nda)
        });
     Some (l1\<lparr>il_elems := il_elems l1 + 1\<rparr>, nd1)
   })"

definition il_pop_front :: "nat \<Rightarrow> InList \<times> nodes \<Rightarrow> (InList \<times> nodes) option" where
  "il_pop_front lst s = (case s of (l, nd) \<Rightarrow> (case il_head l of
     None \<Rightarrow> Some (l, nd)
   | Some e \<Rightarrow> do {
       let l1 = l\<lparr>il_head := nd_next (nd e)\<rparr>;
       nd1 \<leftarrow> nd_unlink lst e nd;
       let l2 = (if il_head l1 = None then l1\<lparr>il_tail := None\<rparr> else l1);
       Some (l2\<lparr>il_elems := il_elems l2 - 1\<rparr>, nd1)
     }))"

definition il_pop_back :: "nat \<Rightarrow> InList \<times> nodes \<Rightarrow> (InList \<times> nodes) option" where
  "il_pop_back lst s = (case s of (l, nd) \<Rightarrow>
     (if il_empty l then Some (l, nd)
      else do {
        e \<leftarrow> il_tail l;
        let l1 = l\<lparr>il_tail := nd_prev (nd e)\<rparr>;
        nd1 \<leftarrow> nd_unlink lst e nd;
        let l2 = (if il_tail l1 = None then l1\<lparr>il_head := None\<rparr> else l1);
        Some (l2\<lparr>il_elems := il_elems l2 - 1\<rparr>, nd1)
      }))"

definition il_remove :: "nat \<Rightarrow> nat \<Rightarrow> InList \<times> nodes \<Rightarrow> (InList \<times> nodes) option" where
  "il_remove lst e s = (case s of (l, nd) \<Rightarrow> do {
     let l1 = (if il_head l = Some e then l\<lparr>il_head := nd_next (nd e)\<rparr> else l);
     let l2 = (if il_tail l1 = Some e then l1\<lparr>il_tail := nd_prev (nd e)\<rparr> else l1);
     nd1 \<leftarrow> nd_unlink lst e nd;
     Some (l2\<lparr>il_elems := il_elems l2 - 1\<rparr>, nd1)
   })"

definition il_insertAfter :: "nat \<Rightarrow> nat \<Rightarrow> nat \<Rightarrow> InList \<times> nodes \<Rightarrow> (InList \<times> nodes) option" where
  "il_insertAfter lst prv e s = (case s of (l, nd) \<Rightarrow> do {
     assert_that (nd_owner (nd e) = None);
     assert_that (nd_owner (nd prv) = Some lst);
     nd1 \<leftarrow> nd_linkPrev e prv lst nd;
     let l1 = (if il_tail l = Some prv then l\<lparr>il_tail := Some e\<rparr> else l);
     Some (l1\<lparr>il_elems := il_elems l1 + 1\<rparr>, nd1)
   })"

definition il_size :: "InList \<Rightarrow> nat" where
  "il_size l = il_elems l"

section \<open>The list a store represents\<close>

fun first_of :: "nat list \<Rightarrow> nat option \<Rightarrow> nat option" where
  "first_of [] nx = nx"
| "first_of (x # xs) nx = Some x"

definition last_of :: "nat option \<Rightarrow> nat list \<Rightarrow> nat option" where
  "last_of pv xs = (if xs = [] then pv else Some (last xs))"

text \<open>A segment between the pointers \<open>pv\<close> and \<open>nx\<close>.\<close>

fun seg :: "nat \<Rightarrow> nodes \<Rightarrow> nat option \<Rightarrow> nat list \<Rightarrow> nat option \<Rightarrow> bool" where
  "seg lst nd pv [] nx \<longleftrightarrow> True"
| "seg lst nd pv (x # xs) nx \<longleftrightarrow>
     nd x = \<lparr>nd_next = first_of xs nx, nd_prev = pv, nd_owner = Some lst\<rparr> \<and> seg lst nd (Some x) xs nx"

text \<open>
  The list number \<open>lst\<close> represents \<open>xs\<close>. It owns exactly the nodes of \<open>xs\<close>, and nodes without an
  owner are not linked.
\<close>

definition represents :: "nat \<Rightarrow> InList \<times> nodes \<Rightarrow> nat list \<Rightarrow> bool" where
  "represents lst s xs \<longleftrightarrow> (case s of (l, nd) \<Rightarrow> distinct xs \<and> seg lst nd None xs None \<and>
     il_head l = first_of xs None \<and> il_tail l = last_of None xs \<and> il_elems l = length xs \<and>
     (\<forall>x. nd_owner (nd x) = Some lst \<longleftrightarrow> x \<in> set xs))"

definition free_ok :: "nodes \<Rightarrow> bool" where
  "free_ok nd \<longleftrightarrow> (\<forall>x. nd_owner (nd x) = None \<longrightarrow> nd x = node_new)"

lemma first_append: "first_of (xs @ ys) nx = first_of xs (first_of ys nx)"
  by (cases xs) auto

lemma seg_append: "seg lst nd pv (xs @ ys) nx \<longleftrightarrow> seg lst nd pv xs (first_of ys nx) \<and> seg lst nd (last_of pv xs) ys nx"
  by (induction xs arbitrary: pv) (auto simp: first_append last_of_def)

lemma seg_frame [simp]: "x \<notin> set xs \<Longrightarrow> seg lst (nd(x := n)) pv xs nx = seg lst nd pv xs nx"
  by (induction xs arbitrary: pv) auto

lemma seg_set_next:
  assumes "seg lst nd pv xs nx" "distinct xs" "xs \<noteq> []"
  shows "seg lst (upd_next (last xs) nx' nd) pv xs nx'"
  using assms
proof (induction xs arbitrary: pv)
  case (Cons x xs)
  then show ?case by (cases xs) auto
qed simp

lemma seg_set_prev:
  assumes "seg lst nd pv (x # xs) nx" "x \<notin> set xs"
  shows "seg lst (upd_prev x pv' nd) pv' (x # xs) nx"
  using assms by simp

lemma seg_owner: "seg lst nd pv xs nx \<Longrightarrow> x \<in> set xs \<Longrightarrow> nd_owner (nd x) = Some lst"
  by (induction xs arbitrary: pv) auto

text \<open>Unlinking the node between two segments joins them.\<close>

lemma unlink_ok:
  assumes s: "seg lst nd None (xs @ x # ys) None" and d: "distinct (xs @ x # ys)"
  shows "\<exists>nd'. nd_unlink lst x nd = Some nd' \<and> seg lst nd' None (xs @ ys) None \<and> nd' x = node_new \<and>
    (\<forall>y. y \<notin> set (xs @ x # ys) \<longrightarrow> nd' y = nd y)"
proof -
  have x: "nd x = \<lparr>nd_next = first_of ys None, nd_prev = last_of None xs, nd_owner = Some lst\<rparr>"
    and sx: "seg lst nd None xs (Some x)" and sy: "seg lst nd (Some x) ys None"
    using s by (auto simp: seg_append)
  let ?nd1 = "case first_of ys None of Some n \<Rightarrow> upd_prev n (last_of None xs) nd | None \<Rightarrow> nd"
  let ?nd2 = "case last_of None xs of Some p \<Rightarrow> upd_next p (first_of ys None) ?nd1 | None \<Rightarrow> ?nd1"
  have y1: "seg lst ?nd1 (last_of None xs) ys None" using sy d by (cases ys) (auto simp: seg_set_prev)
  have x1: "seg lst ?nd1 None xs (Some x)" using sx d by (cases ys) auto
  have x2: "seg lst ?nd2 None xs (first_of ys None)"
    using seg_set_next [OF x1] d by (cases "xs = []") (auto simp: last_of_def)
  have y2: "seg lst ?nd2 (last_of None xs) ys None"
  proof (cases "xs = []")
    case False
    then have "last xs \<notin> set ys" using d last_in_set [OF False] by (auto dest: disjoint_iff [THEN iffD1])
    then show ?thesis using y1 False by (simp add: last_of_def)
  qed (use y1 in \<open>simp add: last_of_def\<close>)
  have o: "nd_owner (?nd2 x) = Some lst"
    using x d last_in_set [of xs] by (cases ys; cases "xs = []") (auto simp: last_of_def)
  have e: "?nd2 y = nd y" if "y \<notin> set (xs @ x # ys)" for y
    using that last_in_set [of xs] by (cases ys; cases "xs = []") (auto simp: last_of_def)
  have "nd_unlink lst x nd = Some (?nd2(x := node_new))" using o by (simp add: nd_unlink_def x Let_def)
  moreover have "seg lst (?nd2(x := node_new)) None (xs @ ys) None" using x2 y2 d by (simp add: seg_append)
  ultimately show ?thesis using e by auto
qed

lemma linkPrev_ok:
  assumes s: "seg lst nd None (xs @ ys) None" and d: "distinct (xs @ ys)" and e: "nd e = node_new" "e \<notin> set (xs @ ys)" and ne: "xs \<noteq> []"
  shows "\<exists>nd'. nd_linkPrev e (last xs) lst nd = Some nd' \<and> seg lst nd' None (xs @ e # ys) None \<and>
    (\<forall>y. y \<notin> set (xs @ e # ys) \<longrightarrow> nd' y = nd y)"
proof -
  let ?p = "last xs"
  have sx: "seg lst nd None xs (first_of ys None)" and sy: "seg lst nd (Some ?p) ys None" using s ne by (auto simp: seg_append last_of_def)
  have p: "?p \<in> set xs" "?p \<noteq> e" "?p \<notin> set ys" using ne e d by (auto dest: disjoint_iff [THEN iffD1])
  have n: "nd_next (nd ?p) = first_of ys None"
    using sx ne by (induction xs arbitrary: pv rule: rev_induct) (auto simp: seg_append)
  let ?nd1 = "case first_of ys None of Some n \<Rightarrow> (let nda = upd_prev n (Some e) nd in upd_next e (nd_next (nda ?p)) nda) | None \<Rightarrow> nd"
  let ?nd' = "(upd_next ?p (Some e) ?nd1)(e := (upd_next ?p (Some e) ?nd1 e)\<lparr>nd_prev := Some ?p, nd_owner := Some lst\<rparr>)"
  have "nd_linkPrev e ?p lst nd = Some ?nd'"
  proof (cases ys)
    case Nil
    then show ?thesis using n e by (simp add: nd_linkPrev_def node_new_def)
  next
    case (Cons y zs)
    then have "nd_prev (nd y) = Some ?p" using sy by simp
    then show ?thesis using n e Cons by (simp add: nd_linkPrev_def node_new_def Let_def)
  qed
  moreover have "seg lst ?nd' None xs (Some e)"
  proof -
    have "seg lst ?nd1 None xs (first_of ys None)" using sx d e by (cases ys) (auto simp: Let_def)
    then have "seg lst (upd_next ?p (Some e) ?nd1) None xs (Some e)" using seg_set_next d ne by fastforce
    then show ?thesis using e by simp
  qed
  moreover have "seg lst ?nd' (Some e) ys None" "nd_next (?nd' e) = first_of ys None"
    using sy d e p n by (cases ys; auto simp: Let_def node_new_def)+
  moreover have "?nd' y = nd y" if "y \<notin> set (xs @ e # ys)" for y using that p by (cases ys) (auto simp: Let_def)
  ultimately show ?thesis using ne by (auto simp: seg_append last_of_def)
qed

section \<open>Refinement of list operations\<close>

text \<open>Other lists and the free nodes are not disturbed.\<close>

definition others :: "nat \<Rightarrow> nodes \<Rightarrow> nodes \<Rightarrow> bool" where
  "others lst nd nd' \<longleftrightarrow> (\<forall>x. nd_owner (nd x) \<noteq> Some lst \<longrightarrow> nd_owner (nd' x) \<noteq> Some lst \<longrightarrow> nd' x = nd x)"

definition refines_to :: "nat \<Rightarrow> nodes \<Rightarrow> (InList \<times> nodes) option \<Rightarrow> nat list \<Rightarrow> bool" where
  "refines_to lst nd r xs \<longleftrightarrow> (\<exists>l' nd'. r = Some (l', nd') \<and> represents lst (l', nd') xs \<and> free_ok nd' \<and> others lst nd nd')"

lemma refinesI:
  assumes "r = Some (l', nd')" "distinct xs'" "seg lst nd' None xs' None" "il_head l' = first_of xs' None" "il_tail l' = last_of None xs'"
    "il_elems l' = length xs'" and o: "\<forall>x. nd_owner (nd x) = Some lst \<longrightarrow> x \<in> U" and U: "set xs' \<subseteq> U"
    and u: "\<forall>y\<in>U. nd_owner (nd y) = Some lst \<or> nd y = node_new" and n: "\<forall>y. y \<notin> U \<longrightarrow> nd' y = nd y" "\<forall>y\<in>U. y \<notin> set xs' \<longrightarrow> nd' y = node_new" and f: "free_ok nd"
  shows "refines_to lst nd r xs'"
proof -
  have w: "nd_owner (nd' x) = Some lst \<longleftrightarrow> x \<in> set xs'" for x
    using seg_owner [OF assms(3)] o U n by (cases "x \<in> set xs'"; cases "x \<in> U") (auto simp: node_new_def)
  moreover have "free_ok nd'"
    using f n seg_owner [OF assms(3)] unfolding free_ok_def by (metis option.distinct(1))
  moreover have "others lst nd nd'"
    unfolding others_def
  proof (intro allI impI)
    fix x assume x: "nd_owner (nd x) \<noteq> Some lst" "nd_owner (nd' x) \<noteq> Some lst"
    show "nd' x = nd x"
      using x n w u by metis
  qed
  ultimately show ?thesis using assms unfolding refines_to_def represents_def by auto
qed

lemma representsD:
  assumes "represents lst (l, nd) xs"
  shows "distinct xs" "seg lst nd None xs None" "il_head l = first_of xs None" "il_tail l = last_of None xs" "il_elems l = length xs"
    "\<And>x. nd_owner (nd x) = Some lst \<longleftrightarrow> x \<in> set xs"
  using assms by (auto simp: represents_def)

lemma remove_ok:
  assumes r: "represents lst (l, nd) (xs @ x # ys)" and f: "free_ok nd"
  shows "refines_to lst nd (il_remove lst x (l, nd)) (xs @ ys)"
proof -
  note d = representsD [OF r]
  obtain nd' where u: "nd_unlink lst x nd = Some nd'" "seg lst nd' None (xs @ ys) None" "nd' x = node_new"
    "\<forall>y. y \<notin> set (xs @ x # ys) \<longrightarrow> nd' y = nd y"
    using unlink_ok [OF d(2,1)] by blast
  have x: "nd_next (nd x) = first_of ys None" "nd_prev (nd x) = last_of None xs" using d(2) by (auto simp: seg_append)
  have h: "il_head l = Some x \<longleftrightarrow> xs = []" using d(1,3) by (cases xs) auto
  have t: "il_tail l = Some x \<longleftrightarrow> ys = []" using d(1,4) last_in_set [of ys] by (auto simp: last_of_def)
  let ?l = "\<lparr>il_head = first_of (xs @ ys) None, il_tail = last_of None (xs @ ys), il_elems = length (xs @ ys)\<rparr>"
  have "il_remove lst x (l, nd) = Some (?l, nd')"
    using u(1) x h t d(3-5) by (cases l; cases xs; cases ys) (auto simp: il_remove_def Let_def last_of_def)
  then show ?thesis
    by (rule refinesI [where U = "set (xs @ x # ys)"]) (use d u f in auto)
qed

lemma push_front_ok:
  assumes r: "represents lst (l, nd) xs" and f: "free_ok nd" and e: "nd_owner (nd e) = None"
  shows "refines_to lst nd (il_push_front lst e (l, nd)) (e # xs)"
proof -
  note d = representsD [OF r]
  have n: "nd e = node_new" "e \<notin> set xs" using f e d(6) [of e] by (auto simp: free_ok_def)
  let ?l = "\<lparr>il_head = Some e, il_tail = last_of None (e # xs), il_elems = length (e # xs)\<rparr>"
  let ?nd = "(case xs of [] \<Rightarrow> nd | h # _ \<Rightarrow> upd_prev h (Some e) (upd_next e (Some h) nd))"
  let ?nd' = "?nd(e := (?nd e)\<lparr>nd_owner := Some lst\<rparr>)"
  have p: "il_push_front lst e (l, nd) = Some (?l, ?nd')"
    using n d by (cases l; cases xs) (auto simp: il_push_front_def node_new_def last_of_def Let_def)
  have "seg lst ?nd' None (e # xs) None" using n d(1,2) by (cases xs) (auto simp: node_new_def)
  then show ?thesis
    by (intro refinesI [OF p, where U = "set (e # xs)"]) (use d n f in \<open>auto split: list.splits\<close>)
qed

lemma insertAfter_ok:
  assumes r: "represents lst (l, nd) (xs @ ys)" and ne: "xs \<noteq> []" and f: "free_ok nd" and e: "nd_owner (nd e) = None"
  shows "refines_to lst nd (il_insertAfter lst (last xs) e (l, nd)) (xs @ e # ys)"
proof -
  note d = representsD [OF r]
  have n: "nd e = node_new" "e \<notin> set (xs @ ys)" using f e d(6) [of e] by (auto simp: free_ok_def)
  obtain nd' where u: "nd_linkPrev e (last xs) lst nd = Some nd'" "seg lst nd' None (xs @ e # ys) None"
    "\<forall>y. y \<notin> set (xs @ e # ys) \<longrightarrow> nd' y = nd y"
    using linkPrev_ok [OF d(2,1) n ne] by blast
  let ?l = "\<lparr>il_head = first_of (xs @ e # ys) None, il_tail = last_of None (xs @ e # ys), il_elems = length (xs @ e # ys)\<rparr>"
  have "nd_owner (nd (last xs)) = Some lst" using d(6) ne by simp
  moreover have "last ys \<noteq> last xs" if "ys \<noteq> []"
    using d(1) last_in_set [OF ne] last_in_set [OF that] by (metis disjoint_iff distinct_append)
  then have "il_tail l = Some (last xs) \<longleftrightarrow> ys = []" using d(4) ne by (cases "ys = []") (auto simp: last_of_def)
  ultimately have "il_insertAfter lst (last xs) e (l, nd) = Some (?l, nd')"
    using u(1) d(3-5) n ne by (cases l; cases xs) (auto simp: il_insertAfter_def Let_def last_of_def node_new_def)
  then show ?thesis
    by (rule refinesI [where U = "set (xs @ e # ys)"]) (use d u n f in auto)
qed

lemma push_back_ok:
  assumes r: "represents lst (l, nd) xs" and f: "free_ok nd" and e: "nd_owner (nd e) = None"
  shows "refines_to lst nd (il_push_back lst e (l, nd)) (xs @ [e])"
proof -
  note d = representsD [OF r]
  have n: "nd e = node_new" "e \<notin> set xs" using f e d(6) [of e] by (auto simp: free_ok_def)
  show ?thesis
  proof (cases "xs = []")
    case True
    have "il_push_back lst e (l, nd) = Some (\<lparr>il_head = Some e, il_tail = Some e, il_elems = 1\<rparr>, nd(e := (nd e)\<lparr>nd_owner := Some lst\<rparr>))"
      using n d True by (cases l) (auto simp: il_push_back_def il_empty_def node_new_def)
    then show ?thesis
      by (rule refinesI [where U = "{e}"]) (use d n f True in \<open>auto simp: node_new_def last_of_def\<close>)
  next
    case False
    have "il_push_back lst e (l, nd) = il_insertAfter lst (last xs) e (l, nd)"
      using n d False by (cases xs) (auto simp: il_push_back_def il_insertAfter_def il_empty_def node_new_def last_of_def Let_def split: option.splits)
    then show ?thesis using insertAfter_ok [of lst l nd xs "[]" e] r f e False by simp
  qed
qed

lemma il_swap: "l\<lparr>il_tail := a, il_head := b\<rparr> = l\<lparr>il_head := b, il_tail := a\<rparr>"
  by (cases l) simp

lemma pop_ok:
  assumes r: "represents lst (l, nd) xs" and f: "free_ok nd"
  shows "refines_to lst nd (il_pop_front lst (l, nd)) (tl xs)" "refines_to lst nd (il_pop_back lst (l, nd)) (butlast xs)"
proof -
  note d = representsD [OF r]
  show "refines_to lst nd (il_pop_front lst (l, nd)) (tl xs)"
  proof (cases xs)
    case Nil
    then show ?thesis using r f d(3) by (simp add: il_pop_front_def refines_to_def others_def)
  next
    case (Cons x ys)
    have "il_pop_front lst (l, nd) = il_remove lst x (l, nd)"
      using d Cons last_in_set [of ys] by (cases ys) (auto simp: il_pop_front_def il_remove_def last_of_def Let_def)
    then show ?thesis using remove_ok [of lst l nd "[]" x ys] r f Cons by simp
  qed
  show "refines_to lst nd (il_pop_back lst (l, nd)) (butlast xs)"
  proof (cases xs rule: rev_cases)
    case Nil
    then show ?thesis using r f d(3) by (simp add: il_pop_back_def il_empty_def refines_to_def others_def)
  next
    case (snoc ys x)
    have "il_pop_back lst (l, nd) = il_remove lst x (l, nd)"
      using d snoc by (cases l; cases ys) (auto simp: il_pop_back_def il_remove_def il_empty_def seg_append last_of_def Let_def il_swap)
    then show ?thesis using remove_ok [of lst l nd ys x "[]"] r f snoc by simp
  qed
qed

section \<open>Properties\<close>

text \<open>The abstract operations and their list functions.\<close>

datatype list_op = PushFront nat | PushBack nat | PopFront | PopBack | Remove nat | InsertAfter nat nat

fun op_run :: "nat \<Rightarrow> list_op \<Rightarrow> InList \<times> nodes \<Rightarrow> (InList \<times> nodes) option" where
  "op_run lst (PushFront e) s = il_push_front lst e s"
| "op_run lst (PushBack e) s = il_push_back lst e s"
| "op_run lst PopFront s = il_pop_front lst s"
| "op_run lst PopBack s = il_pop_back lst s"
| "op_run lst (Remove e) s = il_remove lst e s"
| "op_run lst (InsertAfter p e) s = il_insertAfter lst p e s"

fun op_list :: "list_op \<Rightarrow> nat list \<Rightarrow> nat list" where
  "op_list (PushFront e) xs = e # xs"
| "op_list (PushBack e) xs = xs @ [e]"
| "op_list PopFront xs = tl xs"
| "op_list PopBack xs = butlast xs"
| "op_list (Remove e) xs = remove1 e xs"
| "op_list (InsertAfter p e) xs = takeWhile (\<lambda>x. x \<noteq> p) xs @ p # e # tl (dropWhile (\<lambda>x. x \<noteq> p) xs)"

text \<open>New elements have no owner; the others are in the list.\<close>

fun op_legal :: "list_op \<Rightarrow> nat list \<Rightarrow> nodes \<Rightarrow> bool" where
  "op_legal (PushFront e) xs nd = (nd_owner (nd e) = None)"
| "op_legal (PushBack e) xs nd = (nd_owner (nd e) = None)"
| "op_legal (Remove e) xs nd = (e \<in> set xs)"
| "op_legal (InsertAfter p e) xs nd = (p \<in> set xs \<and> nd_owner (nd e) = None)"
| "op_legal _ xs nd = True"

text \<open>
  C30: Every operation of the intrusive list does to the pointers what its list function does to the
  list: on a list that represents \<open>xs\<close> it succeeds, no assertion fails, the result represents the new
  list, and the nodes of all other lists keep their pointers.
\<close>

theorem inlist_refines:
  assumes "represents lst (l, nd) xs" "free_ok nd" "op_legal opn xs nd"
  shows "\<exists>l' nd'. op_run lst opn (l, nd) = Some (l', nd') \<and> represents lst (l', nd') (op_list opn xs) \<and> free_ok nd' \<and> others lst nd nd'"
proof -
  have "refines_to lst nd (op_run lst opn (l, nd)) (op_list opn xs)"
  proof (cases opn)
    case (Remove e)
    then obtain ys zs where x: "xs = ys @ e # zs" "e \<notin> set ys" using assms(3) by (auto dest: split_list_first)
    then show ?thesis using remove_ok [of lst l nd ys e zs] assms Remove by (simp add: remove1_append)
  next
    case (InsertAfter p e)
    then obtain ys zs where x: "xs = ys @ p # zs" "p \<notin> set ys" using assms(3) by (auto dest: split_list_first)
    then have "takeWhile (\<lambda>x. x \<noteq> p) xs = ys" "dropWhile (\<lambda>x. x \<noteq> p) xs = p # zs"
      by (auto simp: takeWhile_append dropWhile_append)
    then show ?thesis using insertAfter_ok [of lst l nd "ys @ [p]" zs e] assms InsertAfter x by simp
  qed (use assms push_front_ok push_back_ok pop_ok in auto)
  then show ?thesis unfolding refines_to_def .
qed

theorem inlist_refines_witness:
  "\<exists>l nd. il_push_front 3 7 (il_new, \<lambda>_. node_new) = Some (l, nd) \<and> represents 3 (l, nd) [7]"
proof -
  have "represents 3 (il_new, \<lambda>_. node_new) []" "free_ok (\<lambda>_. node_new)" "op_legal (PushFront 7) [] (\<lambda>_. node_new)"
    by (simp_all add: represents_def free_ok_def il_new_def node_new_def last_of_def)
  from inlist_refines [OF this] show ?thesis by auto
qed

end
