(* ===== verification/Ideal_Arrays.thy ===== *)
theory Ideal_Arrays
  imports Intrusive_List Cache_Arrays
begin

text \<open>
  The fully associative array with LRU replacement of src/src/ideal_arrays.h (\<open>IdealLRUArray\<close>): a
  hash map from addresses to lines and an intrusive list of the lines, most recently used first. The
  node of line \<open>i\<close> is the number \<open>i\<close>; the list of the array has number 0.
\<close>

section \<open>Definitions\<close>

record IdealLRUArray =
  ia_lineAddr :: "nat \<Rightarrow> Address"
  ia_lruList :: InList
  ia_nodes :: nodes
  ia_lineMap :: "Address \<rightharpoonup> nat"
  ia_numLines :: nat

text \<open>The loop of the constructor pushes every line to the front.\<close>

fun ia_push_all :: "nat list \<Rightarrow> InList \<times> nodes \<Rightarrow> (InList \<times> nodes) option" where
  "ia_push_all [] s = Some s"
| "ia_push_all (i # is) s = do { s' \<leftarrow> il_push_front 0 i s; ia_push_all is s' }"

definition ia_new :: "nat \<Rightarrow> IdealLRUArray option" where
  "ia_new numLines = do {
     (l, nd) \<leftarrow> ia_push_all [0..<numLines] (il_new, \<lambda>_. node_new);
     Some \<lparr>ia_lineAddr = (\<lambda>_. 0), ia_lruList = l, ia_nodes = nd, ia_lineMap = Map.empty, ia_numLines = numLines\<rparr>
   }"

definition ia_to_front :: "nat \<Rightarrow> IdealLRUArray \<Rightarrow> IdealLRUArray option" where
  "ia_to_front i a = do {
     s1 \<leftarrow> il_remove 0 i (ia_lruList a, ia_nodes a);
     (l, nd) \<leftarrow> il_push_front 0 i s1;
     Some (a\<lparr>ia_lruList := l, ia_nodes := nd\<rparr>)
   }"

definition ia_lookup :: "Address \<Rightarrow> bool \<Rightarrow> IdealLRUArray \<Rightarrow> (nat option \<times> IdealLRUArray) option" where
  "ia_lookup lineAddr updateReplacement a = (case ia_lineMap a lineAddr of
     None \<Rightarrow> Some (None, a)
   | Some lineId \<Rightarrow>
       if updateReplacement then do { a' \<leftarrow> ia_to_front lineId a; Some (Some lineId, a') } else Some (Some lineId, a))"

definition ia_preinsert :: "IdealLRUArray \<Rightarrow> ((nat \<times> Address) \<times> IdealLRUArray) option" where
  "ia_preinsert a = do { e \<leftarrow> il_back (ia_lruList a); Some ((e, ia_lineAddr a e), a) }"

definition ia_postinsert :: "Address \<Rightarrow> nat \<Rightarrow> IdealLRUArray \<Rightarrow> IdealLRUArray option" where
  "ia_postinsert lineAddr lineId a = do {
     let m = (ia_lineMap a)(ia_lineAddr a lineId := None);
     assert_that (m lineAddr = None);
     ia_to_front lineId (a\<lparr>ia_lineAddr := (ia_lineAddr a)(lineId := lineAddr), ia_lineMap := m(lineAddr \<mapsto> lineId)\<rparr>)
   }"

definition ia_ops :: "IdealLRUArray CacheArray" where
  "ia_ops = \<lparr>ca_lookup = (\<lambda>L _ upd a. ia_lookup L upd a), ca_preinsert = (\<lambda>_ _ _ _ a. ia_preinsert a),
     ca_postinsert = (\<lambda>L _ c a. ia_postinsert L c a)\<rparr>"

section \<open>Invariant\<close>

text \<open>The lines are in the order \<open>xs\<close>, and the map knows exactly the valid tags.\<close>

definition ia_rep :: "nat \<Rightarrow> IdealLRUArray \<Rightarrow> nat list \<Rightarrow> bool" where
  "ia_rep n a xs \<longleftrightarrow> represents 0 (ia_lruList a, ia_nodes a) xs \<and> free_ok (ia_nodes a) \<and> set xs = {..<n} \<and>
     (\<forall>L i. ia_lineMap a L = Some i \<longleftrightarrow> L \<noteq> 0 \<and> i < n \<and> ia_lineAddr a i = L)"

lemma remove_node:
  assumes "il_remove lst e (l, nd) = Some (l', nd')"
  shows "nd' e = node_new"
  using assms by (auto simp: il_remove_def nd_unlink_def Let_def assert_that_def split: if_splits option.splits Option.bind_splits)

lemma ia_to_front_ok:
  assumes r: "represents 0 (ia_lruList a, ia_nodes a) xs" and f: "free_ok (ia_nodes a)" and i: "i \<in> set xs"
  obtains l nd where "ia_to_front i a = Some (a\<lparr>ia_lruList := l, ia_nodes := nd\<rparr>)" "represents 0 (l, nd) (i # remove1 i xs)" "free_ok nd"
proof -
  obtain ys zs where x: "xs = ys @ i # zs" "i \<notin> set ys" using i by (auto dest: split_list_first)
  obtain l1 nd1 where r1: "il_remove 0 i (ia_lruList a, ia_nodes a) = Some (l1, nd1)" "represents 0 (l1, nd1) (remove1 i xs)" "free_ok nd1"
    using remove_ok [of 0 "ia_lruList a" "ia_nodes a" ys i zs] r f x by (auto simp: refines_to_def remove1_append)
  have "nd_owner (nd1 i) = None" using remove_node [OF r1(1)] by (simp add: node_new_def)
  then obtain l nd where "il_push_front 0 i (l1, nd1) = Some (l, nd)" "represents 0 (l, nd) (i # remove1 i xs)" "free_ok nd"
    using push_front_ok [OF r1(2,3), of i] by (auto simp: refines_to_def)
  then show ?thesis using that r1(1) by (simp add: ia_to_front_def)
qed

lemma ia_to_front_rep:
  assumes "ia_rep n a xs" "i < n"
  obtains a' where "ia_to_front i a = Some a'" "ia_rep n a' (i # remove1 i xs)" "ia_lineAddr a' = ia_lineAddr a"
proof -
  have x: "i \<in> set xs" "distinct xs" using assms by (auto simp: ia_rep_def represents_def)
  obtain l nd where t: "ia_to_front i a = Some (a\<lparr>ia_lruList := l, ia_nodes := nd\<rparr>)" "represents 0 (l, nd) (i # remove1 i xs)" "free_ok nd"
    by (rule ia_to_front_ok [of a xs i]) (use assms x in \<open>simp_all add: ia_rep_def\<close>)
  show ?thesis
    by (rule that [OF t(1)]) (use assms x t in \<open>auto simp: ia_rep_def\<close>)
qed

lemma ia_push_all_ok:
  assumes "represents 0 (l, nd) xs" "free_ok nd" "distinct is" "\<forall>i\<in>set is. nd_owner (nd i) = None"
  shows "\<exists>l' nd'. ia_push_all is (l, nd) = Some (l', nd') \<and> represents 0 (l', nd') (rev is @ xs) \<and> free_ok nd'"
  using assms
proof (induction "is" arbitrary: l nd xs)
  case (Cons i js)
  obtain l1 nd1 where p: "il_push_front 0 i (l, nd) = Some (l1, nd1)" "represents 0 (l1, nd1) (i # xs)" "free_ok nd1" "others 0 nd nd1"
    using push_front_ok [OF Cons.prems(1,2), of i] Cons.prems by (auto simp: refines_to_def)
  have "nd_owner (nd1 j) = None" if "j \<in> set js" for j
  proof -
    have "j \<notin> set (i # xs)" using that Cons.prems representsD(6) [OF Cons.prems(1), of j] by auto
    then have "nd_owner (nd1 j) \<noteq> Some 0" "nd_owner (nd j) = None" using representsD(6) [OF p(2), of j] that Cons.prems by auto
    then show ?thesis using p(4) [unfolded others_def, rule_format, of j] by simp
  qed
  then show ?case using Cons.IH [OF p(2,3)] Cons.prems p(1) by auto
qed auto

lemma ia_new_ok: "\<exists>a. ia_new n = Some a \<and> ia_rep n a (rev [0..<n]) \<and> ia_lineAddr a = (\<lambda>_. 0)"
proof -
  have "represents 0 (il_new, \<lambda>_. node_new) []" "free_ok (\<lambda>_. node_new)"
    by (auto simp: represents_def il_new_def free_ok_def node_new_def last_of_def)
  then obtain l nd where "ia_push_all [0..<n] (il_new, \<lambda>_. node_new) = Some (l, nd)" "represents 0 (l, nd) (rev [0..<n])" "free_ok nd"
    using ia_push_all_ok [of il_new "\<lambda>_. node_new" "[]" "[0..<n]"] by (auto simp: node_new_def)
  then show ?thesis by (auto simp: ia_new_def ia_rep_def)
qed

section \<open>The contract\<close>

definition ia_inv :: "nat \<Rightarrow> IdealLRUArray \<Rightarrow> bool" where
  "ia_inv n a \<longleftrightarrow> 0 < n \<and> (\<exists>xs. ia_rep n a xs)"

definition ia_pend :: "nat \<Rightarrow> Address \<Rightarrow> nat \<Rightarrow> IdealLRUArray \<Rightarrow> bool" where
  "ia_pend n L c a \<longleftrightarrow> ia_inv n a \<and> c < n \<and> ia_lineMap a L = None"

lemma ia_lookup_ok:
  assumes "ia_rep n a xs"
  obtains "ia_lineMap a L = None" "ia_lookup L upd a = Some (None, a)"
  | i a' ys where "ia_lineMap a L = Some i" "i < n" "ia_lookup L upd a = Some (Some i, a')" "ia_rep n a' ys" "ia_lineAddr a' = ia_lineAddr a"
      "ys = (if upd then i # remove1 i xs else xs)" "\<not> upd \<Longrightarrow> a' = a"
proof (cases "ia_lineMap a L")
  case (Some i)
  then have i: "i < n" using assms by (auto simp: ia_rep_def)
  show ?thesis
  proof (cases upd)
    case True
    obtain a' where "ia_to_front i a = Some a'" "ia_rep n a' (i # remove1 i xs)" "ia_lineAddr a' = ia_lineAddr a"
      using ia_to_front_rep [OF assms i] by blast
    then show ?thesis using that(2) [OF Some i, of a'] True Some by (simp add: ia_lookup_def)
  next
    case False then show ?thesis using that(2) [OF Some i, of a] assms Some by (simp add: ia_lookup_def)
  qed
qed (use that in \<open>auto simp: ia_lookup_def\<close>)

lemma ia_back_ok:
  assumes "ia_rep n a xs" "0 < n"
  shows "ia_preinsert a = Some ((last xs, ia_lineAddr a (last xs)), a) \<and> last xs < n"
proof -
  have "xs \<noteq> []" using assms by (auto simp: ia_rep_def)
  then have "il_tail (ia_lruList a) = Some (last xs)" using assms by (auto simp: ia_rep_def represents_def last_of_def)
  then show ?thesis using assms \<open>xs \<noteq> []\<close> by (auto simp: ia_preinsert_def il_back_def ia_rep_def dest: last_in_set)
qed

lemma ia_insert_ok:
  assumes r: "ia_rep n a xs" and i: "i < n" and L: "L \<noteq> 0" "ia_lineMap a L = None"
  obtains a' where "ia_postinsert L i a = Some a'" "ia_rep n a' (i # remove1 i xs)" "ia_lineAddr a' = (ia_lineAddr a)(i := L)"
proof -
  let ?m = "(ia_lineMap a)(ia_lineAddr a i := None)"
  let ?a = "a\<lparr>ia_lineAddr := (ia_lineAddr a)(i := L), ia_lineMap := ?m(L \<mapsto> i)\<rparr>"
  have x: "ia_lineMap a K = Some j \<longleftrightarrow> K \<noteq> 0 \<and> j < n \<and> ia_lineAddr a j = K" for K j using r by (auto simp: ia_rep_def)
  have f: "ia_lineAddr a j \<noteq> L" if "j < n" for j using x [of L j] that L by auto
  have g: "j = i" if "j < n" "ia_lineAddr a j = ia_lineAddr a i" "ia_lineAddr a i \<noteq> 0" for j
    using x [of "ia_lineAddr a i" j] x [of "ia_lineAddr a i" i] that i by auto
  have "(?m(L \<mapsto> i)) K = Some j \<longleftrightarrow> K \<noteq> 0 \<and> j < n \<and> ((ia_lineAddr a)(i := L)) j = K" for K j
    using x [of K j] f [of j] g [of j] L(1) i by (cases "K = L"; cases "j = i"; cases "K = ia_lineAddr a i") auto
  then have "ia_rep n ?a xs" using r by (simp add: ia_rep_def)
  then obtain a' where "ia_to_front i ?a = Some a'" "ia_rep n a' (i # remove1 i xs)" "ia_lineAddr a' = (ia_lineAddr a)(i := L)"
    using ia_to_front_rep [of n ?a xs i] i by auto
  then show ?thesis using that L by (auto simp: ia_postinsert_def Let_def assert_that_def)
qed

interpretation ideal_lru: cache_array ia_ops "ia_inv n" "ia_pend n" ia_lineAddr n for n
proof
  show "\<exists>r. ca_lookup ia_ops L rq False a = Some (r, a)" if "ia_inv n a" for a L rq
    by (auto simp: ia_ops_def ia_lookup_def split: option.splits)
  show "\<exists>r a'. ca_lookup ia_ops L (Some q) True a = Some (r, a') \<and> ia_inv n a' \<and> ia_lineAddr a' = ia_lineAddr a"
    if h: "ia_inv n a" for a L q
  proof -
    obtain xs where x: "ia_rep n a xs" "0 < n" using h by (auto simp: ia_inv_def)
    show ?thesis
    proof (rule ia_lookup_ok [OF x(1), of L True])
      assume "ia_lookup L True a = Some (None, a)"
      then show ?thesis using h by (simp add: ia_ops_def)
    next
      fix i a' ys assume "ia_lookup L True a = Some (Some i, a')" "ia_rep n a' ys" "ia_lineAddr a' = ia_lineAddr a"
      then show ?thesis using x(2) unfolding ia_ops_def ia_inv_def by auto
    qed
  qed
  show "r = Some i \<longleftrightarrow> i < n \<and> ia_lineAddr a i = L" if h: "ia_inv n a" "L \<noteq> 0" "ca_lookup ia_ops L rq upd a = Some (r, a')" for a L rq upd r a' i
  proof -
    have "r = ia_lineMap a L" using h(3) by (auto simp: ia_ops_def ia_lookup_def split: option.splits if_splits Option.bind_splits)
    then show ?thesis using h by (auto simp: ia_inv_def ia_rep_def)
  qed
  show "\<exists>c a'. ca_preinsert ia_ops ns vl L req a = Some ((c, ia_lineAddr a c), a') \<and> c < n \<and> ia_pend n L c a' \<and> ia_lineAddr a' = ia_lineAddr a"
    if h: "ia_inv n a" "L \<noteq> 0" "\<forall>i<n. ia_lineAddr a i \<noteq> L" for a L ns vl req
  proof -
    obtain xs where x: "ia_rep n a xs" "0 < n" using h by (auto simp: ia_inv_def)
    then have "ia_lineMap a L = None" using h by (cases "ia_lineMap a L") (auto simp: ia_rep_def)
    then show ?thesis using ia_back_ok [OF x] h by (auto simp: ia_ops_def ia_pend_def)
  qed
  show "\<exists>a'. ca_postinsert ia_ops L req c a = Some a' \<and> ia_inv n a' \<and> ia_lineAddr a' = (ia_lineAddr a)(c := L)"
    if h: "ia_pend n L c a" "L \<noteq> 0" for L c a req
  proof -
    obtain xs where x: "ia_rep n a xs" "0 < n" using h by (auto simp: ia_inv_def ia_pend_def)
    obtain a' where "ia_postinsert L c a = Some a'" "ia_rep n a' (c # remove1 c xs)" "ia_lineAddr a' = (ia_lineAddr a)(c := L)"
      using ia_insert_ok [OF x(1), of c L] h by (auto simp: ia_pend_def)
    then show ?thesis using x(2) by (auto simp: ia_ops_def ia_inv_def)
  qed
qed

section \<open>The LRU stack\<close>

text \<open>The addresses of the lines in list order, after a run over \<open>Ls\<close>: the latest distinct addresses, then empty lines.\<close>

definition mru :: "Address list \<Rightarrow> Address list" where
  "mru Ls = rev (remdups Ls)"

lemma remdups_snoc: "remdups (Ls @ [L]) = removeAll L (remdups Ls) @ [L]"
  by (induction Ls) auto

lemma mru_snoc: "mru (Ls @ [L]) = L # removeAll L (mru Ls)"
proof -
  have "rev (removeAll L zs) = removeAll L (rev zs)" for zs :: "Address list" by (induction zs) auto
  then show ?thesis by (simp add: mru_def remdups_snoc)
qed

definition lru_stack :: "nat \<Rightarrow> Address list \<Rightarrow> Address list" where
  "lru_stack n Ls = take n (mru Ls @ replicate n 0)"

lemma stack_hit:
  assumes "L \<in> set (lru_stack n Ls)" "L \<noteq> 0"
  shows "lru_stack n (Ls @ [L]) = L # remove1 L (lru_stack n Ls)"
proof -
  have d: "distinct (mru Ls)" by (simp add: mru_def)
  obtain us vs where u: "mru Ls = us @ L # vs" "L \<notin> set us" "L \<notin> set vs" "length us < n"
  proof -
    have "L \<in> set (take n (mru Ls))" using assms by (auto simp: lru_stack_def dest: in_set_takeD)
    then obtain us ws where t: "take n (mru Ls) = us @ L # ws" by (auto dest: split_list)
    then have "mru Ls = us @ L # (ws @ drop n (mru Ls))" using append_take_drop_id [of n "mru Ls"] by simp
    then obtain vs where m: "mru Ls = us @ L # vs" by blast
    have "length us < n" using arg_cong [OF t, of length] by simp
    then show ?thesis using that [OF m] d unfolding m by auto
  qed
  then have "removeAll L (mru Ls) = us @ vs" by simp
  then show ?thesis using u by (cases n) (auto simp: lru_stack_def mru_snoc remove1_append Suc_diff_le)
qed

lemma stack_miss:
  assumes "L \<notin> set (lru_stack n Ls)" "0 < n"
  shows "lru_stack n (Ls @ [L]) = L # butlast (lru_stack n Ls)"
proof -
  have d: "distinct (mru Ls)" by (simp add: mru_def)
  obtain m where n: "n = Suc m" using assms(2) by (cases n) auto
  have t: "L \<notin> set (take n (mru Ls))" using assms by (auto simp: lru_stack_def)
  let ?x = "take n (mru Ls)" and ?y = "drop n (mru Ls)"
  have "removeAll L (mru Ls) = ?x @ removeAll L ?y"
    using t by (metis append_take_drop_id removeAll_append removeAll_id)
  then show ?thesis
    by (cases "n \<le> length (mru Ls)") (auto simp: lru_stack_def mru_snoc n butlast_take take_Suc_conv_app_nth min_def butlast_append)
qed

lemma run_stack:
  assumes "\<forall>L\<in>set Ls. L \<noteq> 0" "0 < n" "ia_rep n a xs" "map (ia_lineAddr a) xs = lru_stack n Ks"
  shows "\<exists>a' ys. ca_run ia_ops ns vl req Ls a = Some a' \<and> ia_rep n a' ys \<and> map (ia_lineAddr a') ys = lru_stack n (Ks @ Ls)"
  using assms
proof (induction Ls arbitrary: a xs Ks)
  case (Cons L Ls)
  note r = Cons.prems(3)
  have L: "L \<noteq> 0" using Cons.prems by simp
  have x: "distinct xs" "set xs = {..<n}" "xs \<noteq> []" using r Cons.prems(2) by (auto simp: ia_rep_def represents_def)
  have m: "L \<in> set (lru_stack n Ks) \<longleftrightarrow> (\<exists>i. ia_lineMap a L = Some i)"
    using r x L unfolding Cons.prems(4) [symmetric] by (auto simp: ia_rep_def)
  obtain a' ys where "ca_touch ia_ops ns vl req L a = Some a'" "ia_rep n a' ys" "map (ia_lineAddr a') ys = lru_stack n (Ks @ [L])"
  proof (rule ia_lookup_ok [OF r, of L True])
    assume l: "ia_lineMap a L = None" "ia_lookup L True a = Some (None, a)"
    have b: "ia_preinsert a = Some ((last xs, ia_lineAddr a (last xs)), a)" "last xs < n" using ia_back_ok [OF r Cons.prems(2)] by auto
    obtain a' where p: "ia_postinsert L (last xs) a = Some a'" "ia_rep n a' (last xs # remove1 (last xs) xs)"
      "ia_lineAddr a' = (ia_lineAddr a)(last xs := L)" using ia_insert_ok [OF r b(2) L l(1)] by blast
    obtain us u where e: "xs = us @ [u]" "u \<notin> set us" using x(1,3) by (cases xs rule: rev_cases) auto
    then have "remove1 (last xs) xs = butlast xs" by (simp add: remove1_append)
    then have "map (ia_lineAddr a') (last xs # remove1 (last xs) xs) = L # butlast (lru_stack n Ks)"
      using e unfolding Cons.prems(4) [symmetric] by (simp add: p(3))
    then show ?thesis using that [OF _ p(2)] l(2) b(1) p(1) m l(1) stack_miss [of L n Ks] Cons.prems(2) by (simp add: ca_touch_def ia_ops_def)
  next
    fix i a' ys assume l: "ia_lineMap a L = Some i" "i < n" "ia_lookup L True a = Some (Some i, a')" "ia_rep n a' ys"
      "ia_lineAddr a' = ia_lineAddr a" "ys = (if True then i # remove1 i xs else xs)"
    have ai: "ia_lineAddr a j = L \<longleftrightarrow> j = i" if "j < n" for j
    proof -
      have "ia_lineMap a L = Some j \<longleftrightarrow> L \<noteq> 0 \<and> j < n \<and> ia_lineAddr a j = L" using r by (simp add: ia_rep_def)
      then show ?thesis using l(1) L that by auto
    qed
    have "map (ia_lineAddr a) (remove1 i zs) = remove1 L (map (ia_lineAddr a) zs)" if "set zs \<subseteq> {..<n}" for zs
      using that ai by (induction zs) (auto simp: eq_commute [of L])
    then have "map (ia_lineAddr a') ys = L # remove1 L (lru_stack n Ks)" using l(2,5,6) ai x Cons.prems(4) by simp
    then show ?thesis using that [OF _ l(4)] l(1,3) m stack_hit [of L n Ks] L by (simp add: ca_touch_def ia_ops_def)
  qed
  then show ?case using Cons.IH [of a' ys "Ks @ [L]"] Cons.prems by auto
qed auto

text \<open>
  C31: A fully associative array of \<open>n\<close> lines with ideal LRU replacement, run from its construction
  over any addresses (a miss evicts the line \<open>preinsert\<close> chooses), never fails an assertion, and
  afterwards a lookup finds an address iff it is one of the \<open>n\<close> most recently used distinct ones.
\<close>

theorem ideal_lru_holds_recent:
  assumes "\<forall>L\<in>set Ls. L \<noteq> 0" "0 < n" "K \<noteq> 0"
  shows "\<exists>a0 a r. ia_new n = Some a0 \<and> ca_run ia_ops ns vl req Ls a0 = Some a \<and> ca_lookup ia_ops K None False a = Some (r, a) \<and>
    ((\<exists>i. r = Some i) \<longleftrightarrow> K \<in> set (take n (rev (remdups Ls))))"
proof -
  obtain a0 where a: "ia_new n = Some a0" "ia_rep n a0 (rev [0..<n])" "ia_lineAddr a0 = (\<lambda>_. 0)" using ia_new_ok by blast
  have "map (ia_lineAddr a0) (rev [0..<n]) = lru_stack n []"
    by (simp add: a(3) lru_stack_def mru_def list_eq_iff_nth_eq rev_nth)
  then obtain a' ys where r: "ca_run ia_ops ns vl req Ls a0 = Some a'" "ia_rep n a' ys" "map (ia_lineAddr a') ys = lru_stack n Ls"
    using run_stack [OF assms(1,2) a(2), where Ks = "[]" and ns = ns and vl = vl and req = req] by auto
  have "(\<exists>i. ia_lineMap a' K = Some i) \<longleftrightarrow> K \<in> set (map (ia_lineAddr a') ys)" using r(2) assms(3) by (auto simp: ia_rep_def)
  also have "\<dots> \<longleftrightarrow> K \<in> set (take n (rev (remdups Ls)))" unfolding r(3) using assms(3) by (auto simp: lru_stack_def mru_def dest: in_set_takeD)
  finally show ?thesis using a(1) r(1) by (cases "ia_lineMap a' K") (auto simp: ia_ops_def ia_lookup_def)
qed

theorem ideal_lru_holds_recent_witness:
  "\<exists>a0 a r. ia_new 2 = Some a0 \<and> ca_run ia_ops (\<lambda>_. 0) (\<lambda>_. True)
       \<lparr>req_lineAddr = 5, req_type = GETS, req_childId = 0, req_state = Outside 0, req_cycle = 0, req_childLock = None, req_initialState = I, req_srcId = 0, req_flags = 0\<rparr>
       [3, 5, 3, 7] a0 = Some a \<and> ca_lookup ia_ops 5 None False a = Some (r, a) \<and> r = None"
  using ideal_lru_holds_recent [of "[3, 5, 3, 7]" 2 5 "\<lambda>_. 0" "\<lambda>_. True"
    "\<lparr>req_lineAddr = 5, req_type = GETS, req_childId = 0, req_state = Outside 0, req_cycle = 0, req_childLock = None, req_initialState = I, req_srcId = 0, req_flags = 0\<rparr>"] by simp

end
