(* ===== verification/Utility_Monitor.thy ===== *)
theory Utility_Monitor
  imports Intrusive_List Hash Memory_Hierarchy
begin

text \<open>
  The utility monitor of src/src/utility_monitor.h and src/src/utility_monitor.cpp (\<open>UMon\<close>): a sampled tag
  array with one linked list of nodes per set, most recently used first, and one hit counter per
  list position. Node \<open>j\<close> of set \<open>i\<close> is the pair \<open>(i, j)\<close>; its fields are two maps. The lemmas show
  that the lists stay permutations of the nodes of the set and that the counters give, for every
  number of ways, the misses of a cache with that many ways.
\<close>

section \<open>Definitions\<close>

record UMon =
  um_umonLines :: nat
  um_samplingFactor :: nat
  um_buckets :: nat
  um_sets :: nat
  um_samplingFactorBits :: nat
  um_setsBits :: nat
  um_curWayHits :: "nat \<Rightarrow> nat"
  um_curMisses :: nat
  um_addr :: "nat \<Rightarrow> nat \<Rightarrow> Address"
  um_next :: "nat \<Rightarrow> nat \<Rightarrow> nat option"
  um_heads :: "nat \<Rightarrow> nat"
  um_hf :: H3HashFamily

text \<open>The loops \<open>while (tmp >>= 1) bits++\<close> of the constructor.\<close>

fun shift_count :: "nat \<Rightarrow> nat \<Rightarrow> nat" where
  "shift_count tmp bits = (if tmp div 2 = 0 then bits else shift_count (tmp div 2) (bits + 1))"

declare shift_count.simps [simp del]

definition um_new :: "nat \<Rightarrow> nat \<Rightarrow> nat \<Rightarrow> mtrand \<Rightarrow> UMon option" where
  "um_new bankLines umonLines buckets raw = do {
     assert_that (umonLines \<noteq> 0 \<and> buckets \<noteq> 0);
     let samplingFactor = bankLines div umonLines;
     let sets = umonLines div buckets;
     hf \<leftarrow> h3_new 2 32 0xF000BAAD raw;
     Some \<lparr>um_umonLines = umonLines, um_samplingFactor = samplingFactor, um_buckets = buckets, um_sets = sets,
       um_samplingFactorBits = shift_count samplingFactor 0, um_setsBits = shift_count sets 0,
       um_curWayHits = (\<lambda>_. 0), um_curMisses = 0, um_addr = (\<lambda>_ _. 0),
       um_next = (\<lambda>i j. if j < buckets - 1 then Some (j + 1) else None), um_heads = (\<lambda>_. 0), um_hf = hf\<rparr>
   }"

text \<open>The search of \<open>access\<close>: from position \<open>b\<close>, with \<open>k\<close> positions left; the result is the position
  of the hit, \<open>prev\<close> and \<open>cur\<close>. Following a null pointer fails.\<close>

fun um_search ::
  "(nat \<Rightarrow> Address) \<Rightarrow> (nat \<Rightarrow> nat option) \<Rightarrow> nat \<Rightarrow> Address \<Rightarrow> nat \<Rightarrow> nat \<Rightarrow> nat option \<Rightarrow> nat \<Rightarrow> (nat option \<times> nat option \<times> nat) option" where
  "um_search ad nx buckets lineAddr 0 b prv cur = Some (None, prv, cur)"
| "um_search ad nx buckets lineAddr (Suc k) b prv cur =
     (if ad cur = lineAddr then Some (Some b, prv, cur)
      else if b < buckets - 1 then do { n \<leftarrow> nx cur; um_search ad nx buckets lineAddr k (b + 1) (Some cur) n }
      else um_search ad nx buckets lineAddr k (b + 1) prv cur)"

definition bit_mask :: "nat \<Rightarrow> u64" where
  "bit_mask bits = NOT (push_bit bits (- 1))"

definition um_sampled :: "UMon \<Rightarrow> Address \<Rightarrow> bool option" where
  "um_sampled u lineAddr = do {
     h \<leftarrow> h3_hash (um_hf u) 0 lineAddr;
     Some (h AND bit_mask (um_samplingFactorBits u) = 0)
   }"

definition um_set :: "UMon \<Rightarrow> Address \<Rightarrow> nat option" where
  "um_set u lineAddr = do {
     h \<leftarrow> h3_hash (um_hf u) 1 lineAddr;
     let s = unat (h AND bit_mask (um_setsBits u));
     assert_that (s < um_sets u);
     Some s
   }"

definition um_access :: "Address \<Rightarrow> UMon \<Rightarrow> UMon option" where
  "um_access lineAddr u = do {
     sampled \<leftarrow> um_sampled u lineAddr;
     if \<not> sampled then Some u else do {
       s \<leftarrow> um_set u lineAddr;
       (hit, prv, cur) \<leftarrow> um_search (um_addr u s) (um_next u s) (um_buckets u) lineAddr (um_buckets u) 0 None (um_heads u s);
       u1 \<leftarrow> (case hit of
           Some b \<Rightarrow> Some (u\<lparr>um_curWayHits := (um_curWayHits u)(b := trunc64 (um_curWayHits u b + 1))\<rparr>)
         | None \<Rightarrow> do {
             assert_that (um_next u s cur = None);
             Some (u\<lparr>um_curMisses := trunc64 (um_curMisses u + 1),
                     um_addr := (um_addr u)(s := (um_addr u s)(cur := lineAddr))\<rparr>) });
       case prv of
         None \<Rightarrow> Some u1
       | Some p \<Rightarrow>
           Some (u1\<lparr>um_next := (um_next u1)(s := (um_next u1 s)(p := um_next u1 s cur, cur := Some (um_heads u1 s))),
                    um_heads := (um_heads u1)(s := cur)\<rparr>)
     }
   }"

fun um_total :: "UMon \<Rightarrow> nat \<Rightarrow> nat" where
  "um_total u 0 = um_curMisses u"
| "um_total u (Suc i) = trunc64 (um_total u i + um_curWayHits u (um_buckets u - i - 1))"

definition um_getNumAccesses :: "UMon \<Rightarrow> nat" where
  "um_getNumAccesses u = um_total u (um_buckets u)"

text \<open>The array \<open>misses[0..buckets]\<close> that \<open>getMisses\<close> fills.\<close>

definition um_getMisses :: "UMon \<Rightarrow> nat list" where
  "um_getMisses u = map (\<lambda>w. um_total u (um_buckets u - w)) [0..<um_buckets u + 1]"

definition um_startNextInterval :: "UMon \<Rightarrow> UMon" where
  "um_startNextInterval u =
     u\<lparr>um_curMisses := 0, um_curWayHits := (\<lambda>b. if b < um_buckets u then 0 else um_curWayHits u b)\<rparr>"

fun um_run :: "Address list \<Rightarrow> UMon \<Rightarrow> UMon option" where
  "um_run [] u = Some u"
| "um_run (L # Ls) u = do { u' \<leftarrow> um_access L u; um_run Ls u' }"

section \<open>The lists\<close>

text \<open>The nodes \<open>xs\<close> are linked in this order, the last one to \<open>e\<close>.\<close>

fun linked :: "(nat \<Rightarrow> nat option) \<Rightarrow> nat list \<Rightarrow> nat option \<Rightarrow> bool" where
  "linked nx [] e \<longleftrightarrow> True"
| "linked nx (x # xs) e \<longleftrightarrow> nx x = first_of xs e \<and> linked nx xs e"

lemma linked_append: "linked nx (xs @ ys) e \<longleftrightarrow> linked nx xs (first_of ys e) \<and> linked nx ys e"
  by (induction xs) (auto simp: first_append)

lemma linked_upd [simp]: "x \<notin> set xs \<Longrightarrow> linked (nx(x := v)) xs e = linked nx xs e"
  by (induction xs) auto

lemma linked_init: "linked (\<lambda>j. if j < n - 1 then Some (j + 1) else None) [i..<n] None"
proof (induction "n - i" arbitrary: i)
  case (Suc k)
  then have "linked (\<lambda>j. if j < n - 1 then Some (j + 1) else None) [Suc i..<n] None" "i < n" by simp_all
  then show ?case by (subst upt_conv_Cons) (auto simp: upt_rec [of "Suc i"])
qed simp

lemma linked_move:
  assumes "linked nx (xs @ p # c # ys) None" "distinct (xs @ p # c # ys)"
  shows "linked (nx(p := nx c, c := Some (hd (xs @ [p])))) (c # xs @ p # ys) None"
  using assms by (cases xs) (auto simp: linked_append first_append)

text \<open>Search along a list.\<close>

lemma search_hit:
  assumes "linked nx (xs @ c # ys) None" "ad c = L" "\<forall>x\<in>set xs. ad x \<noteq> L" "buckets = b + length (xs @ c # ys)" "k = length (xs @ c # ys)"
  shows "um_search ad nx buckets L k b prv (hd (xs @ [c])) = Some (Some (b + length xs), if xs = [] then prv else Some (last xs), c)"
  using assms
proof (induction xs arbitrary: k b prv)
  case (Cons x xs)
  then show ?case by (cases xs) auto
qed auto

lemma search_miss:
  assumes "linked nx (xs @ [c]) None" "\<forall>x\<in>set (xs @ [c]). ad x \<noteq> L" "buckets = b + length (xs @ [c])" "k = length (xs @ [c])"
  shows "um_search ad nx buckets L k b prv (hd (xs @ [c])) = Some (None, if xs = [] then prv else Some (last xs), c)"
  using assms
proof (induction xs arbitrary: k b prv)
  case (Cons x xs)
  then show ?case by (cases xs) auto
qed auto

section \<open>Invariant\<close>

text \<open>The list of set \<open>s\<close> is \<open>xs s\<close>, a permutation of the nodes of the set.\<close>

definition um_rep :: "UMon \<Rightarrow> (nat \<Rightarrow> nat list) \<Rightarrow> bool" where
  "um_rep u xs \<longleftrightarrow> 0 < um_buckets u \<and> (\<forall>s. distinct (xs s) \<and> set (xs s) = {..<um_buckets u} \<and> linked (um_next u s) (xs s) None \<and> um_heads u s = hd (xs s))"

definition um_stack :: "UMon \<Rightarrow> (nat \<Rightarrow> nat list) \<Rightarrow> nat \<Rightarrow> Address list" where
  "um_stack u xs s = map (um_addr u s) (xs s)"

text \<open>What an access does to the stack of a set.\<close>

definition stack_touch :: "Address \<Rightarrow> Address list \<Rightarrow> Address list" where
  "stack_touch L A = L # (if L \<in> set A then remove1 L A else butlast A)"

text \<open>The first position of an address in a stack; its length when the address is absent.\<close>

definition stack_pos :: "Address \<Rightarrow> Address list \<Rightarrow> nat" where
  "stack_pos L A = length (takeWhile ((\<noteq>) L) A)"

definition count_access :: "nat \<Rightarrow> UMon \<Rightarrow> UMon \<Rightarrow> bool" where
  "count_access b u u' \<longleftrightarrow> (if b < um_buckets u
     then um_curWayHits u' = (um_curWayHits u)(b := trunc64 (um_curWayHits u b + 1)) \<and> um_curMisses u' = um_curMisses u
     else um_curWayHits u' = um_curWayHits u \<and> um_curMisses u' = trunc64 (um_curMisses u + 1))"

definition same_params :: "UMon \<Rightarrow> UMon \<Rightarrow> bool" where
  "same_params u u' \<longleftrightarrow> um_buckets u' = um_buckets u \<and> um_sets u' = um_sets u \<and> um_samplingFactorBits u' = um_samplingFactorBits u \<and>
     um_setsBits u' = um_setsBits u \<and> um_hf u' = um_hf u"

lemma stack_pos_here: "\<forall>y\<in>set A. y \<noteq> L \<Longrightarrow> stack_pos L (A @ L # B) = length A"
proof -
  assume "\<forall>y\<in>set A. y \<noteq> L"
  then have "takeWhile ((\<noteq>) L) (A @ L # B) = A" by (subst takeWhile_append2) auto
  then show ?thesis by (simp add: stack_pos_def)
qed

lemma stack_pos_absent: "L \<notin> set A \<Longrightarrow> stack_pos L A = length A"
  unfolding stack_pos_def by (metis (mono_tags, lifting) takeWhile_eq_all_conv)

lemma um_repD:
  assumes "um_rep u xs"
  shows "distinct (xs s)" "set (xs s) = {..<um_buckets u}" "linked (um_next u s) (xs s) None" "um_heads u s = hd (xs s)" "length (xs s) = um_buckets u"
  using assms distinct_card [of "xs s"] by (auto simp: um_rep_def)

text \<open>Moving a node behind another one to the front of its list.\<close>

definition um_front :: "nat \<Rightarrow> nat option \<Rightarrow> nat \<Rightarrow> UMon \<Rightarrow> UMon" where
  "um_front s prv c u = (case prv of None \<Rightarrow> u | Some p \<Rightarrow>
     u\<lparr>um_next := (um_next u)(s := (um_next u s)(p := um_next u s c, c := Some (um_heads u s))), um_heads := (um_heads u)(s := c)\<rparr>)"

lemma front_ok:
  assumes r: "um_rep u xs" and x: "xs s = ys @ c # zs"
  shows "um_rep (um_front s (if ys = [] then None else Some (last ys)) c u) (xs(s := c # ys @ zs))"
proof (cases ys rule: rev_cases)
  case Nil
  then have "xs(s := c # ys @ zs) = xs" using x by auto
  then show ?thesis using r Nil by (simp add: um_front_def)
next
  case (snoc vs p)
  note d = um_repD [OF r, of s, unfolded x snoc]
  have "linked ((um_next u s)(p := um_next u s c, c := Some (um_heads u s))) (c # vs @ p # zs) None"
  proof -
    have "um_heads u s = hd (vs @ [p])" using d(4) by (cases vs) auto
    then show ?thesis using linked_move [of "um_next u s" vs p c zs] d(1,3) by simp
  qed
  moreover have "distinct (c # vs @ p # zs)" "set (c # vs @ p # zs) = {..<um_buckets u}" using d(1,2) by auto
  ultimately show ?thesis using r snoc by (simp add: um_front_def um_rep_def)
qed

lemma front_other [simp]:
  "um_addr (um_front s prv c u) = um_addr u" "um_curWayHits (um_front s prv c u) = um_curWayHits u" "um_curMisses (um_front s prv c u) = um_curMisses u"
  "same_params v (um_front s prv c u) = same_params v u"
  by (auto simp: um_front_def same_params_def split: option.splits)

lemma access_hit:
  assumes r: "um_rep u xs" and s: "um_sampled u L = Some True" "um_set u L = Some s" and h: "L \<in> set (um_stack u xs s)"
  shows "\<exists>u' xs'. um_access L u = Some u' \<and> um_rep u' xs' \<and> um_stack u' xs' = (um_stack u xs)(s := stack_touch L (um_stack u xs s)) \<and>
    count_access (stack_pos L (um_stack u xs s)) u u' \<and> same_params u u'"
proof -
  let ?ad = "um_addr u s"
  obtain ys c zs where x: "xs s = ys @ c # zs" "?ad c = L" "\<forall>y\<in>set ys. ?ad y \<noteq> L"
    using h split_list_first_prop [of "xs s" "\<lambda>x. ?ad x = L"] by (auto simp: um_stack_def)
  note d = um_repD [OF r, of s, unfolded x]
  let ?p = "if ys = [] then None else Some (last ys)"
  have hh: "um_heads u s = hd (ys @ [c])" using d(4) by (cases ys) auto
  have f: "um_search ?ad (um_next u s) (um_buckets u) L (um_buckets u) 0 None (um_heads u s) = Some (Some (0 + length ys), ?p, c)"
    unfolding hh by (rule search_hit [OF d(3) x(2,3)]) (use d(5) in simp_all)
  have st: "um_stack u xs s = map ?ad ys @ L # map ?ad zs" "L \<notin> set (map ?ad ys)" using x by (auto simp: um_stack_def)
  then have pos: "stack_pos L (um_stack u xs s) = length ys" using stack_pos_here [of "map ?ad ys" L] by auto
  let ?u = "u\<lparr>um_curWayHits := (um_curWayHits u)(length ys := trunc64 (um_curWayHits u (length ys) + 1))\<rparr>"
  let ?u' = "um_front s ?p c ?u"
  have "um_access L u = Some ?u'" using f s by (simp add: um_access_def um_front_def)
  moreover have "um_rep ?u xs" using r by (simp add: um_rep_def)
  then have "um_rep ?u' (xs(s := c # ys @ zs))" using front_ok x(1) by blast
  moreover have "um_stack ?u' (xs(s := c # ys @ zs)) = (um_stack u xs)(s := stack_touch L (um_stack u xs s))"
    using st x(2) by (auto simp: um_stack_def stack_touch_def remove1_append fun_eq_iff)
  moreover have "count_access (stack_pos L (um_stack u xs s)) u ?u'" unfolding pos using d(5) by (simp add: count_access_def)
  moreover have "same_params u ?u'" by (simp add: same_params_def um_front_def)
  ultimately show ?thesis by blast
qed

lemma access_miss:
  assumes r: "um_rep u xs" and s: "um_sampled u L = Some True" "um_set u L = Some s" and h: "L \<notin> set (um_stack u xs s)"
  shows "\<exists>u' xs'. um_access L u = Some u' \<and> um_rep u' xs' \<and> um_stack u' xs' = (um_stack u xs)(s := stack_touch L (um_stack u xs s)) \<and>
    count_access (stack_pos L (um_stack u xs s)) u u' \<and> same_params u u'"
proof -
  let ?ad = "um_addr u s"
  obtain ys c where x: "xs s = ys @ [c]" using um_repD(5) [OF r, of s] r by (cases "xs s" rule: rev_cases) (auto simp: um_rep_def)
  note d = um_repD [OF r, of s, unfolded x]
  have a: "\<forall>y\<in>set (ys @ [c]). ?ad y \<noteq> L" using h x by (auto simp: um_stack_def)
  let ?p = "if ys = [] then None else Some (last ys)"
  have hh: "um_heads u s = hd (ys @ [c])" using d(4) by (cases ys) auto
  have f: "um_search ?ad (um_next u s) (um_buckets u) L (um_buckets u) 0 None (um_heads u s) = Some (None, ?p, c)"
    unfolding hh by (rule search_miss [OF d(3) a]) (use d(5) in simp_all)
  have n: "um_next u s c = None" using d(3) by (simp add: linked_append)
  have pos: "stack_pos L (um_stack u xs s) = um_buckets u" using stack_pos_absent [OF h] um_repD(5) [OF r] by (simp add: um_stack_def)
  let ?u = "u\<lparr>um_curMisses := trunc64 (um_curMisses u + 1), um_addr := (um_addr u)(s := (um_addr u s)(c := L))\<rparr>"
  let ?u' = "um_front s ?p c ?u"
  have "um_access L u = Some ?u'" using f s n by (simp add: um_access_def um_front_def)
  moreover have "um_rep ?u xs" using r by (simp add: um_rep_def)
  then have "um_rep ?u' (xs(s := c # ys @ []))" using front_ok x(1) by blast
  moreover have "um_stack ?u' (xs(s := c # ys @ [])) = (um_stack u xs)(s := stack_touch L (um_stack u xs s))"
    using h x d(1) by (auto simp: um_stack_def stack_touch_def fun_eq_iff)
  moreover have "count_access (stack_pos L (um_stack u xs s)) u ?u'" unfolding pos by (simp add: count_access_def)
  moreover have "same_params u ?u'" by (simp add: same_params_def um_front_def)
  ultimately show ?thesis by blast
qed

section \<open>Sampling and sets\<close>

definition um_sample_of :: "UMon \<Rightarrow> Address \<Rightarrow> bool" where
  "um_sample_of u L \<longleftrightarrow> um_sampled u L = Some True"

definition um_set_of :: "UMon \<Rightarrow> Address \<Rightarrow> nat" where
  "um_set_of u L = (case um_set u L of Some s \<Rightarrow> s | None \<Rightarrow> 0)"

definition um_hashes :: "UMon \<Rightarrow> bool" where
  "um_hashes u \<longleftrightarrow> h3_numFuncs (um_hf u) = 2 \<and> 2 ^ um_setsBits u \<le> um_sets u"

lemma shift_count_le: "0 < t \<Longrightarrow> 2 ^ shift_count t b \<le> t * 2 ^ b"
proof (induction t b rule: shift_count.induct)
  case (1 t b)
  show ?case
  proof (cases "t div 2 = 0")
    case True then show ?thesis using 1 by (simp add: shift_count.simps)
  next
    case False
    then have "2 ^ shift_count (t div 2) (b + 1) \<le> t div 2 * 2 ^ (b + 1)" using 1 by simp
    also have "\<dots> \<le> t * 2 ^ b" by simp
    finally show ?thesis using False by (subst shift_count.simps) simp
  qed
qed

lemma bit_mask_mask: "bit_mask n = mask n"
  unfolding bit_mask_def by (rule bit_word_eqI) (auto simp: bit_simps)

lemma masked_less: "unat (h AND bit_mask n) < 2 ^ n"
  unfolding bit_mask_mask take_bit_eq_mask [symmetric] unsigned_take_bit_eq by (rule take_bit_nat_less_exp)

lemma sampled_total: "um_hashes u \<Longrightarrow> um_sampled u L = Some (um_sample_of u L)"
  by (auto simp: um_hashes_def um_sample_of_def um_sampled_def h3_hash_def assert_that_def)

lemma set_total: "um_hashes u \<Longrightarrow> um_set u L = Some (um_set_of u L)"
  using masked_less [of "h3_value (um_hf u) 1 L" "um_setsBits u"]
  by (auto simp: um_hashes_def um_set_of_def um_set_def h3_hash_def assert_that_def Let_def)

lemma params_hashes:
  assumes "same_params u u'"
  shows "um_hashes u' = um_hashes u" "um_sample_of u' = um_sample_of u" "um_set_of u' = um_set_of u" "um_buckets u' = um_buckets u"
  using assms by (auto simp: same_params_def um_hashes_def um_sample_of_def um_sampled_def um_set_of_def um_set_def fun_eq_iff)

lemma um_new_ok:
  assumes "um_new bankLines umonLines buckets raw = Some u" "buckets \<le> umonLines"
  shows "um_rep u (\<lambda>_. [0..<buckets])" "um_hashes u" "um_buckets u = buckets" "um_stack u (\<lambda>_. [0..<buckets]) = (\<lambda>_. replicate buckets 0)"
    "um_curMisses u = 0" "um_curWayHits u = (\<lambda>_. 0)"
proof -
  obtain hf where h: "h3_new 2 32 0xF000BAAD raw = Some hf" by (auto simp: h3_new_def Let_def)
  then have n: "h3_numFuncs hf = 2" by (auto simp: h3_new_def Let_def)
  have b: "buckets \<noteq> 0" "umonLines \<noteq> 0" using assms by (auto simp: um_new_def assert_that_def split: if_splits)
  then have "0 < umonLines div buckets" using assms(2) by (simp add: div_greater_zero_iff)
  note sc = shift_count_le [OF this, of 0]
  have u: "u = \<lparr>um_umonLines = umonLines, um_samplingFactor = bankLines div umonLines, um_buckets = buckets, um_sets = umonLines div buckets,
       um_samplingFactorBits = shift_count (bankLines div umonLines) 0, um_setsBits = shift_count (umonLines div buckets) 0,
       um_curWayHits = (\<lambda>_. 0), um_curMisses = 0, um_addr = (\<lambda>_ _. 0),
       um_next = (\<lambda>i j. if j < buckets - 1 then Some (j + 1) else None), um_heads = (\<lambda>_. 0), um_hf = hf\<rparr>"
    using assms(1) b h by (simp add: um_new_def Let_def)
  show "um_rep u (\<lambda>_. [0..<buckets])" using b linked_init [of buckets 0] unfolding um_rep_def u by (auto simp: atLeast0LessThan)
  show "um_hashes u" using n sc by (simp add: u um_hashes_def)
  show "um_stack u (\<lambda>_. [0..<buckets]) = (\<lambda>_. replicate buckets 0)" by (simp add: um_stack_def u map_replicate_const fun_eq_iff)
qed (use assms in \<open>auto simp: um_new_def Let_def assert_that_def split: if_splits Option.bind_splits\<close>)

section \<open>The reference cache\<close>

text \<open>A cache of \<open>w\<close>-way sets with LRU replacement, most recently used first; 0 marks an empty way.\<close>

definition lru_step :: "nat \<Rightarrow> (Address \<Rightarrow> nat) \<Rightarrow> Address \<Rightarrow> (nat \<Rightarrow> Address list) \<times> nat \<Rightarrow> (nat \<Rightarrow> Address list) \<times> nat" where
  "lru_step w setOf L s = (case s of (c, m) \<Rightarrow>
     if L \<in> set (c (setOf L)) then (c(setOf L := L # remove1 L (c (setOf L))), m)
     else (c(setOf L := take w (L # c (setOf L))), m + 1))"

definition lru_misses :: "nat \<Rightarrow> (Address \<Rightarrow> nat) \<Rightarrow> Address list \<Rightarrow> nat" where
  "lru_misses w setOf Ls = snd (fold (lru_step w setOf) Ls (\<lambda>_. replicate w 0, 0))"

lemma touch_hit:
  assumes "stack_pos L A < w" "w \<le> length A"
  shows "L \<in> set (take w A)" "L # remove1 L (take w A) = take w (stack_touch L A)"
proof -
  have "L \<in> set A" using assms stack_pos_absent [of L A] by fastforce
  then obtain B C where a: "A = B @ L # C" "L \<notin> set B" by (auto dest: split_list_first)
  then have "\<forall>y\<in>set B. y \<noteq> L" by auto
  then have "length B < w" using assms stack_pos_here [of B L C] a by simp
  then obtain k where k: "w = Suc (length B + k)" using less_imp_Suc_add by blast
  show "L \<in> set (take w A)" using a k by simp
  show "L # remove1 L (take w A) = take w (stack_touch L A)" using a k by (simp add: stack_touch_def remove1_append)
qed

lemma touch_miss:
  assumes "w \<le> stack_pos L A" "w \<le> length A"
  shows "L \<notin> set (take w A)" "take w (L # take w A) = take w (stack_touch L A)"
proof -
  have "take w (takeWhile ((\<noteq>) L) A @ dropWhile ((\<noteq>) L) A) = take w (takeWhile ((\<noteq>) L) A)"
    using assms(1) by (simp add: stack_pos_def del: takeWhile_dropWhile_id)
  then have "take w A = take w (takeWhile ((\<noteq>) L) A)" by simp
  then show t: "L \<notin> set (take w A)" by (auto dest!: in_set_takeD set_takeWhileD)
  show "take w (L # take w A) = take w (stack_touch L A)"
  proof (cases w)
    case (Suc v)
    have "take v (take w A) = take v (if L \<in> set A then remove1 L A else butlast A)"
    proof (cases "L \<in> set A")
      case True
      have "remove1 L A = take w A @ remove1 L (drop w A)" using t remove1_append [of L "take w A" "drop w A"] by simp
      then show ?thesis using True Suc by (simp add: min_def)
    next
      case False then show ?thesis using Suc assms(2) by (simp add: take_butlast min_def)
    qed
    then show ?thesis using Suc by (simp add: stack_touch_def)
  qed simp
qed

lemma touch_length: "A \<noteq> [] \<Longrightarrow> length (stack_touch L A) = length A"
  by (cases A) (auto simp: stack_touch_def length_remove1)

section \<open>Counting\<close>

definition hits_from :: "UMon \<Rightarrow> nat \<Rightarrow> nat" where
  "hits_from u w = um_curMisses u + (\<Sum>b = w..<um_buckets u. um_curWayHits u b)"

lemma hits_from_mono: "w \<le> v \<Longrightarrow> hits_from u v \<le> hits_from u w"
  by (auto simp: hits_from_def intro!: sum_mono2)

lemma total_hits: "i \<le> um_buckets u \<Longrightarrow> hits_from u 0 < 2 ^ 64 \<Longrightarrow> um_total u i = hits_from u (um_buckets u - i)"
proof (induction i)
  case (Suc i)
  have e: "{um_buckets u - Suc i..<um_buckets u} = insert (um_buckets u - Suc i) {um_buckets u - i..<um_buckets u}" using Suc.prems by auto
  have "hits_from u (um_buckets u - Suc i) = hits_from u (um_buckets u - i) + um_curWayHits u (um_buckets u - i - 1)"
    using Suc.prems unfolding hits_from_def e by (subst sum.insert) auto
  moreover have "hits_from u (um_buckets u - Suc i) < 2 ^ 64" using hits_from_mono [of 0 _ u] Suc.prems(2) le_less_trans by blast
  ultimately show ?case using Suc by simp
qed (simp add: hits_from_def)

lemma count_hits:
  assumes "count_access k u u'" "um_buckets u' = um_buckets u" "hits_from u 0 + 1 < 2 ^ 64" "k \<le> um_buckets u" "w \<le> um_buckets u"
  shows "hits_from u' w = hits_from u w + (if w \<le> k then 1 else 0)"
proof (cases "k < um_buckets u")
  case True
  have "um_curWayHits u k \<le> hits_from u 0" using True member_le_sum [of k "{0..<um_buckets u}" "um_curWayHits u"] by (simp add: hits_from_def)
  then have c: "um_curWayHits u' = (um_curWayHits u)(k := um_curWayHits u k + 1)" "um_curMisses u' = um_curMisses u"
    using assms(1,3) True by (auto simp: count_access_def)
  show ?thesis
  proof (cases "w \<le> k")
    case True
    then have k: "k \<in> {w..<um_buckets u}" using \<open>k < um_buckets u\<close> by auto
    have "sum (um_curWayHits u') ({w..<um_buckets u} - {k}) = sum (um_curWayHits u) ({w..<um_buckets u} - {k})"
      by (rule sum.cong) (auto simp: c)
    then show ?thesis using True c assms(2) sum.remove [OF _ k, of "um_curWayHits u'"] sum.remove [OF _ k, of "um_curWayHits u"]
      by (simp add: hits_from_def)
  qed (use c assms(2) in \<open>auto simp: hits_from_def intro!: sum.cong\<close>)
next
  case False
  have "um_curMisses u \<le> hits_from u 0" by (simp add: hits_from_def)
  then show ?thesis using False assms by (simp add: count_access_def hits_from_def)
qed

section \<open>Runs\<close>

lemma access_ok:
  assumes "um_rep u xs" "um_hashes u" "um_sample_of u L"
  shows "\<exists>u' xs'. um_access L u = Some u' \<and> um_rep u' xs' \<and>
    um_stack u' xs' = (um_stack u xs)(um_set_of u L := stack_touch L (um_stack u xs (um_set_of u L))) \<and>
    count_access (stack_pos L (um_stack u xs (um_set_of u L))) u u' \<and> same_params u u'"
  using access_hit [OF assms(1) _ set_total [OF assms(2)]] access_miss [OF assms(1) _ set_total [OF assms(2)]]
    sampled_total [OF assms(2), of L] assms(3) by fastforce

lemma access_skip: "um_hashes u \<Longrightarrow> \<not> um_sample_of u L \<Longrightarrow> um_access L u = Some u"
  by (simp add: um_access_def sampled_total)

text \<open>The cache \<open>c\<close> with \<open>w\<close> ways holds the first \<open>w\<close> addresses of every stack.\<close>

definition tracks :: "nat \<Rightarrow> UMon \<Rightarrow> (nat \<Rightarrow> nat list) \<Rightarrow> (nat \<Rightarrow> Address list) \<times> nat \<Rightarrow> nat \<Rightarrow> bool" where
  "tracks w u xs r base \<longleftrightarrow> um_rep u xs \<and> um_hashes u \<and> w \<le> um_buckets u \<and> (\<forall>s. fst r s = take w (um_stack u xs s)) \<and> base + hits_from u w = snd r"

lemma tracks_step:
  assumes t: "tracks w u xs r base" and L: "um_sample_of u L" "hits_from u 0 + 1 < 2 ^ 64"
  shows "\<exists>u' xs'. um_access L u = Some u' \<and> tracks w u' xs' (lru_step w (um_set_of u) L r) base \<and> same_params u u' \<and> hits_from u' 0 = hits_from u 0 + 1"
proof -
  obtain c m where r: "r = (c, m)" by fastforce
  let ?s = "um_set_of u L" and ?A = "um_stack u xs (um_set_of u L)"
  have d: "um_rep u xs" "um_hashes u" "w \<le> um_buckets u" "\<And>s. c s = take w (um_stack u xs s)" "base + hits_from u w = m"
    using t by (auto simp: tracks_def r)
  have A: "length ?A = um_buckets u" using um_repD(5) [OF d(1)] by (simp add: um_stack_def)
  obtain u' xs' where a: "um_access L u = Some u'" "um_rep u' xs'" "um_stack u' xs' = (um_stack u xs)(?s := stack_touch L ?A)"
    "count_access (stack_pos L ?A) u u'" "same_params u u'" using access_ok [OF d(1,2) L(1)] by blast
  have k: "stack_pos L ?A \<le> um_buckets u" unfolding A [symmetric] stack_pos_def by (rule length_takeWhile_le)
  have h: "hits_from u' v = hits_from u v + (if v \<le> stack_pos L ?A then 1 else 0)" if "v \<le> um_buckets u" for v
    using count_hits [OF a(4) _ L(2) k that] params_hashes(4) [OF a(5)] by simp
  have "tracks w u' xs' (lru_step w (um_set_of u) L r) base"
  proof (cases "stack_pos L ?A < w")
    case True
    note hit = touch_hit [OF True, unfolded A, OF d(3)]
    have "lru_step w (um_set_of u) L r = (c(?s := L # remove1 L (c ?s)), m)" using hit(1) d(4) by (simp add: lru_step_def r)
    then show ?thesis using a(2,3) d h [OF d(3)] True hit(2) params_hashes [OF a(5)] by (auto simp: tracks_def)
  next
    case False
    then have w: "w \<le> stack_pos L ?A" by simp
    note miss = touch_miss [OF w, unfolded A, OF d(3)]
    have "lru_step w (um_set_of u) L r = (c(?s := take w (L # c ?s)), m + 1)" using miss(1) d(4) by (simp add: lru_step_def r)
    then show ?thesis using a(2,3) d h [OF d(3)] w miss(2) params_hashes [OF a(5)] by (auto simp: tracks_def)
  qed
  then show ?thesis using a(1,5) h [of 0] by auto
qed

lemma tracks_run:
  assumes "tracks w u xs r base" "hits_from u 0 + length Ls < 2 ^ 64"
  shows "\<exists>u' xs'. um_run Ls u = Some u' \<and> tracks w u' xs' (fold (lru_step w (um_set_of u)) (filter (um_sample_of u) Ls) r) base \<and>
    same_params u u' \<and> hits_from u' 0 \<le> hits_from u 0 + length Ls"
  using assms
proof (induction Ls arbitrary: u xs r)
  case Nil
  then show ?case by (auto simp: same_params_def)
next
  case (Cons L Ls)
  show ?case
  proof (cases "um_sample_of u L")
    case True
    obtain u1 xs1 where a: "um_access L u = Some u1" "tracks w u1 xs1 (lru_step w (um_set_of u) L r) base" "same_params u u1" "hits_from u1 0 = hits_from u 0 + 1"
      using tracks_step [OF Cons.prems(1) True] Cons.prems(2) by auto
    have "hits_from u1 0 + length Ls < 2 ^ 64" using a(4) Cons.prems(2) by simp
    from Cons.IH [OF a(2) this] show ?thesis using True a(1,3,4) params_hashes [OF a(3)] by (auto simp: same_params_def)
  next
    case False
    have "um_hashes u" using Cons.prems(1) by (simp add: tracks_def)
    from access_skip [OF this False] Cons.IH [OF Cons.prems(1)] Cons.prems(2) False show ?thesis by auto
  qed
qed

lemma next_interval:
  assumes "tracks w u xs (c, m) base"
  shows "tracks w (um_startNextInterval u) xs (c, m) m" "same_params u (um_startNextInterval u)" "hits_from (um_startNextInterval u) 0 = 0"
proof -
  have "hits_from (um_startNextInterval u) v = 0" for v by (simp add: hits_from_def um_startNextInterval_def)
  then show "tracks w (um_startNextInterval u) xs (c, m) m" "hits_from (um_startNextInterval u) 0 = 0"
    using assms by (auto simp: tracks_def um_startNextInterval_def um_rep_def um_stack_def um_hashes_def)
qed (simp add: same_params_def um_startNextInterval_def)

text \<open>
  C32: After a warm-up over \<open>Ks\<close> and a new interval over \<open>Ls\<close>, entry \<open>w\<close> of the miss curve of the
  utility monitor is the number of sampled accesses of the interval that miss in a set-associative
  cache of \<open>w\<close> ways with LRU replacement, for every \<open>w\<close> up to the number of ways of the monitor:
  one pass over one tag array measures all cache sizes.
\<close>

theorem umon_measures_misses:
  assumes "um_new bankLines umonLines buckets raw = Some u0" "buckets \<le> umonLines" "w \<le> buckets" "length Ks + length Ls < 2 ^ 64"
  shows "\<exists>u1 u2. um_run Ks u0 = Some u1 \<and> um_run Ls (um_startNextInterval u1) = Some u2 \<and>
    lru_misses w (um_set_of u0) (filter (um_sample_of u0) (Ks @ Ls)) =
      lru_misses w (um_set_of u0) (filter (um_sample_of u0) Ks) + um_getMisses u2 ! w"
proof -
  note n = um_new_ok [OF assms(1,2)]
  let ?run = "\<lambda>Js r. fold (lru_step w (um_set_of u0)) (filter (um_sample_of u0) Js) r"
  have h0: "hits_from u0 v = 0" for v using n(5,6) by (simp add: hits_from_def)
  have "tracks w u0 (\<lambda>_. [0..<buckets]) (\<lambda>_. replicate w 0, 0) 0" using n(1-4) assms(3) h0 by (simp add: tracks_def min_def)
  from tracks_run [OF this, of Ks] obtain u1 xs1 where a: "um_run Ks u0 = Some u1" "tracks w u1 xs1 (?run Ks (\<lambda>_. replicate w 0, 0)) 0" "same_params u0 u1"
    using h0 assms(4) by auto
  obtain c m where cm: "?run Ks (\<lambda>_. replicate w 0, 0) = (c, m)" by fastforce
  note i = next_interval [OF a(2) [unfolded cm]]
  from tracks_run [OF i(1), of Ls] obtain u2 xs2 where b: "um_run Ls (um_startNextInterval u1) = Some u2"
    "tracks w u2 xs2 (?run Ls (c, m)) m" "hits_from u2 0 \<le> length Ls" "um_buckets u2 = buckets"
    using i(3) assms(4) params_hashes [OF i(2)] params_hashes [OF a(3)] n(3) by (auto simp: same_params_def)
  have "um_getMisses u2 ! w = um_total u2 (um_buckets u2 - w)" using b(4) assms(3) by (simp add: um_getMisses_def del: upt_Suc)
  also have "\<dots> = hits_from u2 w" using total_hits [of "um_buckets u2 - w" u2] b(3,4) assms(3,4) by simp
  finally have "snd (?run Ls (c, m)) = m + um_getMisses u2 ! w" using b(2) by (simp add: tracks_def)
  then show ?thesis using a(1) b(1) cm by (auto simp: lru_misses_def)
qed

theorem umon_measures_misses_witness:
  "\<exists>u0 u1 u2. um_new 16 16 4 \<lparr>mt_state = (\<lambda>_. 0), mt_pNext = 0, mt_left = 0\<rparr> = Some u0 \<and> um_run [3, 5] u0 = Some u1 \<and> um_run [3, 3] (um_startNextInterval u1) = Some u2 \<and>
    lru_misses 2 (um_set_of u0) (filter (um_sample_of u0) [3, 5, 3, 3]) =
      lru_misses 2 (um_set_of u0) (filter (um_sample_of u0) [3, 5]) + um_getMisses u2 ! 2"
proof -
  obtain u0 where u: "um_new 16 16 4 \<lparr>mt_state = (\<lambda>_. 0), mt_pNext = 0, mt_left = 0\<rparr> = Some u0" by (auto simp: um_new_def h3_new_def Let_def)
  show ?thesis using u umon_measures_misses [OF u, of 2 "[3, 5]" "[3, 3]"] by auto
qed

end
