(* ===== verification/Partitioner.thy ===== *)
theory Partitioner
  imports Init_Cache Utility_Monitor
begin

text \<open>
  The partition monitor of src/src/monitor.cpp (\<open>UMonMonitor\<close>: one utility monitor per partition and a
  cache of their miss curves), the partition mappers of src/src/partition_mapper.cpp and the lookahead
  partitioner of src/src/lookahead.cpp. A double is a rational; every operation on doubles is the
  exact one followed by the rounding \<open>rnd\<close>.

  The arrays of the monitor are modelled as the flat memory they are: the row of a partition in the
  miss cache has as many entries as buckets, the routine that fills it writes one more, and so the
  entry behind a row is the first one of the next row.
\<close>

section \<open>Partition monitor\<close>

record UMonMonitor =
  mm_buckets :: nat
  mm_missCache :: "nat \<Rightarrow> nat"
  mm_missCacheValid :: bool
  mm_monitors :: "UMon list"

definition mm_new :: "nat \<Rightarrow> nat \<Rightarrow> nat \<Rightarrow> nat \<Rightarrow> nat \<Rightarrow> mtrand \<Rightarrow> UMonMonitor option" where
  "mm_new numLines umonLines umonBuckets numPartitions buckets raw = do {
     assert_that (numPartitions > 0);
     u \<leftarrow> um_new numLines umonLines umonBuckets raw;
     Some \<lparr>mm_buckets = buckets, mm_missCache = (\<lambda>_. 0), mm_missCacheValid = False, mm_monitors = replicate numPartitions u\<rparr>
   }"

definition mm_access :: "nat \<Rightarrow> Address \<Rightarrow> UMonMonitor \<Rightarrow> UMonMonitor option" where
  "mm_access p lineAddr m = do {
     assert_that (p < length (mm_monitors m));
     u \<leftarrow> um_access lineAddr (mm_monitors m ! p);
     assert_that (\<not> mm_missCacheValid m);
     Some (m\<lparr>mm_monitors := (mm_monitors m)[p := u], mm_missCacheValid := False\<rparr>)
   }"

definition mm_getNumAccesses :: "nat \<Rightarrow> UMonMonitor \<Rightarrow> nat option" where
  "mm_getNumAccesses p m = do {
     assert_that (p < length (mm_monitors m));
     Some (trunc32 (um_getNumAccesses (mm_monitors m ! p)))
   }"

text \<open>The loops of \<open>getMissCurve\<close>; \<open>base\<close> is the first index of the row.\<close>

fun mm_downsample :: "nat list \<Rightarrow> nat \<Rightarrow> nat \<Rightarrow> nat list \<Rightarrow> (nat \<Rightarrow> nat) \<Rightarrow> (nat \<Rightarrow> nat)" where
  "mm_downsample umonMisses ratio base [] c = c"
| "mm_downsample umonMisses ratio base (j # js) c =
     mm_downsample umonMisses ratio base js (c(base + j := trunc32 (umonMisses ! (j * ratio))))"

definition mm_interpolate :: "(rat \<Rightarrow> rat) \<Rightarrow> nat \<Rightarrow> nat \<Rightarrow> nat \<Rightarrow> nat \<Rightarrow> nat" where
  "mm_interpolate rnd ratio k a b =
     (let m0 = rnd (of_nat a); m1 = rnd (of_nat b); frac = rnd (of_nat k / of_nat ratio);
          m = rnd (rnd (m0 * rnd (1 - frac)) + rnd (m1 * frac))
      in trunc32 (trunc64 (nat \<lfloor>m\<rfloor>)))"

fun mm_between :: "(rat \<Rightarrow> rat) \<Rightarrow> nat \<Rightarrow> nat \<Rightarrow> nat \<Rightarrow> nat \<Rightarrow> nat list \<Rightarrow> (nat \<Rightarrow> nat) \<Rightarrow> (nat \<Rightarrow> nat)" where
  "mm_between rnd ratio a b row [] c = c"
| "mm_between rnd ratio a b row (k # ks) c =
     mm_between rnd ratio a b row ks (c(row + k := mm_interpolate rnd ratio k a b))"

fun mm_upsample :: "(rat \<Rightarrow> rat) \<Rightarrow> nat list \<Rightarrow> nat \<Rightarrow> nat \<Rightarrow> nat \<Rightarrow> nat \<Rightarrow> nat list \<Rightarrow> (nat \<Rightarrow> nat) \<Rightarrow> (nat \<Rightarrow> nat)" where
  "mm_upsample rnd umonMisses umonBuckets buckets ratio base [] c = c"
| "mm_upsample rnd umonMisses umonBuckets buckets ratio base (j # js) c =
     (let c1 = c(base + ratio * j := trunc32 (umonMisses ! j));
          c2 = mm_between rnd ratio (umonMisses ! j) (umonMisses ! (j + 1)) (base + ratio * j) [1..<ratio] c1;
          c3 = c2(base + buckets := trunc32 (umonMisses ! umonBuckets))
      in mm_upsample rnd umonMisses umonBuckets buckets ratio base js c3)"

definition mm_getMissCurve :: "(rat \<Rightarrow> rat) \<Rightarrow> UMonMonitor \<Rightarrow> nat \<Rightarrow> (nat \<Rightarrow> nat) \<Rightarrow> (nat \<Rightarrow> nat) option" where
  "mm_getMissCurve rnd m p c = do {
     assert_that (p < length (mm_monitors m));
     let monitor = mm_monitors m ! p;
     let umonBuckets = um_buckets monitor;
     let umonMisses = um_getMisses monitor;
     let buckets = mm_buckets m;
     let base = p * buckets;
     if umonBuckets \<ge> buckets then do {
       assert_that (buckets \<noteq> 0);
       let downsampleRatio = umonBuckets div buckets;
       assert_that (umonBuckets mod buckets = 0);
       Some ((mm_downsample umonMisses downsampleRatio base [0..<buckets] c)(base + buckets := trunc32 (umonMisses ! umonBuckets)))
     } else do {
       assert_that (umonBuckets \<noteq> 0);
       let upsampleRatio = buckets div umonBuckets;
       assert_that (buckets mod umonBuckets = 0);
       Some (mm_upsample rnd umonMisses umonBuckets buckets upsampleRatio base [0..<umonBuckets] c)
     }
   }"

fun mm_curves :: "(rat \<Rightarrow> rat) \<Rightarrow> UMonMonitor \<Rightarrow> nat list \<Rightarrow> (nat \<Rightarrow> nat) \<Rightarrow> (nat \<Rightarrow> nat) option" where
  "mm_curves rnd m [] c = Some c"
| "mm_curves rnd m (p # ps) c = do { c' \<leftarrow> mm_getMissCurve rnd m p c; mm_curves rnd m ps c' }"

definition mm_getMissCurves :: "(rat \<Rightarrow> rat) \<Rightarrow> UMonMonitor \<Rightarrow> UMonMonitor option" where
  "mm_getMissCurves rnd m = do {
     c \<leftarrow> mm_curves rnd m [0..<length (mm_monitors m)] (mm_missCache m);
     Some (m\<lparr>mm_missCache := c\<rparr>)
   }"

definition mm_get :: "(rat \<Rightarrow> rat) \<Rightarrow> nat \<Rightarrow> nat \<Rightarrow> UMonMonitor \<Rightarrow> (nat \<times> UMonMonitor) option" where
  "mm_get rnd p bucket m = do {
     assert_that (p < length (mm_monitors m));
     m' \<leftarrow> (if \<not> mm_missCacheValid m then do { m1 \<leftarrow> mm_getMissCurves rnd m; Some (m1\<lparr>mm_missCacheValid := True\<rparr>) } else Some m);
     Some (mm_missCache m' (p * mm_buckets m' + bucket), m')
   }"

definition mm_reset :: "UMonMonitor \<Rightarrow> UMonMonitor" where
  "mm_reset m = m\<lparr>mm_monitors := map um_startNextInterval (mm_monitors m), mm_missCacheValid := False\<rparr>"

section \<open>Partition mappers\<close>

text \<open>The globals the mappers of processes read: \<open>procIdx\<close>, the group of a process, the number of groups.\<close>

record proc_env =
  pe_procIdx :: nat
  pe_groupIdx :: "nat \<Rightarrow> nat"
  pe_numProcGroups :: nat

fun getNumPartitions :: "proc_env \<Rightarrow> PartMapperObj \<Rightarrow> nat" where
  "getNumPartitions e (CorePM numCores) = numCores"
| "getNumPartitions e InstrDataPM = 2"
| "getNumPartitions e (InstrDataCorePM numCores) = 2 * numCores"
| "getNumPartitions e (ProcessPM numProcs) = numProcs"
| "getNumPartitions e (InstrDataProcessPM numProcs) = 2 * numProcs"
| "getNumPartitions e ProcessGroupPM = pe_numProcGroups e"

fun getPartition :: "proc_env \<Rightarrow> PartMapperObj \<Rightarrow> MemReq \<Rightarrow> nat option" where
  "getPartition e (CorePM numCores) req = Some (req_srcId req)"
| "getPartition e InstrDataPM req = Some (unat (req_flags req AND IFETCH))"
| "getPartition e (InstrDataCorePM numCores) req =
     Some (req_srcId req + (if req_is IFETCH req then numCores else 0))"
| "getPartition e (ProcessPM numProcs) req = do {
     assert_that (pe_procIdx e < numProcs);
     Some (pe_procIdx e)
   }"
| "getPartition e (InstrDataProcessPM numProcs) req = do {
     assert_that (pe_procIdx e < numProcs);
     Some (pe_procIdx e + (if req_is IFETCH req then numProcs else 0))
   }"
| "getPartition e ProcessGroupPM req = do {
     assert_that (pe_groupIdx e (pe_procIdx e) < pe_numProcGroups e);
     Some (pe_groupIdx e (pe_procIdx e))
   }"

section \<open>Lookahead\<close>

text \<open>\<open>get p b\<close> is the answer of the monitor: the misses of partition \<open>p\<close> with \<open>b\<close> buckets.\<close>

fun mu_loop :: "(rat \<Rightarrow> rat) \<Rightarrow> (nat \<Rightarrow> nat \<Rightarrow> nat) \<Rightarrow> nat \<Rightarrow> nat \<Rightarrow> nat list \<Rightarrow> rat \<times> nat \<Rightarrow> rat \<times> nat" where
  "mu_loop rnd get p partAlloc [] best = best"
| "mu_loop rnd get p partAlloc (i # is) (maxMu, maxMuAlloc) =
     (let extraHits = trunc32 (2 ^ 32 + get p partAlloc - get p (partAlloc + i));
          mu = rnd (of_nat extraHits / of_nat i)
      in mu_loop rnd get p partAlloc is (if mu > maxMu then (mu, i) else (maxMu, maxMuAlloc)))"

definition getMaxMarginalUtility :: "(rat \<Rightarrow> rat) \<Rightarrow> (nat \<Rightarrow> nat \<Rightarrow> nat) \<Rightarrow> nat \<Rightarrow> nat \<Rightarrow> nat \<Rightarrow> rat \<times> nat" where
  "getMaxMarginalUtility rnd get p partAlloc balance = mu_loop rnd get p partAlloc [1..<balance + 1] (- 1, 0)"

definition computePartitioningTotalUtility :: "(nat \<Rightarrow> nat \<Rightarrow> nat) \<Rightarrow> nat \<Rightarrow> (nat \<Rightarrow> nat) \<Rightarrow> nat" where
  "computePartitioningTotalUtility get numPartitions parts =
     (let noCacheMisses = (\<Sum>p\<leftarrow>[0..<numPartitions]. get p 0);
          curPartMisses = (\<Sum>p\<leftarrow>[0..<numPartitions]. get p (parts p))
      in nat ((int noCacheMisses - int curPartMisses) mod 2 ^ 64))"

fun best_part ::
  "(rat \<Rightarrow> rat) \<Rightarrow> (nat \<Rightarrow> nat \<Rightarrow> nat) \<Rightarrow> (nat \<Rightarrow> bool) \<Rightarrow> nat list \<Rightarrow> nat \<Rightarrow> nat list \<Rightarrow> rat \<times> nat \<times> nat \<Rightarrow> rat \<times> nat \<times> nat" where
  "best_part rnd get forbidden allocs balance [] best = best"
| "best_part rnd get forbidden allocs balance (i # is) (maxMu, maxMuPart, maxMuAlloc) =
     (if forbidden i then best_part rnd get forbidden allocs balance is (maxMu, maxMuPart, maxMuAlloc)
      else let (mu, muAlloc) = getMaxMarginalUtility rnd get i (allocs ! i) balance
           in best_part rnd get forbidden allocs balance is
                (if mu > maxMu then (mu, i, muAlloc) else (maxMu, maxMuPart, maxMuAlloc)))"

partial_function (option) alloc_loop ::
  "(rat \<Rightarrow> rat) \<Rightarrow> (nat \<Rightarrow> nat \<Rightarrow> nat) \<Rightarrow> (nat \<Rightarrow> bool) \<Rightarrow> nat \<Rightarrow> nat list \<Rightarrow> nat \<Rightarrow> nat list option" where
  "alloc_loop rnd get forbidden numPartitions allocs balance =
     (if balance = 0 then Some allocs
      else case best_part rnd get forbidden allocs balance [0..<numPartitions] (- 1, numPartitions, 0) of
        (maxMu, maxMuPart, maxMuAlloc) \<Rightarrow>
          if maxMuPart < numPartitions
          then alloc_loop rnd get forbidden numPartitions
                 (allocs[maxMuPart := trunc32 (allocs ! maxMuPart + maxMuAlloc)]) (trunc32 (2 ^ 32 + balance - maxMuAlloc))
          else None)"

definition computeBestPartitioning ::
  "(rat \<Rightarrow> rat) \<Rightarrow> (nat \<Rightarrow> nat \<Rightarrow> nat) \<Rightarrow> nat \<Rightarrow> nat \<Rightarrow> nat \<Rightarrow> (nat \<Rightarrow> bool) \<Rightarrow> nat list option" where
  "computeBestPartitioning rnd get numPartitions buckets minAlloc forbidden =
     alloc_loop rnd get forbidden numPartitions (replicate numPartitions minAlloc) (trunc32 (2 ^ 32 + buckets - minAlloc))"

record LookaheadPartitioner =
  lp_numPartitions :: nat
  lp_buckets :: nat
  lp_minAlloc :: nat
  lp_allocPortion :: rat
  lp_forbidden :: "nat \<Rightarrow> bool"
  lp_curAllocs :: "nat \<Rightarrow> nat"

definition lp_new :: "nat \<Rightarrow> nat \<Rightarrow> nat \<Rightarrow> rat \<Rightarrow> (nat \<Rightarrow> bool) \<Rightarrow> LookaheadPartitioner option" where
  "lp_new numPartitions buckets minAlloc allocPortion forbidden = do {
     assert_that (buckets > 0);
     Some \<lparr>lp_numPartitions = numPartitions, lp_buckets = buckets, lp_minAlloc = minAlloc,
           lp_allocPortion = allocPortion, lp_forbidden = forbidden, lp_curAllocs = (\<lambda>_. 0)\<rparr>
   }"

text \<open>
  \<open>partition\<close>: the array \<open>curAllocs\<close> has one entry more than there are buckets. The policy is
  \<open>setPartitionSizes\<close>, which gets the allocations, and \<open>reset\<close>, which resets its monitor.
\<close>

definition lp_partition ::
  "(rat \<Rightarrow> rat) \<Rightarrow> (nat \<Rightarrow> nat \<Rightarrow> nat) \<Rightarrow> (nat list \<Rightarrow> 'r \<Rightarrow> 'r option) \<Rightarrow> ('r \<Rightarrow> 'r) \<Rightarrow> LookaheadPartitioner \<times> 'r \<Rightarrow> (LookaheadPartitioner \<times> 'r) option" where
  "lp_partition rnd get setPartitionSizes reset s = (case s of (lp, r) \<Rightarrow> do {
     let n = lp_numPartitions lp;
     bestAllocs \<leftarrow> computeBestPartitioning rnd get n
       (trunc32 (nat \<lfloor>rnd (lp_allocPortion lp * of_nat (lp_buckets lp))\<rfloor>)) (trunc32 (lp_minAlloc lp * n)) (lp_forbidden lp);
     assert_that (n \<le> lp_buckets lp + 1);
     let newUtility = computePartitioningTotalUtility get n (\<lambda>p. bestAllocs ! p);
     let curUtility = computePartitioningTotalUtility get n (lp_curAllocs lp);
     let switchAllocs = (newUtility > trunc64 (102 * curUtility) div 100);
     let switchAllocs = (if curUtility = 0 then True else switchAllocs);
     let switchAllocs = True;
     let curAllocs = (if switchAllocs then (\<lambda>p. if p < n then bestAllocs ! p else lp_curAllocs lp p) else lp_curAllocs lp);
     r' \<leftarrow> setPartitionSizes (map curAllocs [0..<n]) r;
     Some (lp\<lparr>lp_curAllocs := curAllocs\<rparr>, reset r')
   })"

section \<open>What the miss cache holds\<close>

lemma downsample_nth:
  assumes "distinct js" "i < base + n"
  shows "mm_downsample um r base js c i = (if base \<le> i \<and> i - base \<in> set js then trunc32 (um ! ((i - base) * r)) else c i)"
  using assms
proof (induction js arbitrary: c)
  case (Cons j js)
  then show ?case by auto
qed auto

lemma curve_nth:
  assumes "mm_getMissCurve rnd m p c = Some c'" "mm_buckets m \<le> um_buckets (mm_monitors m ! p)"
  shows "c' i = (if i = p * mm_buckets m + mm_buckets m then trunc32 (um_getMisses (mm_monitors m ! p) ! um_buckets (mm_monitors m ! p))
    else if p * mm_buckets m \<le> i \<and> i < p * mm_buckets m + mm_buckets m
      then trunc32 (um_getMisses (mm_monitors m ! p) ! ((i - p * mm_buckets m) * (um_buckets (mm_monitors m ! p) div mm_buckets m))) else c i)"
  using assms by (auto simp: mm_getMissCurve_def Let_def assert_that_def downsample_nth [of _ i _ "Suc i"] split: if_splits)

lemma curves_append: "mm_curves rnd m (ps @ qs) c = do { c' \<leftarrow> mm_curves rnd m ps c; mm_curves rnd m qs c' }"
  by (induction ps arbitrary: c) (auto split: Option.bind_split)

text \<open>The value the code means for bucket \<open>b\<close> of partition \<open>p\<close>: the sampled misses with that allocation.\<close>

definition curve_at :: "UMonMonitor \<Rightarrow> nat \<Rightarrow> nat \<Rightarrow> nat" where
  "curve_at m p b = trunc32 (um_getMisses (mm_monitors m ! p) ! (b * (um_buckets (mm_monitors m ! p) div mm_buckets m)))"

definition downsampled :: "UMonMonitor \<Rightarrow> bool" where
  "downsampled m \<longleftrightarrow> mm_buckets m \<noteq> 0 \<and> (\<forall>p<length (mm_monitors m). um_buckets (mm_monitors m ! p) \<noteq> 0 \<and> um_buckets (mm_monitors m ! p) mod mm_buckets m = 0)"

lemma downsampledD:
  assumes "downsampled m" "p < length (mm_monitors m)"
  shows "mm_buckets m \<le> um_buckets (mm_monitors m ! p)" "mm_buckets m * (um_buckets (mm_monitors m ! p) div mm_buckets m) = um_buckets (mm_monitors m ! p)"
  using assms by (auto simp: downsampled_def intro: dvd_imp_le)

lemma curves_nth:
  assumes d: "downsampled m" and n: "n \<le> length (mm_monitors m)"
  shows "\<exists>c'. mm_curves rnd m [0..<n] c = Some c' \<and> (\<forall>p<n. \<forall>b<mm_buckets m. c' (p * mm_buckets m + b) = curve_at m p b) \<and>
    (0 < n \<longrightarrow> c' (n * mm_buckets m) = curve_at m (n - 1) (mm_buckets m))"
  using n
proof (induction n)
  case (Suc n)
  let ?B = "mm_buckets m"
  obtain c1 where c1: "mm_curves rnd m [0..<n] c = Some c1" "\<forall>p<n. \<forall>b<?B. c1 (p * ?B + b) = curve_at m p b" using Suc by auto
  have n: "n < length (mm_monitors m)" using Suc.prems by simp
  note u = downsampledD [OF d n]
  obtain c2 where c2: "mm_getMissCurve rnd m n c1 = Some c2" using u d n by (auto simp: mm_getMissCurve_def Let_def downsampled_def)
  note v = curve_nth [OF c2 u(1)]
  have "c2 (p * ?B + b) = curve_at m p b" if "p < Suc n" "b < ?B" for p b
  proof (cases "p = n")
    case True then show ?thesis using v [of "n * ?B + b"] that by (simp add: curve_at_def)
  next
    case False
    then have "Suc p \<le> n" using that by simp
    then have "Suc p * ?B \<le> n * ?B" by (rule mult_le_mono1)
    then have "p * ?B + b < n * ?B" using that by simp
    then show ?thesis using v [of "p * ?B + b"] c1(2) that False by simp
  qed
  moreover have "c2 (Suc n * ?B) = curve_at m n ?B" using v [of "Suc n * ?B"] u(2) by (simp add: curve_at_def add.commute)
  ultimately show ?case using c1(1) c2 by (simp add: curves_append)
qed auto



section \<open>Mappers\<close>

text \<open>
  C38: A mapper maps the requests of the cores and processes it was built for into its partitions, with
  one exception: the mapper that separates instructions and data returns the flag itself for an
  instruction fetch, partition 2 of the two partitions 0 and 1.
\<close>

theorem mapper_range:
  assumes "getPartition e pm req = Some p"
    "case pm of CorePM n \<Rightarrow> req_srcId req < n | InstrDataCorePM n \<Rightarrow> req_srcId req < n | _ \<Rightarrow> True"
  shows "p < getNumPartitions e pm \<longleftrightarrow> \<not> (pm = InstrDataPM \<and> req_is IFETCH req)"
proof (cases pm)
  case InstrDataPM
  have "w AND IFETCH = (if has_flag w IFETCH then 2 else 0)" for w :: u32
  proof (cases "has_flag w IFETCH")
    case True
    then have "bit w 1" by (simp add: has_flag_bit)
    then have "w AND push_bit 1 1 = push_bit 1 1" by (intro bit_word_eqI) (auto simp: bit_simps)
    then show ?thesis using True by (simp add: IFETCH_def push_bit_eq_mult)
  qed (simp add: has_flag_def)
  then show ?thesis using assms InstrDataPM by (auto simp: req_is_def)
qed (use assms in \<open>auto simp: assert_that_def split: if_splits\<close>)

theorem mapper_range_witness:
  "getPartition \<lparr>pe_procIdx = 0, pe_groupIdx = (\<lambda>_. 0), pe_numProcGroups = 1\<rparr> InstrDataPM
     \<lparr>req_lineAddr = 5, req_type = GETS, req_childId = 0, req_state = Outside 0, req_cycle = 0, req_childLock = None,
      req_initialState = I, req_srcId = 0, req_flags = IFETCH\<rparr> = Some 2 \<and>
   \<not> 2 < getNumPartitions \<lparr>pe_procIdx = 0, pe_groupIdx = (\<lambda>_. 0), pe_numProcGroups = 1\<rparr> InstrDataPM"
proof -
  let ?e = "\<lparr>pe_procIdx = 0, pe_groupIdx = (\<lambda>_. 0), pe_numProcGroups = 1\<rparr>"
  let ?r = "\<lparr>req_lineAddr = 5, req_type = GETS, req_childId = 0, req_state = Outside 0, req_cycle = 0, req_childLock = None,
      req_initialState = I, req_srcId = 0, req_flags = IFETCH\<rparr>"
  have g: "getPartition ?e InstrDataPM ?r = Some 2" by (simp add: IFETCH_def)
  have "req_is IFETCH ?r" by (simp add: req_is_def has_flag_def IFETCH_def)
  then show ?thesis using g mapper_range [OF g] by simp
qed

section \<open>Lookahead\<close>

lemma mu_loop_ok:
  assumes "\<forall>x\<ge>0. 0 \<le> rnd x" "\<forall>i\<in>set is. 0 < i" "mu_loop rnd get p a is (m, k) = (m', k')"
  shows "(m' = m \<and> k' = k \<and> (is = [] \<or> 0 \<le> m)) \<or> (0 \<le> m' \<and> m < m' \<and> k' \<in> set is)"
  using assms(2,3)
proof (induction "is" arbitrary: m k)
  case (Cons i js)
  let ?mu = "rnd (of_nat (trunc32 (2 ^ 32 + get p a - get p (a + i))) / of_nat i)"
  have mu: "0 \<le> ?mu" using assms(1) by simp
  show ?case
  proof (cases "?mu > m")
    case True
    then have "mu_loop rnd get p a js (?mu, i) = (m', k')" using Cons.prems by (simp add: Let_def)
    then show ?thesis using Cons.IH [of ?mu i] Cons.prems(1) True mu by fastforce
  next
    case False
    then have "mu_loop rnd get p a js (m, k) = (m', k')" using Cons.prems by (simp add: Let_def)
    then show ?thesis using Cons.IH [of m k] Cons.prems(1) False mu by fastforce
  qed
qed auto

lemma max_mu_ok:
  assumes "\<forall>x\<ge>0. 0 \<le> rnd x" "0 < balance" "getMaxMarginalUtility rnd get p a balance = (mu, k)"
  shows "0 \<le> mu" "0 < k" "k \<le> balance"
  using mu_loop_ok [OF assms(1), of "[1..<balance + 1]" get p a "- 1" 0 mu k] assms(2,3) by (auto simp: getMaxMarginalUtility_def simp del: upt_Suc)

lemma best_part_ok:
  assumes r: "\<forall>x\<ge>0. 0 \<le> rnd x" and b: "0 < balance" and e: "best_part rnd get forbidden allocs balance is (m, p, k) = (m', p', k')"
  shows "(m' = m \<and> p' = p \<and> k' = k \<and> ((\<forall>i\<in>set is. forbidden i) \<or> 0 \<le> m)) \<or> (p' \<in> set is \<and> \<not> forbidden p' \<and> 0 < k' \<and> k' \<le> balance)"
  using e
proof (induction "is" arbitrary: m p k)
  case (Cons i js)
  show ?case
  proof (cases "forbidden i")
    case True then show ?thesis using Cons.IH [of m p k] Cons.prems by auto
  next
    case False
    obtain mu c where g: "getMaxMarginalUtility rnd get i (allocs ! i) balance = (mu, c)" by fastforce
    note ok = max_mu_ok [OF r b g]
    show ?thesis using Cons.IH [of mu i c] Cons.IH [of m p k] Cons.prems False g ok by (cases "mu > m") auto
  qed
qed auto

lemma trunc32_diff: "k \<le> b \<Longrightarrow> b < 2 ^ 32 \<Longrightarrow> trunc32 (2 ^ 32 + b - k) = b - k"
  unfolding trunc32_def by (simp only: Nat.diff_add_assoc mod_add_self1) (rule mod_less, rule le_less_trans [OF diff_le_self])

text \<open>The allocations that are left to hand out go to partitions that are not forbidden.\<close>

lemma alloc_loop_ok:
  assumes r: "\<forall>x\<ge>0. 0 \<le> rnd x" and f: "q < n" "\<not> forbidden q"
    and l: "length allocs = n" "\<forall>p<n. lo \<le> allocs ! p \<and> (forbidden p \<longrightarrow> allocs ! p = lo)" "\<forall>p<n. allocs ! p + balance < 2 ^ 32"
  shows "\<exists>res. alloc_loop rnd get forbidden n allocs balance = Some res \<and> length res = n \<and> sum_list res = sum_list allocs + balance \<and>
    (\<forall>p<n. lo \<le> res ! p \<and> (forbidden p \<longrightarrow> res ! p = lo))"
  using l
proof (induction balance arbitrary: allocs rule: less_induct)
  case (less balance)
  show ?case
  proof (cases "balance = 0")
    case True
    then have "alloc_loop rnd get forbidden n allocs balance = Some allocs" by (simp add: alloc_loop.simps)
    then show ?thesis using less.prems True by simp
  next
    case False
    obtain m p k where b: "best_part rnd get forbidden allocs balance [0..<n] (- 1, n, 0) = (m, p, k)" by (rule prod_cases3)
    have p: "p < n" "\<not> forbidden p" "0 < k" "k \<le> balance" using best_part_ok [OF r _ b] False f by auto
    let ?al = "allocs[p := allocs ! p + k]"
    have q: "allocs ! j + balance < 2 ^ 32" if "j < n" for j using less.prems(3) that by blast
    note q = this this [OF p(1)]
    have t: "trunc32 (allocs ! p + k) = allocs ! p + k" by (intro trunc32_id) (use q(2) p in linarith)
    have t2: "trunc32 (2 ^ 32 + balance - k) = balance - k" by (rule trunc32_diff) (use q(2) p(4) in linarith)+
    have "\<exists>res. alloc_loop rnd get forbidden n ?al (balance - k) = Some res \<and> length res = n \<and> sum_list res = sum_list ?al + (balance - k) \<and>
      (\<forall>p<n. lo \<le> res ! p \<and> (forbidden p \<longrightarrow> res ! p = lo))"
    proof (rule less.IH)
      show "\<forall>q<n. lo \<le> ?al ! q \<and> (forbidden q \<longrightarrow> ?al ! q = lo)" using less.prems(1,2) p by (auto simp: nth_list_update trans_le_add1)
      show "\<forall>q<n. ?al ! q + (balance - k) < 2 ^ 32" 
      proof (intro allI impI)
        fix j assume "j < n"
        then show "?al ! j + (balance - k) < 2 ^ 32" using q(1) [of j] q(2) p(4) less.prems(1) by (cases "j = p") simp_all
      qed
    qed (use less.prems p in auto)
    moreover have "sum_list ?al = sum_list allocs + k" using less.prems(1) p(1) by (simp add: sum_list_update)
    moreover have "alloc_loop rnd get forbidden n allocs balance = alloc_loop rnd get forbidden n ?al (balance - k)"
      using False b p(1) t t2 by (subst alloc_loop.simps) simp
    ultimately show ?thesis using p(4) by simp
  qed
qed

lemma best_alloc_ok:
  assumes "\<forall>x\<ge>0. 0 \<le> rnd x" "q < n" "\<not> forbidden q" "minAlloc \<le> buckets" "buckets < 2 ^ 32"
  shows "\<exists>allocs. computeBestPartitioning rnd get n buckets minAlloc forbidden = Some allocs \<and> length allocs = n \<and>
    (\<forall>p<n. minAlloc \<le> allocs ! p \<and> (forbidden p \<longrightarrow> allocs ! p = minAlloc)) \<and> sum_list allocs = n * minAlloc + (buckets - minAlloc)"
proof -
  have "\<exists>res. alloc_loop rnd get forbidden n (replicate n minAlloc) (buckets - minAlloc) = Some res \<and> length res = n \<and>
    sum_list res = sum_list (replicate n minAlloc) + (buckets - minAlloc) \<and> (\<forall>p<n. minAlloc \<le> res ! p \<and> (forbidden p \<longrightarrow> res ! p = minAlloc))"
    by (rule alloc_loop_ok [where q = q]) (use assms in auto)
  then show ?thesis using trunc32_diff [OF assms(4,5)] by (auto simp: computeBestPartitioning_def sum_list_replicate)
qed

text \<open>
  C36: The lookahead allocation ends for every miss curve, gives a forbidden partition exactly the
  minimum and every other one at least the minimum, and hands out \<open>buckets - minAlloc\<close> buckets on top
  of the minimum of every partition: the minimum is taken off the balance once, not once per
  partition.
\<close>

theorem lookahead_allocates:
  assumes "\<forall>x\<ge>0. 0 \<le> rnd x" "q < n" "\<not> forbidden q" "minAlloc \<le> buckets" "buckets < 2 ^ 32"
  shows "\<exists>allocs. computeBestPartitioning rnd get n buckets minAlloc forbidden = Some allocs \<and> length allocs = n \<and>
    (\<forall>p<n. minAlloc \<le> allocs ! p \<and> (forbidden p \<longrightarrow> allocs ! p = minAlloc)) \<and> sum_list allocs = n * minAlloc + (buckets - minAlloc)"
  using best_alloc_ok [where q = q] assms by blast

theorem lookahead_allocates_witness:
  "\<exists>allocs. computeBestPartitioning (\<lambda>x. x) (\<lambda>p b. 100 - 10 * b) 2 8 2 (\<lambda>p. p = 1) = Some allocs \<and> 2 \<le> allocs ! 0 \<and> sum_list allocs = 10"
  using lookahead_allocates [of "\<lambda>x. x" 0 2 "\<lambda>p. p = 1" 2 8 "\<lambda>p b. 100 - 10 * b"] by auto

section \<open>Partition sizes\<close>

text \<open>How many of the first \<open>n\<close> lines belong to partition \<open>p\<close>.\<close>

definition owned :: "nat \<Rightarrow> (nat \<Rightarrow> nat) \<Rightarrow> nat \<Rightarrow> nat" where
  "owned n f p = card {i. i < n \<and> f i = p}"

lemma owned_le: "owned n f p \<le> n"
  unfolding owned_def using card_mono [of "{..<n}" "{i. i < n \<and> f i = p}"] by auto

lemma owned_pos: "i < n \<Longrightarrow> 0 < owned n f (f i)"
  unfolding owned_def by (subst card_gt_0_iff) auto

lemma owned_same: "owned n (f(i := f i)) = owned n f"
  by simp

lemma owned_move:
  assumes "i < n" "q \<noteq> f i"
  shows "owned n (f(i := q)) = (owned n f)(f i := owned n f (f i) - 1, q := owned n f q + 1)"
proof
  fix p
  have e: "{j. j < n \<and> (f(i := q)) j = p} = (if p = q then insert i {j. j < n \<and> f j = p} else if p = f i then {j. j < n \<and> f j = p} - {i} else {j. j < n \<and> f j = p})"
    using assms by auto
  have fin: "finite {j. j < n \<and> f j = p}" by simp
  show "owned n (f(i := q)) p = ((owned n f)(f i := owned n f (f i) - 1, q := owned n f q + 1)) p"
    unfolding owned_def e using fin assms by (auto simp: card_insert_if)
qed

lemma owned_sum: "\<forall>i<n. f i < k \<Longrightarrow> (\<Sum>p<k. owned n f p) = n"
proof -
  assume r: "\<forall>i<n. f i < k"
  have "{..<n} = (\<Union>p\<in>{..<k}. {i. i < n \<and> f i = p})" using r by auto
  then have "n = card (\<Union>p\<in>{..<k}. {i. i < n \<and> f i = p})" by (metis card_lessThan)
  also have "\<dots> = (\<Sum>p<k. card {i. i < n \<and> f i = p})" by (rule card_UN_disjoint) auto
  finally show ?thesis by (simp add: owned_def)
qed

text \<open>
  The contract of a partitioned replacement policy: the size it keeps for every partition is the
  number of lines that belong to it.
\<close>

locale part_sizes =
  fixes inv :: "'r \<Rightarrow> bool" and parts lines :: "'r \<Rightarrow> nat" and size line_part :: "'r \<Rightarrow> nat \<Rightarrow> nat"
  assumes counts: "inv r \<Longrightarrow> p < parts r \<Longrightarrow> size r p = owned (lines r) (line_part r) p"
    and in_range: "inv r \<Longrightarrow> i < lines r \<Longrightarrow> line_part r i < parts r"
begin

lemma total: "inv r \<Longrightarrow> (\<Sum>p<parts r. size r p) = lines r"
  using owned_sum [of "lines r" "line_part r" "parts r"] by (simp add: counts in_range)

lemma size_le: "inv r \<Longrightarrow> p < parts r \<Longrightarrow> size r p \<le> lines r"
  by (simp add: counts owned_le)

lemma some_line: "inv r \<Longrightarrow> p < parts r \<Longrightarrow> 0 < size r p \<Longrightarrow> \<exists>i<lines r. line_part r i = p"
  by (auto simp: counts owned_def card_gt_0_iff)

end

end
