(* ===== verification/Way_Partition.thy ===== *)
theory Way_Partition
  imports Partitioner Repl_Policies
begin

text \<open>
  Way partitioning, the class \<open>WayPartReplPolicy\<close> of src/src/part_repl_policies.h. The partition monitor
  is a value the policy carries, with its operation \<open>access\<close> a parameter; the partition mapper is the
  parameter \<open>getp\<close>. Indexing the partitions or the ways out of bounds fails.
\<close>

section \<open>Definitions\<close>

record 'm WayPart =
  wp_size :: "nat \<Rightarrow> nat"
  wp_targetSize :: "nat \<Rightarrow> nat"
  wp_profHits :: "nat \<Rightarrow> nat"
  wp_profMisses :: "nat \<Rightarrow> nat"
  wp_profSelfEvictions :: "nat \<Rightarrow> nat"
  wp_profExtEvictions :: "nat \<Rightarrow> nat"
  wp_partitions :: nat
  wp_totalSize :: nat
  wp_waySize :: nat
  wp_ways :: nat
  wp_addr :: "nat \<Rightarrow> Address"
  wp_ts :: "nat \<Rightarrow> nat"
  wp_p :: "nat \<Rightarrow> nat"
  wp_wayPartIndex :: "nat \<Rightarrow> nat"
  wp_testMode :: bool
  wp_bestId :: "nat option"
  wp_candIdx :: nat
  wp_incomingLinePart :: nat
  wp_incomingLineAddr :: Address
  wp_timestamp :: nat
  wp_monitor :: 'm

fun wp_assign :: "nat \<Rightarrow> nat \<Rightarrow> nat \<Rightarrow> nat list \<Rightarrow> (nat \<Rightarrow> nat) \<times> (nat \<Rightarrow> nat) \<Rightarrow> ((nat \<Rightarrow> nat) \<times> (nat \<Rightarrow> nat)) option" where
  "wp_assign partitions ways waySize [] s = Some s"
| "wp_assign partitions ways waySize (w # ws) (idx, target) = do {
     let p = trunc32 (w * partitions) div ways;
     assert_that (p < partitions);
     wp_assign partitions ways waySize ws (idx(w := p), target(p := target p + waySize))
   }"

definition wp_new :: "nat \<Rightarrow> nat \<Rightarrow> nat \<Rightarrow> bool \<Rightarrow> 'm \<Rightarrow> 'm WayPart option" where
  "wp_new partitions lines ways testMode mon = do {
     assert_that (ways \<noteq> 0);
     let waySize = lines div ways;
     assert_that (waySize * ways = lines);
     assert_that (0 < partitions);
     (idx, target) \<leftarrow> wp_assign partitions ways waySize [0..<ways] (\<lambda>_. 0, \<lambda>_. 0);
     Some \<lparr>wp_size = (\<lambda>_. 0)(0 := lines), wp_targetSize = target, wp_profHits = (\<lambda>_. 0), wp_profMisses = (\<lambda>_. 0),
       wp_profSelfEvictions = (\<lambda>_. 0), wp_profExtEvictions = (\<lambda>_. 0), wp_partitions = partitions, wp_totalSize = lines,
       wp_waySize = waySize, wp_ways = ways, wp_addr = (\<lambda>_. 0), wp_ts = (\<lambda>_. 0), wp_p = (\<lambda>_. 0), wp_wayPartIndex = idx,
       wp_testMode = testMode, wp_bestId = None, wp_candIdx = 0, wp_incomingLinePart = 0, wp_incomingLineAddr = 0,
       wp_timestamp = 1, wp_monitor = mon\<rparr>
   }"

definition inc_at :: "nat \<Rightarrow> (nat \<Rightarrow> nat) \<Rightarrow> (nat \<Rightarrow> nat)" where
  "inc_at p c = c(p := trunc64 (c p + 1))"

definition dec_at :: "nat \<Rightarrow> (nat \<Rightarrow> nat) \<Rightarrow> (nat \<Rightarrow> nat)" where
  "dec_at p c = c(p := trunc64 (2 ^ 64 + c p - 1))"

definition wp_hit :: "nat \<Rightarrow> 'm WayPart \<Rightarrow> 'm WayPart option" where
  "wp_hit i r = do {
     assert_that (wp_p r i < wp_partitions r);
     Some (r\<lparr>wp_profHits := inc_at (wp_p r i) (wp_profHits r)\<rparr>)
   }"

definition wp_fill :: "nat \<Rightarrow> 'm WayPart \<Rightarrow> 'm WayPart option" where
  "wp_fill i r = do {
     let oldPart = wp_p r i;
     let newPart = wp_incomingLinePart r;
     assert_that (oldPart < wp_partitions r \<and> newPart < wp_partitions r);
     let r1 = (if oldPart \<noteq> newPart
       then r\<lparr>wp_size := inc_at newPart (dec_at oldPart (wp_size r)), wp_profExtEvictions := inc_at oldPart (wp_profExtEvictions r)\<rparr>
       else r\<lparr>wp_profSelfEvictions := inc_at oldPart (wp_profSelfEvictions r)\<rparr>);
     Some (r1\<lparr>wp_profMisses := inc_at newPart (wp_profMisses r1), wp_p := (wp_p r1)(i := newPart)\<rparr>)
   }"

definition wp_update :: "(nat \<Rightarrow> Address \<Rightarrow> 'm \<Rightarrow> 'm option) \<Rightarrow> nat \<Rightarrow> MemReq \<Rightarrow> 'm WayPart \<Rightarrow> 'm WayPart option" where
  "wp_update mon_access i req r = do {
     r1 \<leftarrow> (if wp_ts r i > 0 then wp_hit i r else wp_fill i r);
     let r2 = r1\<lparr>wp_ts := (wp_ts r1)(i := wp_timestamp r1), wp_timestamp := trunc64 (wp_timestamp r1 + 1)\<rparr>;
     m \<leftarrow> mon_access (wp_p r2 i) (wp_addr r2 i) (wp_monitor r2);
     Some (r2\<lparr>wp_monitor := m\<rparr>)
   }"

definition wp_startReplacement :: "(MemReq \<Rightarrow> nat option) \<Rightarrow> MemReq \<Rightarrow> 'm WayPart \<Rightarrow> 'm WayPart option" where
  "wp_startReplacement getp req r = do {
     assert_that (wp_candIdx r = 0);
     assert_that (wp_bestId r = None);
     p \<leftarrow> getp req;
     Some (r\<lparr>wp_incomingLinePart := p, wp_incomingLineAddr := req_lineAddr req\<rparr>)
   }"

text \<open>The candidate that is best once line \<open>i\<close>, the candidate in the current way, is looked at.\<close>

definition wp_choose :: "nat \<Rightarrow> 'm WayPart \<Rightarrow> nat option" where
  "wp_choose i r =
     (let way = wp_candIdx r; inc = wp_incomingLinePart r
      in if wp_testMode r \<or> wp_wayPartIndex r way = inc then
        (case wp_bestId r of
           None \<Rightarrow> Some i
         | Some b \<Rightarrow>
             if wp_testMode r \<or> wp_p r i = inc \<and> wp_p r b = inc then
               (if wp_ts r i < wp_ts r b then Some i else Some b)
             else if wp_p r i = inc \<and> wp_p r b \<noteq> inc then Some b
             else if wp_p r i \<noteq> inc \<and> wp_p r b = inc then Some i
             else if wp_ts r i < wp_ts r b then Some i else Some b)
       else wp_bestId r)"

definition wp_recordCandidate :: "nat \<Rightarrow> 'm WayPart \<Rightarrow> 'm WayPart option" where
  "wp_recordCandidate i r = do {
     assert_that (wp_candIdx r < wp_ways r);
     Some (r\<lparr>wp_bestId := wp_choose i r, wp_candIdx := wp_candIdx r + 1\<rparr>)
   }"

definition wp_getBestCandidate :: "'m WayPart \<Rightarrow> (nat \<times> 'm WayPart) option" where
  "wp_getBestCandidate r = do { b \<leftarrow> wp_bestId r; Some (b, r) }"

definition wp_replaced :: "nat \<Rightarrow> 'm WayPart \<Rightarrow> 'm WayPart" where
  "wp_replaced i r = r\<lparr>wp_candIdx := 0, wp_bestId := None, wp_ts := (wp_ts r)(i := 0),
     wp_addr := (wp_addr r)(i := wp_incomingLineAddr r)\<rparr>"

fun wp_fill_ways :: "nat \<Rightarrow> nat \<Rightarrow> nat \<Rightarrow> nat \<times> (nat \<Rightarrow> nat) \<Rightarrow> (nat \<times> (nat \<Rightarrow> nat)) option" where
  "wp_fill_ways ways p 0 s = Some s"
| "wp_fill_ways ways p (Suc k) (curWay, idx) = do {
     assert_that (curWay < ways);
     wp_fill_ways ways p k (curWay + 1, idx(curWay := p))
   }"

fun wp_set_sizes :: "nat list \<Rightarrow> nat \<Rightarrow> nat \<times> 'm WayPart \<Rightarrow> (nat \<times> 'm WayPart) option" where
  "wp_set_sizes [] p s = Some s"
| "wp_set_sizes (k # ks) p (curWay, r) = do {
     let r1 = r\<lparr>wp_targetSize := (wp_targetSize r)(p := trunc32 (wp_totalSize r * k) div wp_ways r)\<rparr>;
     (c, idx) \<leftarrow> wp_fill_ways (wp_ways r) p k (curWay, wp_wayPartIndex r1);
     wp_set_sizes ks (p + 1) (c, r1\<lparr>wp_wayPartIndex := idx\<rparr>)
   }"

definition wp_setPartitionSizes :: "nat list \<Rightarrow> 'm WayPart \<Rightarrow> 'm WayPart option" where
  "wp_setPartitionSizes waysPart r = do {
     (curWay, r') \<leftarrow> wp_set_sizes (take (wp_partitions r) waysPart) 0 (0, r);
     assert_that (curWay = wp_ways r');
     Some r'
   }"

definition wp_policy :: "(nat \<Rightarrow> Address \<Rightarrow> 'm \<Rightarrow> 'm option) \<Rightarrow> (MemReq \<Rightarrow> nat option) \<Rightarrow> 'm WayPart ReplPolicy" where
  "wp_policy mon_access getp = \<lparr>rp_update = wp_update mon_access, rp_replaced = wp_replaced,
     rp_rankCands = (\<lambda>ns vl req cands r. legacy_rank (wp_startReplacement getp) wp_recordCandidate wp_getBestCandidate req cands r)\<rparr>"

section \<open>Sizes\<close>

definition wp_inv :: "'m WayPart \<Rightarrow> bool" where
  "wp_inv r \<longleftrightarrow> wp_totalSize r < 2 ^ 64 - 1 \<and> (\<forall>p<wp_partitions r. wp_size r p = owned (wp_totalSize r) (wp_p r) p) \<and> (\<forall>i<wp_totalSize r. wp_p r i < wp_partitions r)"

interpretation way_sizes: part_sizes wp_inv wp_partitions wp_totalSize wp_size wp_p
  by unfold_locales (auto simp: wp_inv_def)

lemma move_sizes:
  assumes "i < n" "n < 2 ^ 64 - 1" "q \<noteq> f i" "\<forall>p<k. sz p = owned n f p" "f i < k" "q < k" "p < k"
  shows "inc_at q (dec_at (f i) sz) p = owned n (f(i := q)) p"
proof -
  have o: "0 < owned n f (f i)" "\<And>j. owned n f j + 1 < 2 ^ 64" using owned_pos [OF assms(1)] owned_le [of n f] assms(2) by (auto intro: le_less_trans)
  have "trunc64 (2 ^ 64 + owned n f (f i) - 1) = owned n f (f i) - 1"
  proof -
    have "2 ^ 64 + owned n f (f i) - 1 = 2 ^ 64 + (owned n f (f i) - 1)" using o(1) by simp
    then show ?thesis using o(2) [of "f i"] by (simp only: trunc64_def mod_add_self1) (rule mod_less, linarith)
  qed
  moreover have "trunc64 (owned n f q + 1) = owned n f q + 1" using o(2) by simp
  ultimately show ?thesis using assms(3-7) by (auto simp: inc_at_def dec_at_def owned_move [of i n q f] assms(1))
qed

lemma fill_inv:
  assumes "wp_inv r" "i < wp_totalSize r" "wp_fill i r = Some r'"
  shows "wp_inv r'"
proof -
  have d: "wp_p r i < wp_partitions r" "wp_incomingLinePart r < wp_partitions r" using assms(3) by (auto simp: wp_fill_def assert_that_def Let_def split: if_splits)
  show ?thesis
  proof (cases "wp_p r i = wp_incomingLinePart r")
    case True
    then have "(wp_p r)(i := wp_incomingLinePart r) = wp_p r" by (metis fun_upd_triv)
    then show ?thesis using assms True d by (auto simp: wp_fill_def wp_inv_def Let_def)
  next
    case False
    have "inc_at (wp_incomingLinePart r) (dec_at (wp_p r i) (wp_size r)) p = owned (wp_totalSize r) ((wp_p r)(i := wp_incomingLinePart r)) p" if "p < wp_partitions r" for p
      by (rule move_sizes) (use assms d False that in \<open>auto simp: wp_inv_def\<close>)
    then show ?thesis using assms False d by (auto simp: wp_fill_def wp_inv_def Let_def)
  qed
qed

lemma update_inv:
  assumes "wp_inv r" "i < wp_totalSize r" "wp_update mon i req r = Some r'"
  shows "wp_inv r'"
proof -
  obtain r1 where r1: "(if wp_ts r i > 0 then wp_hit i r else wp_fill i r) = Some r1" using assms(3) by (auto simp: wp_update_def split: Option.bind_splits)
  have "wp_inv r1"
  proof (cases "wp_ts r i > 0")
    case True then show ?thesis using r1 assms(1) by (auto simp: wp_hit_def assert_that_def wp_inv_def split: if_splits)
  next
    case False then show ?thesis using r1 fill_inv [OF assms(1,2)] by simp
  qed
  then show ?thesis using assms(3) r1 by (auto simp: wp_update_def wp_inv_def Let_def split: Option.bind_splits)
qed

section \<open>The victim\<close>

text \<open>
  The order in which the ways of a partition are evicted: first lines of other partitions, then the
  least recently used one.
\<close>

definition wp_before :: "'m WayPart \<Rightarrow> nat \<Rightarrow> nat \<Rightarrow> nat \<Rightarrow> bool" where
  "wp_before r q b c \<longleftrightarrow> (wp_p r b \<noteq> q \<and> wp_p r c = q) \<or> ((wp_p r b = q) = (wp_p r c = q) \<and> wp_ts r b \<le> wp_ts r c)"

definition wp_best :: "'m WayPart \<Rightarrow> nat \<Rightarrow> nat list \<Rightarrow> nat option \<Rightarrow> bool" where
  "wp_best r q cs best \<longleftrightarrow> (case best of
     None \<Rightarrow> \<forall>j<length cs. wp_wayPartIndex r j \<noteq> q
   | Some b \<Rightarrow> (\<exists>j<length cs. wp_wayPartIndex r j = q \<and> b = cs ! j) \<and> (\<forall>j<length cs. wp_wayPartIndex r j = q \<longrightarrow> wp_before r q b (cs ! j)))"

lemma choose_eq:
  assumes "\<not> wp_testMode r"
  shows "wp_choose i (r\<lparr>wp_bestId := best, wp_candIdx := k\<rparr>) =
    (if wp_wayPartIndex r k = wp_incomingLinePart r
     then case best of None \<Rightarrow> Some i | Some b \<Rightarrow> if wp_before r (wp_incomingLinePart r) b i then Some b else Some i
     else best)"
  using assms by (cases best) (auto simp: wp_choose_def wp_before_def Let_def)

lemma choose_best:
  assumes "wp_best r q cs best"
  shows "wp_best r q (cs @ [i]) (if wp_wayPartIndex r (length cs) = q then case best of None \<Rightarrow> Some i | Some b \<Rightarrow> if wp_before r q b i then Some b else Some i
     else best)"
proof (cases best)
  case None
  then show ?thesis using assms by (auto simp: wp_best_def nth_append less_Suc_eq wp_before_def intro!: exI [of _ "length cs"])
next
  case (Some b)
  then obtain j where b: "j < length cs" "wp_wayPartIndex r j = q" "b = cs ! j" "\<And>j. j < length cs \<Longrightarrow> wp_wayPartIndex r j = q \<Longrightarrow> wp_before r q b (cs ! j)"
    using assms by (auto simp: wp_best_def)
  have t: "wp_before r q i c" if "wp_before r q b c" "\<not> wp_before r q b i" for c using that by (auto simp: wp_before_def)
  have f: "wp_before r q i i" by (simp add: wp_before_def)
  have old: "wp_best r q (cs @ [i]) (Some b)" if "wp_wayPartIndex r (length cs) = q \<Longrightarrow> wp_before r q b i"
    unfolding wp_best_def by (use b that in \<open>auto simp: nth_append less_Suc_eq intro!: exI [of _ j]\<close>)
  have new: "wp_best r q (cs @ [i]) (Some i)" if "wp_wayPartIndex r (length cs) = q" "\<not> wp_before r q b i"
    unfolding wp_best_def by (use b(4) that t f in \<open>auto simp: nth_append less_Suc_eq intro!: exI [of _ "length cs"]\<close>)
  show ?thesis using old new Some by auto
qed

lemma record_ok:
  assumes "\<not> wp_testMode r" "length cs < wp_ways r" "wp_best r (wp_incomingLinePart r) cs best"
  shows "\<exists>best'. wp_recordCandidate i (r\<lparr>wp_bestId := best, wp_candIdx := length cs\<rparr>) =
      Some (r\<lparr>wp_bestId := best', wp_candIdx := length (cs @ [i])\<rparr>) \<and> wp_best r (wp_incomingLinePart r) (cs @ [i]) best'"
proof -
  let ?b = "wp_choose i (r\<lparr>wp_bestId := best, wp_candIdx := length cs\<rparr>)"
  have "wp_best r (wp_incomingLinePart r) (cs @ [i]) ?b" unfolding choose_eq [OF assms(1)] by (rule choose_best [OF assms(3)])
  moreover have "wp_recordCandidate i (r\<lparr>wp_bestId := best, wp_candIdx := length cs\<rparr>) = Some (r\<lparr>wp_bestId := ?b, wp_candIdx := length (cs @ [i])\<rparr>)"
    using assms(2) by (simp add: wp_recordCandidate_def)
  ultimately show ?thesis by (intro exI [of _ ?b]) simp
qed

lemma record_all_ok:
  assumes "\<not> wp_testMode r" "length (ds @ cs) \<le> wp_ways r" "wp_best r (wp_incomingLinePart r) ds best"
  shows "\<exists>best'. record_all wp_recordCandidate cs (r\<lparr>wp_bestId := best, wp_candIdx := length ds\<rparr>) =
      Some (r\<lparr>wp_bestId := best', wp_candIdx := length (ds @ cs)\<rparr>) \<and> wp_best r (wp_incomingLinePart r) (ds @ cs) best'"
  using assms(2,3)
proof (induction cs arbitrary: ds best)
  case (Cons c cs)
  obtain b where b: "wp_recordCandidate c (r\<lparr>wp_bestId := best, wp_candIdx := length ds\<rparr>) = Some (r\<lparr>wp_bestId := b, wp_candIdx := length (ds @ [c])\<rparr>)"
    "wp_best r (wp_incomingLinePart r) (ds @ [c]) b" using record_ok [OF assms(1) _ Cons.prems(2), of c] Cons.prems(1) by auto
  show ?case using Cons.IH [of "ds @ [c]" b] b Cons.prems(1) by simp
qed auto

definition wp_ready :: "'m WayPart \<Rightarrow> bool" where
  "wp_ready r \<longleftrightarrow> wp_candIdx r = 0 \<and> wp_bestId r = None"

lemma wp_rank_ok:
  assumes "wp_ready r" "\<not> wp_testMode r" "getp req = Some q" "length cands = wp_ways r" "w < wp_ways r" "wp_wayPartIndex r w = q"
  shows "\<exists>b. rp_rankCands (wp_policy mon getp) ns vl req cands r =
      Some (b, r\<lparr>wp_incomingLinePart := q, wp_incomingLineAddr := req_lineAddr req, wp_bestId := Some b, wp_candIdx := length cands\<rparr>) \<and>
    (\<exists>j<length cands. wp_wayPartIndex r j = q \<and> b = cands ! j) \<and> (\<forall>j<length cands. wp_wayPartIndex r j = q \<longrightarrow> wp_before r q b (cands ! j))"
proof -
  let ?r = "r\<lparr>wp_incomingLinePart := q, wp_incomingLineAddr := req_lineAddr req\<rparr>"
  have e: "?r = ?r\<lparr>wp_bestId := None, wp_candIdx := length ([] :: nat list)\<rparr>" using assms(1) by (cases r) (simp add: wp_ready_def)
  have s: "wp_startReplacement getp req r = Some ?r" using assms by (simp add: wp_startReplacement_def wp_ready_def)
  obtain best where b: "record_all wp_recordCandidate cands ?r = Some (?r\<lparr>wp_bestId := best, wp_candIdx := length cands\<rparr>)" "wp_best ?r q cands best"
    using record_all_ok [of ?r "[]" cands None] e assms by (auto simp: wp_best_def)
  have w: "wp_best r q cands best" using b(2) by (auto simp: wp_best_def wp_before_def split: option.splits)
  then obtain x where x: "best = Some x" using assms(4-6) by (cases best) (auto simp: wp_best_def)
  show ?thesis using w s b(1) x by (auto simp: wp_policy_def legacy_rank_def wp_getBestCandidate_def wp_best_def)
qed

section \<open>The policy contract\<close>

lemma record_member:
  "record_all wp_recordCandidate cs r = Some r' \<Longrightarrow> wp_bestId r' = Some b \<Longrightarrow> wp_bestId r = Some b \<or> b \<in> set cs"
proof (induction cs arbitrary: r)
  case (Cons c cs)
  obtain r1 where r1: "wp_recordCandidate c r = Some r1" "record_all wp_recordCandidate cs r1 = Some r'" using Cons.prems(1) by (auto split: Option.bind_splits)
  have "wp_bestId r1 = Some c \<or> wp_bestId r1 = wp_bestId r"
    using r1(1) by (auto simp: wp_recordCandidate_def wp_choose_def Let_def assert_that_def split: if_splits option.splits)
  then show ?case using Cons.IH [OF r1(2) Cons.prems(2)] by auto
qed auto

lemma update_keeps: "wp_update mon i req r = Some r' \<Longrightarrow> wp_ready r' = wp_ready r"
  by (auto simp: wp_update_def wp_hit_def wp_fill_def wp_ready_def assert_that_def Let_def split: if_splits Option.bind_splits)

interpretation way_part: repl_policy "wp_policy mon getp" wp_ready "\<lambda>_. True" "\<lambda>_. True" for mon getp
proof
  show "best \<in> set cands" if h: "wp_ready r" "rp_rankCands (wp_policy mon getp) ns vl req cands r = Some (best, r')" for r cands ns vl req best r'
  proof -
    obtain r0 r1 where "wp_startReplacement getp req r = Some r0" "record_all wp_recordCandidate cands r0 = Some r1" "wp_bestId r1 = Some best"
      using h(2) by (auto simp: wp_policy_def legacy_rank_def wp_getBestCandidate_def split: Option.bind_splits)
    moreover have "wp_bestId r0 = None" using calculation(1) h(1) by (auto simp: wp_startReplacement_def wp_ready_def assert_that_def split: if_splits Option.bind_splits)
    ultimately show ?thesis using record_member by fastforce
  qed
qed (auto simp: wp_policy_def update_keeps wp_replaced_def wp_ready_def dest: update_keeps)

section \<open>Repartitioning\<close>

lemma fill_ways_count: "wp_fill_ways ways p k (c, idx) = Some (c', idx') \<Longrightarrow> c \<le> ways \<Longrightarrow> c' = c + k \<and> c' \<le> ways"
  by (induction k arbitrary: c idx) (fastforce simp: assert_that_def split: if_splits)+

lemma set_sizes_count:
  "wp_set_sizes ks p (c, r) = Some (c', r') \<Longrightarrow> c \<le> wp_ways r \<Longrightarrow> c' = c + sum_list ks \<and> c' \<le> wp_ways r \<and> wp_ways r' = wp_ways r"
proof (induction ks arbitrary: p c r)
  case (Cons k ks)
  let ?r = "r\<lparr>wp_targetSize := (wp_targetSize r)(p := trunc32 (wp_totalSize r * k) div wp_ways r)\<rparr>"
  obtain d idx where f: "wp_fill_ways (wp_ways r) p k (c, wp_wayPartIndex ?r) = Some (d, idx)"
    and n: "wp_set_sizes ks (p + 1) (d, ?r\<lparr>wp_wayPartIndex := idx\<rparr>) = Some (c', r')"
    using Cons.prems(1) by (auto split: Option.bind_splits)
  show ?case using Cons.IH [OF n] fill_ways_count [OF f Cons.prems(2)] by simp
qed auto

lemma fill_ways_ok:
  "c + k \<le> ways \<Longrightarrow> wp_fill_ways ways p k (c, idx) = Some (c + k, \<lambda>w. if c \<le> w \<and> w < c + k then p else idx w)"
  by (induction k arbitrary: c idx) (auto simp: fun_eq_iff)

lemma set_sizes_ok:
  assumes "c + sum_list ks \<le> wp_ways r"
  shows "\<exists>t idx. wp_set_sizes ks p (c, r) = Some (c + sum_list ks, r\<lparr>wp_targetSize := t, wp_wayPartIndex := idx\<rparr>) \<and>
    (\<forall>w<c. idx w = wp_wayPartIndex r w) \<and> (\<forall>j<length ks. 0 < ks ! j \<longrightarrow> (\<exists>w<c + sum_list ks. idx w = p + j))"
  using assms
proof (induction ks arbitrary: c r p)
  case Nil
  then show ?case by (intro exI [of _ "wp_targetSize r"] exI [of _ "wp_wayPartIndex r"]) simp
next
  case (Cons k ks)
  let ?t = "(wp_targetSize r)(p := trunc32 (wp_totalSize r * k) div wp_ways r)"
  let ?i = "\<lambda>w. if c \<le> w \<and> w < c + k then p else wp_wayPartIndex r w"
  let ?r = "r\<lparr>wp_targetSize := ?t, wp_wayPartIndex := ?i\<rparr>"
  obtain t idx where n: "wp_set_sizes ks (p + 1) (c + k, ?r) = Some (c + k + sum_list ks, ?r\<lparr>wp_targetSize := t, wp_wayPartIndex := idx\<rparr>)"
    "\<forall>w<c + k. idx w = ?i w" "\<forall>j<length ks. 0 < ks ! j \<longrightarrow> (\<exists>w<c + k + sum_list ks. idx w = p + 1 + j)"
    using Cons.IH [of "c + k" ?r "p + 1"] Cons.prems by auto
  have "wp_set_sizes (k # ks) p (c, r) = Some (c + sum_list (k # ks), r\<lparr>wp_targetSize := t, wp_wayPartIndex := idx\<rparr>)"
    using n(1) fill_ways_ok [of c k "wp_ways r" p "wp_wayPartIndex r"] Cons.prems by (simp add: Let_def add.assoc)
  moreover have "\<exists>w<c + sum_list (k # ks). idx w = p + j" if "j < length (k # ks)" "0 < (k # ks) ! j" for j
  proof (cases j)
    case 0
    then have "idx c = p" "c < c + sum_list (k # ks)" using n(2) that by auto
    then show ?thesis using 0 by (intro exI [of _ c]) simp
  next
    case (Suc j') then show ?thesis using n(3) that by (auto simp: add.assoc)
  qed
  moreover have "\<forall>w<c. idx w = wp_wayPartIndex r w" using n(2) by auto
  ultimately show ?case by (intro exI [of _ t] exI [of _ idx]) simp
qed

section \<open>Runs\<close>

text \<open>
  A hit, a miss (choose a victim among the candidates of the set, mark it replaced, update it) and a
  new partitioning, as the array and the partitioner call the policy.
\<close>

datatype wp_op = WHit nat MemReq | WMiss MemReq "nat list" | WSizes "nat list"

fun wp_do :: "(nat \<Rightarrow> Address \<Rightarrow> 'm \<Rightarrow> 'm option) \<Rightarrow> (MemReq \<Rightarrow> nat option) \<Rightarrow> wp_op \<Rightarrow> 'm WayPart \<Rightarrow> 'm WayPart option" where
  "wp_do mon getp (WHit i req) r = wp_update mon i req r"
| "wp_do mon getp (WMiss req cands) r = do {
     (b, r1) \<leftarrow> rp_rankCands (wp_policy mon getp) (\<lambda>_. 0) (\<lambda>_. True) req cands r;
     wp_update mon b req (wp_replaced b r1)
   }"
| "wp_do mon getp (WSizes ks) r = wp_setPartitionSizes ks r"

fun wp_run :: "(nat \<Rightarrow> Address \<Rightarrow> 'm \<Rightarrow> 'm option) \<Rightarrow> (MemReq \<Rightarrow> nat option) \<Rightarrow> wp_op list \<Rightarrow> 'm WayPart \<Rightarrow> 'm WayPart option" where
  "wp_run mon getp [] r = Some r"
| "wp_run mon getp (a # as) r = do { r' \<leftarrow> wp_do mon getp a r; wp_run mon getp as r' }"

fun wp_legal :: "nat \<Rightarrow> nat \<Rightarrow> nat \<Rightarrow> (MemReq \<Rightarrow> nat option) \<Rightarrow> wp_op \<Rightarrow> bool" where
  "wp_legal partitions lines ways getp (WHit i req) \<longleftrightarrow> i < lines"
| "wp_legal partitions lines ways getp (WMiss req cands) \<longleftrightarrow>
     length cands = ways \<and> list_all (\<lambda>c. c < lines) cands \<and> (case getp req of Some q \<Rightarrow> q < partitions | None \<Rightarrow> False)"
| "wp_legal partitions lines ways getp (WSizes ks) \<longleftrightarrow> length ks = partitions \<and> list_all (\<lambda>k. 0 < k) ks \<and> sum_list ks = ways"

definition wp_good :: "nat \<Rightarrow> nat \<Rightarrow> nat \<Rightarrow> 'm WayPart \<Rightarrow> bool" where
  "wp_good P n ways r \<longleftrightarrow> wp_inv r \<and> wp_ready r \<and> \<not> wp_testMode r \<and> wp_partitions r = P \<and> wp_totalSize r = n \<and> wp_ways r = ways \<and>
     wp_incomingLinePart r < P \<and> (\<forall>q<P. \<exists>w<ways. wp_wayPartIndex r w = q)"

lemma update_good:
  assumes "wp_good P n ways r" "i < n" "\<And>p a m. mon p a m \<noteq> None"
  shows "\<exists>r'. wp_update mon i req r = Some r' \<and> wp_good P n ways r'"
proof -
  have p: "wp_p r i < P" "wp_incomingLinePart r < P" "wp_partitions r = P" "wp_totalSize r = n" using assms(1,2) by (auto simp: wp_good_def wp_inv_def)
  have "\<exists>r1. (if wp_ts r i > 0 then wp_hit i r else wp_fill i r) = Some r1" using p by (simp add: wp_hit_def wp_fill_def Let_def)
  then obtain r1 where r1: "(if wp_ts r i > 0 then wp_hit i r else wp_fill i r) = Some r1" by blast
  let ?r2 = "r1\<lparr>wp_ts := (wp_ts r1)(i := wp_timestamp r1), wp_timestamp := trunc64 (wp_timestamp r1 + 1)\<rparr>"
  obtain m where m: "mon (wp_p ?r2 i) (wp_addr ?r2 i) (wp_monitor ?r2) = Some m" using assms(3) by blast
  have u: "wp_update mon i req r = Some (?r2\<lparr>wp_monitor := m\<rparr>)" using r1 m by (simp add: wp_update_def Let_def)
  have "wp_inv (?r2\<lparr>wp_monitor := m\<rparr>)" using update_inv [OF _ _ u] assms(1,2) p(4) by (auto simp: wp_good_def)
  moreover have "wp_good P n ways r1 \<or> \<not> wp_inv r1"
    using r1 assms(1) by (auto simp: wp_hit_def wp_fill_def wp_good_def wp_ready_def Let_def assert_that_def split: if_splits)
  ultimately have "wp_good P n ways (?r2\<lparr>wp_monitor := m\<rparr>)" by (auto simp: wp_good_def wp_ready_def wp_inv_def)
  then show ?thesis using u by blast
qed

lemma do_good:
  assumes g: "wp_good P n ways r" and l: "wp_legal P n ways getp a" and m: "\<And>p a m. mon p a m \<noteq> None"
  shows "\<exists>r'. wp_do mon getp a r = Some r' \<and> wp_good P n ways r'"
proof (cases a)
  case (WHit i req)
  then show ?thesis using update_good [of P n ways r i mon req] g l m by simp
next
  case (WMiss req cands)
  then obtain q where q: "getp req = Some q" "q < P" "length cands = ways" "\<forall>c\<in>set cands. c < n" using l by (auto simp: list_all_iff split: option.splits)
  obtain w where w: "w < ways" "wp_wayPartIndex r w = q" using g q(2) by (auto simp: wp_good_def)
  let ?r1 = "\<lambda>b. r\<lparr>wp_incomingLinePart := q, wp_incomingLineAddr := req_lineAddr req, wp_bestId := Some b, wp_candIdx := length cands\<rparr>"
  obtain b where b: "rp_rankCands (wp_policy mon getp) (\<lambda>_. 0) (\<lambda>_. True) req cands r = Some (b, ?r1 b)" "b \<in> set cands"
    using wp_rank_ok [of r getp req q cands w mon "\<lambda>_. 0" "\<lambda>_. True"] g q w by (auto simp: wp_good_def)
  have "wp_good P n ways (wp_replaced b (?r1 b))" using g q by (auto simp: wp_good_def wp_replaced_def wp_ready_def wp_inv_def)
  then show ?thesis using update_good [of P n ways "wp_replaced b (?r1 b)" b mon req] b q(4) m WMiss by simp
next
  case (WSizes ks)
  then have k: "length ks = P" "\<forall>j<P. 0 < ks ! j" "sum_list ks = ways" using l by (auto simp: list_all_length)
  obtain t idx where s: "wp_set_sizes ks 0 (0, r) = Some (ways, r\<lparr>wp_targetSize := t, wp_wayPartIndex := idx\<rparr>)" "\<forall>j<P. \<exists>w<ways. idx w = j"
    using set_sizes_ok [of 0 ks r 0] g k by (auto simp: wp_good_def)
  then show ?thesis using g k WSizes by (auto simp: wp_setPartitionSizes_def wp_good_def wp_ready_def wp_inv_def)
qed

lemma run_good:
  assumes "wp_good P n ways r" "list_all (wp_legal P n ways getp) as" "\<And>p a m. mon p a m \<noteq> None"
  shows "\<exists>r'. wp_run mon getp as r = Some r' \<and> wp_good P n ways r'"
  using assms(1,2)
proof (induction as arbitrary: r)
  case (Cons a as)
  obtain r' where "wp_do mon getp a r = Some r'" "wp_good P n ways r'" using do_good [of P n ways r getp a mon] Cons.prems assms(3) by auto
  then show ?case using Cons.IH [of r'] Cons.prems by auto
qed auto

lemma assign_ok:
  assumes "0 < P" "ways * P < 2 ^ 32" "\<forall>w\<in>set ws. w < ways" "distinct ws"
  shows "\<exists>idx t. wp_assign P ways sz ws (i0, t0) = Some (idx, t) \<and> (\<forall>w. idx w = (if w \<in> set ws then w * P div ways else i0 w))"
  using assms(3,4)
proof (induction ws arbitrary: i0 t0)
  case (Cons w ws)
  have lt: "w * P < ways * P" using Cons.prems(1) assms(1) by simp
  then have "trunc32 (w * P) = w * P" using assms(2) by (intro trunc32_id) linarith
  moreover have "w * P div ways < P" using lt by (simp add: div_less_iff_less_mult mult.commute)
  ultimately have e: "wp_assign P ways sz (w # ws) (i0, t0) = wp_assign P ways sz ws (i0(w := w * P div ways), t0(w * P div ways := t0 (w * P div ways) + sz))"
    by (simp add: Let_def)
  obtain idx t where "wp_assign P ways sz ws (i0(w := w * P div ways), t0(w * P div ways := t0 (w * P div ways) + sz)) = Some (idx, t)"
    "\<forall>v. idx v = (if v \<in> set ws then v * P div ways else (i0(w := w * P div ways)) v)"
    using Cons.IH [of "i0(w := w * P div ways)" "t0(w * P div ways := t0 (w * P div ways) + sz)"] Cons.prems(1,2)
    unfolding list.set distinct.simps by blast
  then show ?case unfolding e by (intro exI [of _ idx] exI [of _ t]) (use Cons.prems(2) in auto)
qed auto

text \<open>Every partition gets a way initially.\<close>

lemma way_of:
  fixes P q ways :: nat
  assumes "q < P" "P \<le> ways"
  shows "\<exists>w<ways. w * P div ways = q"
proof -
  let ?w = "(q * ways + (P - 1)) div P"
  have P: "0 < P" using assms(1) by simp
  have lo: "q * ways \<le> ?w * P"
    using div_mult_mod_eq [of "q * ways + (P - 1)" P] mod_less_divisor [OF P, of "q * ways + (P - 1)"] by linarith
  have hi: "?w * P \<le> q * ways + (P - 1)" by (rule div_times_less_eq_dividend)
  moreover have "q * ways + (P - 1) < (q + 1) * ways" using assms(2) P by simp
  ultimately have "?w * P < (q + 1) * ways" by (rule le_less_trans)
  then have "?w * P div ways = q" using lo by (intro div_nat_eqI) (simp_all add: mult.commute)
  moreover have "(q + 1) * ways \<le> P * ways" using assms(1) by (intro mult_le_mono1) simp
  with \<open>?w * P < (q + 1) * ways\<close> have "?w * P < P * ways" by (rule less_le_trans)
  then have "?w < ways" by (metis mult.commute mult_less_cancel2)
  ultimately show ?thesis by blast
qed

lemma new_good:
  assumes "wp_new P n ways False mon = Some r" "P \<le> ways" "ways * P < 2 ^ 32" "n < 2 ^ 64 - 1"
  shows "wp_good P n ways r"
proof -
  have P: "0 < P" using assms(1) by (auto simp: wp_new_def Let_def assert_that_def split: if_splits Option.bind_splits)
  obtain idx t where a: "wp_assign P ways (n div ways) [0..<ways] (\<lambda>_. 0, \<lambda>_. 0) = Some (idx, t)" "\<And>w. w < ways \<Longrightarrow> idx w = w * P div ways"
    using assign_ok [OF P assms(3), of "[0..<ways]" "n div ways" "\<lambda>_. 0" "\<lambda>_. 0"] by auto
  have "owned n (\<lambda>_. 0) p = (if p = 0 then n else 0)" for p by (simp add: owned_def)
  then show ?thesis using assms(1,4) a P way_of [OF _ assms(2)]
    by (auto simp: wp_new_def Let_def assert_that_def wp_good_def wp_inv_def wp_ready_def split: if_splits) metis
qed


lemma ex_new: "\<exists>r0. wp_new 2 4 2 False () = Some r0"
  by (simp add: wp_new_def Let_def upt_rec trunc32_def)


text \<open>
  C34: When a request of partition \<open>q\<close> needs a line, way partitioning evicts from a way assigned to \<open>q\<close>,
  so that the lines in the ways of the other partitions stay; among these ways it takes a line of
  another partition first, and otherwise the least recently used one.
\<close>

theorem waypart_victim:
  assumes "wp_ready r" "\<not> wp_testMode r" "getp req = Some q" "length cands = wp_ways r" "w < wp_ways r" "wp_wayPartIndex r w = q"
  shows "\<exists>b r' j. rp_rankCands (wp_policy mon getp) ns vl req cands r = Some (b, r') \<and> j < wp_ways r \<and> b = cands ! j \<and> wp_wayPartIndex r j = q \<and>
    (\<forall>k<wp_ways r. wp_wayPartIndex r k = q \<longrightarrow> wp_p r (cands ! k) \<noteq> q \<longrightarrow> wp_p r b \<noteq> q) \<and>
    (\<forall>k<wp_ways r. wp_wayPartIndex r k = q \<longrightarrow> (wp_p r (cands ! k) = q) = (wp_p r b = q) \<longrightarrow> wp_ts r b \<le> wp_ts r (cands ! k))"
proof -
  obtain b r' where b: "rp_rankCands (wp_policy mon getp) ns vl req cands r = Some (b, r')" "\<exists>j<length cands. wp_wayPartIndex r j = q \<and> b = cands ! j"
    "\<forall>j<length cands. wp_wayPartIndex r j = q \<longrightarrow> wp_before r q b (cands ! j)"
    using wp_rank_ok [of r getp req q cands w mon ns vl] assms by blast
  obtain j where j: "j < wp_ways r" "wp_wayPartIndex r j = q" "b = cands ! j" using b(2) assms(4) by auto
  show ?thesis
    by (intro exI [of _ b] exI [of _ r'] exI [of _ j]) (use b(1,3) j assms(4) in \<open>auto simp: wp_before_def\<close>)
qed

theorem waypart_victim_witness:
  "\<exists>r b r' j. wp_new 2 4 2 False () = Some r \<and>
    rp_rankCands (wp_policy (\<lambda>_ _ m. Some m) (\<lambda>q. Some (req_srcId q))) (\<lambda>_. 0) (\<lambda>_. True)
      \<lparr>req_lineAddr = 5, req_type = GETS, req_childId = 0, req_state = Outside 0, req_cycle = 0, req_childLock = None, req_initialState = I, req_srcId = 1, req_flags = 0\<rparr>
      [2, 3] r = Some (b, r') \<and> j < 2 \<and> b = [2, 3] ! j \<and> wp_wayPartIndex r j = 1"
proof -
  obtain r where r: "wp_new 2 4 2 False () = Some r" using ex_new by blast
  have g: "wp_good 2 4 2 r" by (rule new_good [OF r]) simp_all
  then have "\<forall>q<2. \<exists>w<2. wp_wayPartIndex r w = q" by (simp add: wp_good_def)
  then obtain w where "w < 2" "wp_wayPartIndex r w = 1" by (metis one_less_numeral_iff semiring_norm(76))
  then show ?thesis using g r waypart_victim [of r "\<lambda>q. Some (req_srcId q)"
      "\<lparr>req_lineAddr = 5, req_type = GETS, req_childId = 0, req_state = Outside 0, req_cycle = 0, req_childLock = None, req_initialState = I, req_srcId = 1, req_flags = 0\<rparr>" 1 "[2, 3]" w "\<lambda>_ _ m. Some m" "\<lambda>_. 0" "\<lambda>_. True"]
    by (auto simp: wp_good_def)
qed

text \<open>
  C35: The partitioner fails on every way-partitioned cache with at least two partitions. It asks the
  lookahead algorithm for a minimum of as many ways as there are partitions instead of one, that
  minimum is counted once, and the allocations add up to more ways than the cache has; the policy
  then writes behind its table of ways (and fails its assertion), whatever the monitor measured.
\<close>

theorem waypart_partition_fails:
  assumes "\<forall>x\<ge>0. 0 \<le> rnd x" "\<forall>k<2 ^ 32. rnd (of_nat k) = of_nat k" "1 < n" "n \<le> ways" "ways < 2 ^ 32"
    "wp_new n lines ways testMode mon = Some r" "lp_new n ways 1 1 (\<lambda>_. False) = Some lp"
  shows "lp_partition rnd get wp_setPartitionSizes reset (lp, r) = None"
proof -
  have lp: "lp_numPartitions lp = n" "lp_buckets lp = ways" "lp_minAlloc lp = 1" "lp_allocPortion lp = 1" "lp_forbidden lp = (\<lambda>_. False)"
    using assms(7) by (auto simp: lp_new_def assert_that_def split: if_splits)
  have r: "wp_ways r = ways" "wp_partitions r = n"
    using assms(6) by (auto simp: wp_new_def Let_def assert_that_def split: if_splits Option.bind_splits)
  have a1: "trunc32 (nat \<lfloor>rnd (lp_allocPortion lp * of_nat (lp_buckets lp))\<rfloor>) = ways" using assms(2,5) lp by simp
  have a2: "trunc32 (lp_minAlloc lp * n) = n" using assms(4,5) lp by simp
  obtain al where al: "computeBestPartitioning rnd get n ways n (\<lambda>_. False) = Some al" "length al = n" "sum_list al = n * n + (ways - n)"
    using best_alloc_ok [of rnd 0 n "\<lambda>_. False" n ways get] assms(1,3-5) by auto
  have "wp_setPartitionSizes al r = None"
  proof (rule ccontr)
    assume "wp_setPartitionSizes al r \<noteq> None"
    then obtain c r' where s: "wp_set_sizes al 0 (0, r) = Some (c, r')"
      using al(2) r by (auto simp: wp_setPartitionSizes_def split: Option.bind_splits)
    have "n * n + (ways - n) \<le> ways" using set_sizes_count [OF s] al(3) r(1) by simp
    moreover have "n < n * n" using assms(3) by simp
    ultimately show False using assms(4) by linarith
  qed
  moreover have "map (\<lambda>p. if p < n then al ! p else lp_curAllocs lp p) [0..<n] = al" using al(2) by (intro nth_equalityI) auto
  ultimately show ?thesis using a1 a2 al(1) lp by (simp add: lp_partition_def Let_def)
qed

theorem waypart_partition_fails_witness:
  "\<exists>r lp. wp_new 2 4 2 False () = Some r \<and> lp_new 2 2 1 1 (\<lambda>_. False) = Some lp \<and>
    lp_partition (\<lambda>x. x) (\<lambda>p b. 100 - 10 * b) wp_setPartitionSizes (\<lambda>r. r) (lp, r) = None"
proof -
  obtain r where r: "wp_new 2 4 2 False () = Some r" using ex_new by blast
  obtain lp where lp: "lp_new 2 2 1 1 (\<lambda>_. False) = Some lp" by (simp add: lp_new_def)
  show ?thesis
    using r lp waypart_partition_fails [of "\<lambda>x. x" 2 2 4 False "()" r lp "\<lambda>p b. 100 - 10 * b" "\<lambda>r. r"] by auto
qed

end
