(* ===== verification/Spec2Isabelle.thy ===== *)
theory Spec2Isabelle
  imports Init_Run Locks Prio_Queue Event_Queue Ideal_Arrays Way_Partition
begin

text \<open>
  A verification library of zsim, a parallel simulator of multicore memory systems.

  \<^bold>\<open>The program.\<close> zsim simulates cores whose loads and stores travel through a tree of
  caches to memory controllers. \<open>InitSystem\<close> (src/src/init.cpp) reads a configuration, builds banks of
  caches (an array with a replacement policy, a pair of MESI controllers), wires banks to their
  parents and children and hands first-level caches to cores. An access goes up the tree through the
  virtual method \<open>access\<close>; invalidations come down through \<open>invalidate\<close>; both leave timing records
  for the contention simulation, whose events wait in a calendar queue. A partitioned cache measures
  the utility of its partitions and is repartitioned by a periodic event. Locks of the simulator
  itself protect caches and queues.

  \<^bold>\<open>Reading the model.\<close> A failed assertion, a \<open>panic\<close>, a null dereference and an index out of
  bounds are the value \<open>None\<close>; a function that returns has the value \<open>Some\<close>. State is passed
  explicitly, in records with the fields of the C++ class; an array is a function of its index.
  Words of 32 and 64 bits are HOL words where bits matter (addresses, flags, hashes, lock words),
  and natural numbers with \<open>trunc32\<close> and \<open>trunc64\<close> where they are counters. Doubles are rationals; each
  operation is the exact one followed by a rounding function, a parameter whose documented
  behaviour is a named hypothesis. Code outside the repository (libconfig, the SHA-1 of PolarSSL, the
  futex system call, the C++ library hash) is a parameter too.

  \<^bold>\<open>Theories.\<close>
  \<^item> Prelude, Bithacks, MTRand, Hash: the option monad, src/src/bithacks.h, src/src/mtrand.h and
    the hash families of src/src/hash.cpp. H3 hashing is linear, the SHA-1 memo is transparent
    except for the value 0, drawn numbers are 32-bit numbers within the bound asked for.
  \<^item> Memory_Hierarchy: the requests of src/src/memory_hierarchy.h.
  \<^item> Repl_Policies: the policies of src/src/repl_policies.h with the locales \<open>repl_policy\<close> and
    \<open>total_repl_policy\<close>, the contract the arrays use; which line each policy evicts.
  \<^item> Cache_Arrays: src/src/cache_arrays.cpp. The locale \<open>cache_array\<close> is the contract between a cache
    and its array; the set-associative and the zcache array are interpretations. The zcache walk
    equals the reference walk of the source, and a relocation keeps every other line.
  \<^item> Intrusive_List, Ideal_Arrays: src/src/intrusive_list.h refines sequences; the ideal array of
    src/src/ideal_arrays.h is a third interpretation of \<open>cache_array\<close> and holds the most recently used
    addresses.
  \<^item> Timing_Event, Mem_Ctrls: event graphs and recorders (src/src/timing_event.h,
    src/src/event_recorder.h) and the controllers of src/src/mem_ctrls.cpp, with the locale
    \<open>memory_ctrl\<close>.
  \<^item> Coherence, Hierarchy: the controllers of src/src/coherence_ctrls.h and the cache of
    src/src/cache.cpp, and the recursion through parents and children that the virtual calls make.
    The recursion is bounded by fuel, one unit per level: the depth of the tree is enough, and the
    theorems on accesses prove that the result is \<open>Some\<close>.
  \<^item> Hierarchy_Inv, Hierarchy_Inval, Hierarchy_Access, Hierarchy_Cache: the coherence invariant
    (inclusion, directory, single writer), the locale \<open>hierarchy\<close> over the contracts of arrays and
    memories, and that invalidations and accesses of a hierarchy of any depth end and keep it.
  \<^item> Config, Network, Init_Cache, Init_System, Init_Topology, Init_Run: src/src/config.cpp,
    src/src/network.cpp and the builders of src/src/init.cpp. What \<open>InitSystem\<close> accepts is a tree whose
    links agree in both directions; the built system interprets \<open>hierarchy\<close>, so that every run of
    the cores of an accepted configuration is coherent.
  \<^item> Multimap, Prio_Queue, Event_Queue: the calendar queue of src/src/prio_queue.h refines a priority
    queue; src/src/event_queue.h runs every event when it is due.
  \<^item> Locks: spin, ticket and futex locks of src/src/locks.h as step relations over any interleaving
    of threads: mutual exclusion, no lost wakeup, first come first served.
  \<^item> Utility_Monitor, Partitioner, Way_Partition: cache partitioning, src/src/utility_monitor.cpp,
    src/src/monitor.cpp, src/src/partition_mapper.cpp, src/src/lookahead.cpp and the way-partitioned
    policy of src/src/part_repl_policies.h. The monitor measures the misses of every cache size in one
    pass; the lookahead allocation ends; the sizes of the partitions count their lines (locale
    \<open>part_sizes\<close>); and repartitioning a way-partitioned cache with several partitions fails.

  \<^bold>\<open>Bounds.\<close> Cycles are unbounded natural numbers in the queues and the controllers; counters
  that the source keeps in 32 or 64 bits wrap. Loops that the source bounds are structural; the
  fringe loop of \<open>InitSystem\<close> has as many rounds of fuel as there are groups, which the theorem
  \<open>build_groups_returns\<close> shows to be enough; the allocation loop of the lookahead partitioner and
  the rejection loop of the random generator are partial functions, and their return is proved.

  \<^bold>\<open>Not modelled.\<close> The instrumentation and process side (src/src/zsim.cpp, the harness, the
  decoder, src/src/virt, src/src/scheduler.cpp, process trees, the cores, which run decoded
  instructions) depends on the interface of Pin and on system calls. Statistics, traces and logging
  (stats.h, access_tracing, hdf5) only observe. The detailed memory models (ddr_mem, detailed_mem,
  dramsim, the vendored MQSim), the contention simulation threads, the timing cache and its
  overflow handling, and the prefetcher are listed in the manifest with their reasons.
\<close>

end
